(* ===== verification/Xcash_Prelude.thy ===== *)
theory Xcash_Prelude
  imports Main "HOL-Library.Word" "HOL-Library.Monad_Syntax"
begin

text \<open>
  Shared vocabulary of the development: the machine-integer and byte-string types the
  source uses, the collections of simplification facts the component theories extend, and
  the generic facts on words and lists that several components need.

  Bytes are \<open>8 word\<close>; the unsigned C++ types keep their width (\<open>uint8_t\<close>, \<open>uint32_t\<close>,
  \<open>uint64_t\<close>, with \<open>size_t\<close> taken as 64 bits). The fixed-size blobs of \<^verbatim>\<open>crypto/\<close>
  (hashes, public keys, key images: 32 bytes; signatures: 64 bytes) and strings are byte
  lists, with their lengths tracked by the well-formedness predicates of the components.
\<close>

unbundle bit_operations_syntax

type_synonym byte = "8 word"
type_synonym bytes = "byte list"
type_synonym u8 = "8 word"
type_synonym u32 = "32 word"
type_synonym u64 = "64 word"

named_theorems codec_simps \<open>save-then-load equations of the binary archive\<close>
named_theorems consume_intros \<open>a loader returns a suffix of its input\<close>

subsection \<open>Words\<close>

lemma word_bit_eq_iff:
  "(a :: 'w::len word) = b \<longleftrightarrow> (\<forall>n < LENGTH('w). bit a n = bit b n)"
  by (auto intro: bit_word_eqI)

lemma and_127: "(x :: 'w::len word) AND 0x7f = take_bit 7 x"
  by (simp add: take_bit_eq_mask mask_eq_exp_minus_1)

lemma and_255: "(x :: 'w::len word) AND 0xff = take_bit 8 x"
  by (simp add: take_bit_eq_mask mask_eq_exp_minus_1)

lemma unat_lt_256: "unat (b :: byte) < 256"
  using unsigned_less [of b] by simp

lemma unat_of_nat_u64 [simp]: "n < 2 ^ 64 \<Longrightarrow> unat (of_nat n :: u64) = n"
  by (simp add: unat_of_nat)

lemma unat_lt_u64: "unat (x :: u64) < 2 ^ 64"
  using unsigned_less [of x] by simp

lemma unat_bound: "unat (x :: u64) < 18446744073709551616"
  using unsigned_less [of x] by simp

lemma add_overflows: "(m :: u64) > a + m \<longleftrightarrow> \<not> unat m + unat a < 2 ^ 64"
proof -
  define B :: nat where "B = 2 ^ 64"
  have B: "unat m < B" "unat a < B" unfolding B_def by (rule unat_lt_u64)+
  have e: "unat (a + m) = (unat a + unat m) mod B" by (simp add: unat_word_ariths(1) B_def)
  have "(unat a + unat m) mod B < unat m \<longleftrightarrow> \<not> unat m + unat a < B"
    using B by (cases "unat m + unat a < B") (auto simp: le_mod_geq add.commute)
  then show ?thesis unfolding word_less_nat_alt e B_def .
qed

lemma unat_add_fits: "unat (m :: u64) + unat a < 2 ^ 64 \<Longrightarrow> unat (m + a) = unat m + unat a"
  by (simp add: unat_word_ariths(1))

lemma unat_sub_le: "b \<le> (a :: u64) \<Longrightarrow> unat (a - b) = unat a - unat b"
  by (simp add: unat_sub)

subsection \<open>Lists\<close>

text \<open>Removing the longest all-zero suffix is what several parsers have to reason about.\<close>

lemma replicate_snoc: "replicate n x @ [x] = x # replicate n x"
  by (simp add: replicate_append_same)

end
