(* ===== verification/Varint.thy ===== *)
theory Varint
  imports Xcash_Prelude
begin

text \<open>
  Variable-length integers, from \<^verbatim>\<open>src/src/common/varint.h\<close>. An unsigned value is written
  seven bits at a time, least significant group first, with the top bit of a byte set when
  another byte follows.

  \<open>write_varint\<close> and \<open>read_varint\<close> are the two templates, generic in the width of the
  integer type as the templates are. The reader returns the C++ return value (the number of
  bytes read, or one of the two negative error codes), the value left in the output
  parameter, and the rest of the input. The value matters even when the code is negative,
  because the only caller in the archive layer drops the code.

  Shown here: reading what was written gives the value back at every width, and a complete
  encoding that is accepted is the one the writer produces, so no value has two encodings.
\<close>

subsection \<open>Definitions\<close>

definition EVARINT_OVERFLOW :: int where "EVARINT_OVERFLOW = -1"
definition EVARINT_REPRESENT :: int where "EVARINT_REPRESENT = -2"

function write_varint :: "'w::len word \<Rightarrow> bytes" where
  "write_varint i =
     (if 0x80 \<le> unat i
      then ((ucast i AND 0x7f) OR 0x80) # write_varint (drop_bit 7 i)
      else [ucast i])"
  by pat_completeness auto
termination
proof (relation "measure unat", simp)
  fix i :: "'w::len word"
  assume "0x80 \<le> unat i"
  then have "unat (drop_bit 7 i) < unat i"
    by (simp add: unat_drop_bit_eq drop_bit_nat_def)
  then show "(drop_bit 7 i, i) \<in> measure unat" by simp
qed

declare write_varint.simps [simp del]

fun read_varint_loop :: "nat \<Rightarrow> nat \<Rightarrow> 'w::len word \<Rightarrow> bytes \<Rightarrow> int \<times> 'w word \<times> bytes" where
  "read_varint_loop shift n acc [] = (int n, acc, [])"
| "read_varint_loop shift n acc (b # bs) =
     (if LENGTH('w) \<le> shift + 7 \<and> 2 ^ (LENGTH('w) - shift) \<le> unat b
      then (EVARINT_OVERFLOW, acc, bs)
      else if b = 0 \<and> shift \<noteq> 0 then (EVARINT_REPRESENT, acc, bs)
      else let acc' = acc OR push_bit shift (ucast (b AND 0x7f)) in
        if b AND 0x80 = 0 then (int (Suc n), acc', bs)
        else read_varint_loop (shift + 7) (Suc n) acc' bs)"

definition read_varint :: "bytes \<Rightarrow> int \<times> 'w::len word \<times> bytes" where
  "read_varint bs = read_varint_loop 0 0 0 bs"

subsection \<open>Bytes of an encoding\<close>

lemma write_varint_small: "unat i < 128 \<Longrightarrow> write_varint i = [ucast i]"
  by (simp add: write_varint.simps)

lemma bit_0x80 [simp]: "bit (0x80 :: int) n \<longleftrightarrow> n = 7"
proof -
  have "(0x80 :: int) = 2 ^ 7" by simp
  then show ?thesis by (simp only: bit_exp_iff) auto
qed

lemma unat_div_128: "unat (drop_bit 7 i) = unat i div 128"
  by (simp add: unat_drop_bit_eq drop_bit_nat_def)

lemma byte_and_80: "(b :: byte) AND 0x80 = 0 \<longleftrightarrow> unat b < 128"
proof -
  have "(b AND 0x80 = 0) \<longleftrightarrow> \<not> bit b 7"
    by (auto simp: word_bit_eq_iff bit_and_iff dest: spec[of _ 7])
  also have "\<dots> \<longleftrightarrow> unat b < 128"
  proof -
    have "unat b < 256" by (rule unat_lt_256)
    then have "unat b div 128 = (if 128 \<le> unat b then 1 else 0)"
      by (auto intro!: div_nat_eqI)
    then have "bit (unat b) 7 \<longleftrightarrow> 128 \<le> unat b"
      by (simp add: bit_iff_odd)
    then show ?thesis by (simp add: bit_unsigned_iff not_le)
  qed
  finally show ?thesis .
qed

lemma cont_byte:
  fixes i :: "'w::len word"
  defines "b \<equiv> (ucast i AND 0x7f) OR 0x80 :: byte"
  shows "b AND 0x80 \<noteq> 0" "b \<noteq> 0" "ucast (b AND 0x7f) = take_bit 7 i"
proof -
  show "b AND 0x80 \<noteq> 0" unfolding b_def
    by (auto simp: word_bit_eq_iff bit_simps)
  then show "b \<noteq> 0" by auto
  show "ucast (b AND 0x7f) = take_bit 7 i"
    unfolding b_def and_127
    by (rule bit_word_eqI) (auto simp: bit_simps)
qed

subsection \<open>Reading what was written\<close>

lemma read_write_loop:
  "unat i < 2 ^ (LENGTH('w) - shift) \<Longrightarrow> shift < LENGTH('w) \<Longrightarrow> shift = 0 \<or> i \<noteq> 0 \<Longrightarrow>
   read_varint_loop shift n acc (write_varint (i::'w::len word) @ rest) =
     (int (n + length (write_varint i)), acc OR push_bit shift i, rest)"
proof (induction i arbitrary: shift n acc rule: write_varint.induct)
  case (1 i)
  show ?case
  proof (cases "128 \<le> unat i")
    case False
    then have "unat i < 128" by simp
    have ub: "unat (ucast i :: byte) = unat i"
      using \<open>unat i < 128\<close> by (simp add: unsigned_ucast_eq take_bit_nat_eq_self_iff)
    have "take_bit 7 i = i"
      using \<open>unat i < 128\<close> by (simp add: word_unat_eq_iff unsigned_take_bit_eq take_bit_nat_eq_self_iff)
    have t: "ucast ((ucast i :: byte) AND 0x7f) = i"
      unfolding and_127
      using \<open>take_bit 7 i = i\<close>
      by (auto simp: word_bit_eq_iff bit_simps)
    have nz: "shift = 0 \<or> (ucast i :: byte) \<noteq> 0"
      using 1(4) ub by (metis unat_eq_zero unsigned_0)
    have "unat i < 2 ^ (LENGTH('w) - shift)" by (rule 1(2))
    with ub nz t \<open>unat i < 128\<close> show ?thesis
      by (auto simp: write_varint_small byte_and_80)
  next
    case True
    have w: "write_varint i = ((ucast i AND 0x7f) OR 0x80) # write_varint (drop_bit 7 i)"
      using True by (simp add: write_varint.simps)
    have long: "shift + 7 < LENGTH('w)"
    proof (rule ccontr)
      assume "\<not> shift + 7 < LENGTH('w)"
      then have "(2::nat) ^ (LENGTH('w) - shift) \<le> 2 ^ 7" by (intro power_increasing) auto
      with True 1(2) show False by simp
    qed
    have small: "unat (drop_bit 7 i) < 2 ^ (LENGTH('w) - (shift + 7))"
    proof -
      have "unat (drop_bit 7 i) = unat i div 2 ^ 7" by (simp add: unat_drop_bit_eq drop_bit_nat_def)
      also have "\<dots> < 2 ^ (LENGTH('w) - (shift + 7))"
      proof (rule less_mult_imp_div_less)
        have "LENGTH('w) - shift = LENGTH('w) - (shift + 7) + 7" using long by simp
        then show "unat i < 2 ^ (LENGTH('w) - (shift + 7)) * 2 ^ 7"
          using 1(2) by (metis power_add)
      qed
      finally show ?thesis .
    qed
    have nz: "drop_bit 7 i \<noteq> 0"
    proof
      assume "drop_bit 7 i = 0"
      then have "unat i div 128 = 0" by (metis unat_div_128 unsigned_0)
      with True show False by simp
    qed
    have comb: "acc OR push_bit shift (take_bit 7 i) OR push_bit (shift + 7) (drop_bit 7 i)
        = acc OR push_bit shift i"
    proof (rule bit_word_eqI)
      fix n assume "n < LENGTH('w)"
      have "7 + (n - (shift + 7)) = n - shift" if "shift + 7 \<le> n" using that by simp
      then show "bit (acc OR push_bit shift (take_bit 7 i) OR push_bit (shift + 7) (drop_bit 7 i)) n
          = bit (acc OR push_bit shift i) n"
        by (cases "shift + 7 \<le> n") (auto simp: bit_simps)
    qed
    show ?thesis
      using 1(1)[OF True small long] nz long comb
      by (simp add: w cont_byte Let_def or.assoc)
  qed
qed

lemma length_write_varint_le:
  "0 < k \<Longrightarrow> unat i < 2 ^ (7 * k) \<Longrightarrow> length (write_varint i) \<le> k"
proof (induction i arbitrary: k rule: write_varint.induct)
  case (1 i)
  show ?case
  proof (cases "128 \<le> unat i")
    case False
    then show ?thesis using 1 by (simp add: write_varint_small)
  next
    case True
    then obtain j where k: "k = Suc j" "0 < j"
      using 1 by (cases k; cases "k = 1") auto
    have "unat (drop_bit 7 i) < 2 ^ (7 * j)"
    proof -
      have "unat i < 2 ^ (7 * j) * 128" using 1(3) by (simp add: k power_add mult.commute)
      then show ?thesis by (simp add: unat_div_128 less_mult_imp_div_less)
    qed
    from 1(1) [OF True k(2) this] show ?thesis
      using True by (simp add: write_varint.simps [of i] k)
  qed
qed

lemma length_write_varint_u64: "length (write_varint (i :: u64)) \<le> 10"
proof (rule length_write_varint_le)
  have "unat i < 2 ^ 64" using unsigned_less [of i] by simp
  then show "unat i < 2 ^ (7 * 10)" by simp
qed simp

subsection \<open>Encodings are unique\<close>

lemma write_varint_glue:
  fixes b :: byte and i' :: "'w::len word"
  assumes b: "128 \<le> unat b" and i': "unat i' < 2 ^ (LENGTH('w) - 7)" "i' \<noteq> 0" and len: "7 < LENGTH('w)"
  defines "i \<equiv> ucast (b AND 0x7f) OR push_bit 7 i'"
  shows "write_varint i = b # write_varint i'"
    and "unat i = unat b - 128 + 128 * unat i'"
proof -
  have dr: "drop_bit 7 i = i'"
  proof (rule bit_word_eqI)
    fix n assume n: "n < LENGTH('w)"
    have hi: "\<not> bit i' n" if "LENGTH('w) - 7 \<le> n"
    proof -
      have "take_bit (LENGTH('w) - 7) i' = i'"
        using i'(1) by (simp add: word_unat_eq_iff unsigned_take_bit_eq take_bit_nat_eq_self_iff)
      then show ?thesis using that by (metis bit_take_bit_iff leD)
    qed
    show "bit (drop_bit 7 i) n = bit i' n"
      using n hi len unfolding i_def and_127
      by (cases "LENGTH('w) - 7 \<le> n") (auto simp: bit_simps)
  qed
  have tk: "take_bit 7 i = ucast (b AND 0x7f)"
    using len unfolding i_def and_127 by (auto simp: word_bit_eq_iff bit_simps)
  have b7: "bit b 7" using b byte_and_80[of b] by (auto simp: word_bit_eq_iff bit_simps)
  have hd: "(ucast i AND 0x7f) OR 0x80 = b"
    using b7 len unfolding i_def and_127
    by (auto simp: word_bit_eq_iff bit_simps nat_less_le)
  have ub: "unat (ucast (b AND 0x7f) :: 'w word) = unat b - 128"
  proof -
    have "unat b < 256" by (rule unat_lt_256)
    moreover have "unat (b AND 0x7f) = take_bit 7 (unat b)"
      unfolding and_127 by (rule unsigned_take_bit_eq)
    ultimately have "unat (b AND 0x7f) = unat b - 128"
      using b by (simp add: take_bit_eq_mod mod_if)
    moreover have "unat b - 128 < 2 ^ LENGTH('w)"
    proof -
      have "(2::nat) ^ 7 \<le> 2 ^ LENGTH('w)" using len by (intro power_increasing) auto
      with \<open>unat b < 256\<close> show ?thesis by simp
    qed
    ultimately show ?thesis by (simp add: unsigned_ucast_eq take_bit_nat_eq_self_iff)
  qed
  show 2: "unat i = unat b - 128 + 128 * unat i'"
  proof -
    have "take_bit 7 (unat i) = unat (take_bit 7 i)" by (rule unsigned_take_bit_eq [symmetric])
    also have "\<dots> = unat b - 128" by (simp only: tk ub)
    finally have "unat i mod 128 = unat b - 128" by (simp add: take_bit_eq_mod)
    moreover have "unat i div 128 = unat i'" by (simp add: dr flip: unat_div_128)
    ultimately show ?thesis by (metis add.commute mult_div_mod_eq)
  qed
  have "128 \<le> unat i" using 2 i'(2) by (simp add: unat_gt_0[symmetric] Suc_le_eq)
  then show "write_varint i = b # write_varint i'"
    by (subst write_varint.simps) (simp add: dr hd)
qed

lemma read_loop_canonical:
  fixes v acc :: "'w::len word"
  assumes "read_varint_loop shift n acc (bs @ rest) = (int (n + length bs), v, rest)"
    and "bs \<noteq> []" "unat (last bs) < 128" "shift < LENGTH('w)"
  shows "\<exists>i. bs = write_varint i \<and> v = acc OR push_bit shift i
           \<and> unat i < 2 ^ (LENGTH('w) - shift) \<and> (shift = 0 \<or> i \<noteq> 0)"
  using assms
proof (induction bs arbitrary: shift n acc)
  case Nil
  then show ?case by simp
next
  case (Cons b bs)
  let ?L = "LENGTH('w)"
  from Cons.prems(1) have ok: "\<not> (?L \<le> shift + 7 \<and> 2 ^ (?L - shift) \<le> unat b)"
      "\<not> (b = 0 \<and> shift \<noteq> 0)"
    by (auto simp: EVARINT_OVERFLOW_def EVARINT_REPRESENT_def split: if_splits)
  show ?case
  proof (cases "unat b < 128")
    case True
    with Cons.prems(1) ok have "bs = []" and v: "v = acc OR push_bit shift (ucast (b AND 0x7f))"
      by (auto simp: byte_and_80 Let_def)
    have bb: "b AND 0x7f = b"
      using True by (simp add: and_127 word_unat_eq_iff unsigned_take_bit_eq take_bit_nat_eq_self_iff)
    have lt: "unat b < 2 ^ (?L - shift)"
    proof (cases "?L \<le> shift + 7")
      case False
      then have "(2::nat) ^ 7 \<le> 2 ^ (?L - shift)" by (intro power_increasing) auto
      with True show ?thesis by simp
    qed (use ok in simp)
    have "(2::nat) ^ (?L - shift) \<le> 2 ^ ?L" by (intro power_increasing) auto
    with lt have "unat b < 2 ^ ?L" by linarith
    then have ui: "unat (ucast b :: 'w word) = unat b"
      by (simp add: unsigned_ucast_eq take_bit_nat_eq_self_iff)
    have cc: "ucast (ucast b :: 'w word) = b"
      using ui by (simp add: word_unat_eq_iff unsigned_ucast_eq unsigned_take_bit_eq)
    have "shift = 0 \<or> (ucast b :: 'w word) \<noteq> 0"
      using ok(2) ui by (metis unat_eq_zero unsigned_0)
    then show ?thesis
      using v bb lt ui cc True \<open>bs = []\<close>
      by (intro exI[of _ "ucast b"]) (simp add: write_varint_small)
  next
    case False
    with Cons.prems(1) ok
    have rec: "read_varint_loop (shift + 7) (Suc n) (acc OR push_bit shift (ucast (b AND 0x7f))) (bs @ rest)
        = (int (Suc n + length bs), v, rest)"
      by (auto simp: byte_and_80 Let_def)
    have ne: "bs \<noteq> []" using False Cons.prems(3) by auto
    have long: "shift + 7 < ?L"
    proof (rule ccontr)
      assume c: "\<not> shift + 7 < ?L"
      then have "(2::nat) ^ (?L - shift) \<le> 2 ^ 7" by (intro power_increasing) auto
      with ok(1) c False show False by simp
    qed
    from Cons.IH[OF rec ne _ long] Cons.prems(3) ne
    obtain i' where i': "bs = write_varint i'"
        "v = (acc OR push_bit shift (ucast (b AND 0x7f))) OR push_bit (shift + 7) i'"
        "unat i' < 2 ^ (?L - (shift + 7))" "i' \<noteq> 0"
      by auto
    have "(2::nat) ^ (?L - (shift + 7)) \<le> 2 ^ (?L - 7)" by (intro power_increasing) auto
    with i'(3) have i7: "unat i' < 2 ^ (?L - 7)" by linarith
    define i where "i = ucast (b AND 0x7f) OR push_bit 7 i'"
    from write_varint_glue[of b i'] False i7 i'(4) long
    have w: "write_varint i = b # write_varint i'" and u: "unat i = unat b - 128 + 128 * unat i'"
      by (auto simp: i_def)
    have "unat b < 256" by (rule unat_lt_256)
    then have "unat i < 128 * (unat i' + 1)" using u by simp
    also have "\<dots> \<le> 2 ^ 7 * 2 ^ (?L - (shift + 7))" using i'(3) by (simp add: Suc_le_eq)
    also have "\<dots> = 2 ^ (7 + (?L - (shift + 7)))" by (simp only: power_add)
    also have "7 + (?L - (shift + 7)) = ?L - shift" using long by simp
    finally have lt: "unat i < 2 ^ (?L - shift)" .
    have "v = acc OR push_bit shift i"
      by (simp add: i'(2) i_def or.assoc push_bit_or add.commute)
    moreover have "i \<noteq> 0" using u i'(4) by (auto simp: unat_gt_0[symmetric])
    ultimately show ?thesis using w i'(1) lt by (intro exI[of _ i]) simp
  qed
qed

text \<open>
  C37: Varints survive the wire. For every unsigned type, reading what \<open>write_varint\<close> wrote gives
  the value back, consumes exactly the bytes written and reports their number, whatever
  follows them.
\<close>

theorem varint_roundtrip:
  "read_varint (write_varint (v :: 'w::len word) @ rest) = (int (length (write_varint v)), v, rest)"
  unfolding read_varint_def using read_write_loop[of v 0 0 0 rest] by simp

text \<open>
  C38: Encodings are unique. When \<open>read_varint\<close> accepts a whole, terminated byte string (it
  reports no error and the last byte has no continuation bit), that string is the one
  \<open>write_varint\<close> writes for the value: no value has two accepted encodings.
\<close>

theorem varint_canonical:
  fixes v :: "'w::len word"
  assumes "read_varint (bs @ rest) = (int (length bs), v, rest)"
    and "bs \<noteq> []" "unat (last bs) < 128"
  shows "bs = write_varint v"
  using read_loop_canonical[of 0 0 0 bs rest v] assms by (auto simp: read_varint_def)

theorem varint_canonical_witness:
  "[0xac, 0x02] = write_varint (300 :: 64 word)"
proof (rule varint_canonical [of _ "[7]"])
  show "read_varint ([0xac, 0x02] @ [7]) = (int (length [0xac, 0x02 :: byte]), 300 :: 64 word, [7])"
    by code_simp
qed simp_all

end
