(* ===== verification/Binary_Archive.thy ===== *)
theory Binary_Archive
  imports Varint
begin

text \<open>
  The binary archive of \<^verbatim>\<open>src/src/serialization/\<close>: \<^verbatim>\<open>binary_archive.h\<close>,
  \<^verbatim>\<open>serialization.h\<close>, \<^verbatim>\<open>string.h\<close>, \<^verbatim>\<open>container.h\<close> and \<^verbatim>\<open>crypto.h\<close>.

  Loading. An input archive is the list of bytes still to be read. A loader returns
  \<open>None\<close> when the C++ function returns \<open>false\<close> or leaves the stream not \<open>good()\<close>; the two
  are one outcome because every serialization macro tests
  \<^verbatim>\<open>!r || !ar.stream().good()\<close> right after the call and gives up. A varint is the
  exception that matters: its reader takes bytes from the stream buffer directly, never
  touches the stream state, and \<open>serialize_uvarint\<close> ignores its return code, so loading a
  varint always succeeds, at the end of the input too.

  Saving. A saver returns the success flag together with the bytes that reached the stream,
  because some callers keep the stream's contents without looking at the flag.

  \<open>codec\<close> is the contract between the two directions; the locale carries the facts about
  sequences of elements, and every serializable type of the program interprets it.
\<close>

subsection \<open>Loading\<close>

type_synonym 'a loader = "bytes \<Rightarrow> ('a \<times> bytes) option"

definition load_uvarint :: "'w::len word loader" where
  "load_uvarint bs = (case read_varint bs of (code, v, rest) \<Rightarrow> Some (v, rest))"

fun load_uint_loop :: "nat \<Rightarrow> nat \<Rightarrow> 'w::len word \<Rightarrow> 'w word loader" where
  "load_uint_loop 0 shift ret bs = Some (ret, bs)"
| "load_uint_loop (Suc k) shift ret [] = None"
| "load_uint_loop (Suc k) shift ret (c # bs) =
     load_uint_loop k (shift + 8) (ret + push_bit shift (ucast c)) bs"

definition load_uint :: "'w::len word loader" where
  "load_uint bs = load_uint_loop (LENGTH('w) div 8) 0 0 bs"

definition load_blob :: "nat \<Rightarrow> bytes loader" where
  "load_blob len bs = (if length bs < len then None else Some (take len bs, drop len bs))"

definition load_string :: "bytes loader" where
  "load_string bs = do {
     (sz :: u64, bs) \<leftarrow> load_uvarint bs;
     if length bs < unat sz then None else load_blob (unat sz) bs }"

fun load_elems :: "'a loader \<Rightarrow> nat \<Rightarrow> 'a list loader" where
  "load_elems ld 0 bs = Some ([], bs)"
| "load_elems ld (Suc k) bs = do {
     (e, bs) \<leftarrow> ld bs;
     (es, bs) \<leftarrow> load_elems ld k bs;
     Some (e # es, bs) }"

definition load_container :: "'a loader \<Rightarrow> 'a list loader" where
  "load_container ld bs = do {
     (cnt :: u64, bs) \<leftarrow> load_uvarint bs;
     if length bs < unat cnt then None else load_elems ld (unat cnt) bs }"

definition load_signatures :: "nat \<Rightarrow> bytes list loader" where
  "load_signatures cnt bs =
     (if length bs < cnt * 64 then None else load_elems (load_blob 64) cnt bs)"

text \<open>\<open>::serialization::serialize\<close> on an input archive also wants the whole input consumed.\<close>

definition load_all :: "'a loader \<Rightarrow> bytes \<Rightarrow> 'a option" where
  "load_all ld bs = (case ld bs of Some (x, []) \<Rightarrow> Some x | _ \<Rightarrow> None)"

subsection \<open>Saving\<close>

type_synonym saved = "bool \<times> bytes"

definition save_ok :: "bytes \<Rightarrow> saved" where
  "save_ok bs = (True, bs)"

definition save_check :: "bool \<Rightarrow> saved" where
  "save_check c = (c, [])"

fun save_seq :: "saved list \<Rightarrow> saved" where
  "save_seq [] = (True, [])"
| "save_seq ((ok, bs) # ss) =
     (if ok then (case save_seq ss of (ok', bs') \<Rightarrow> (ok', bs @ bs')) else (False, bs))"

definition save_uvarint :: "'w::len word \<Rightarrow> saved" where
  "save_uvarint v = save_ok (write_varint v)"

fun save_uint_loop :: "nat \<Rightarrow> 'w::len word \<Rightarrow> bytes" where
  "save_uint_loop 0 v = []"
| "save_uint_loop (Suc k) v = ucast (v AND 0xff) # save_uint_loop k (drop_bit 8 v)"

definition save_uint :: "'w::len word \<Rightarrow> saved" where
  "save_uint v = save_ok (save_uint_loop (LENGTH('w) div 8) v)"

definition save_blob :: "bytes \<Rightarrow> saved" where
  "save_blob b = save_ok b"

definition save_string :: "bytes \<Rightarrow> saved" where
  "save_string s = save_seq [save_uvarint (of_nat (length s) :: u64), save_blob s]"

definition save_elems :: "('a \<Rightarrow> saved) \<Rightarrow> 'a list \<Rightarrow> saved" where
  "save_elems sv xs = save_seq (map sv xs)"

definition save_container :: "('a \<Rightarrow> saved) \<Rightarrow> 'a list \<Rightarrow> saved" where
  "save_container sv xs =
     save_seq [save_uvarint (of_nat (length xs) :: u64), save_elems sv xs]"

text \<open>\<open>t_serializable_object_to_blob\<close> without the output flag: the contents of the stream.\<close>

definition object_to_blob :: "saved \<Rightarrow> bytes" where
  "object_to_blob s = snd s"

subsection \<open>Sequences of saved pieces\<close>

lemmas save_defs = save_ok_def save_check_def save_uvarint_def save_uint_def save_blob_def

lemma save_seq_ok:
  "list_all fst ss \<Longrightarrow> save_seq ss = (True, concat (map snd ss))"
  by (induction ss) auto

lemma fst_save_seq [simp]: "fst (save_seq ss) \<longleftrightarrow> list_all fst ss"
  by (induction ss) (auto split: prod.splits if_splits)

lemma snd_save_seq_Cons [simp]:
  "fst s \<Longrightarrow> snd (save_seq (s # ss)) = snd s @ snd (save_seq ss)"
  "\<not> fst s \<Longrightarrow> snd (save_seq (s # ss)) = snd s"
  by (cases s; auto split: prod.splits)+

lemma snd_save_seq_Nil [simp]: "snd (save_seq [s]) = snd s"
  by (cases s) auto

lemma snd_save_seq_ok: "list_all fst ss \<Longrightarrow> snd (save_seq ss) = concat (map snd ss)"
  by (simp add: save_seq_ok)

lemma fst_save_elems [simp]: "fst (save_elems sv xs) \<longleftrightarrow> (\<forall>x \<in> set xs. fst (sv x))"
  by (auto simp: save_elems_def list_all_iff)

lemma fst_save_prims [simp]:
  "fst (save_ok b)" "fst (save_check c) = c" "fst (save_uvarint v)" "fst (save_uint w)"
  "fst (save_blob b)" "fst (save_string b)"
  by (simp_all add: save_defs save_string_def)

lemma snd_save_prims [simp]:
  "snd (save_ok b) = b" "snd (save_check c) = []" "snd (save_uvarint v) = write_varint v"
  "snd (save_blob b) = b"
  by (simp_all add: save_defs)

lemma snd_save_string: "snd (save_string b) = write_varint (of_nat (length b) :: u64) @ b"
  by (simp add: save_string_def save_defs)

lemma snd_save_elems:
  "\<forall>x \<in> set xs. fst (sv x) \<Longrightarrow> snd (save_elems sv xs) = concat (map (\<lambda>x. snd (sv x)) xs)"
  by (simp add: save_elems_def snd_save_seq_ok list_all_iff comp_def)

lemma write_varint_nonempty [simp]: "write_varint v \<noteq> []"
  by (subst write_varint.simps) simp

subsection \<open>Primitive round trips\<close>

lemma load_uvarint_total [simp]: "load_uvarint bs \<noteq> None"
  by (simp add: load_uvarint_def split: prod.splits)

lemma load_save_uvarint [codec_simps]: "load_uvarint (write_varint v @ rest) = Some (v, rest)"
  by (simp add: load_uvarint_def read_write_loop read_varint_def)

lemma load_save_blob [codec_simps]: "length b = len \<Longrightarrow> load_blob len (b @ rest) = Some (b, rest)"
  by (simp add: load_blob_def)

lemma load_save_string [codec_simps]:
  "length s < 2 ^ 64 \<Longrightarrow> load_string (snd (save_string s) @ rest) = Some (s, rest)"
  by (simp add: load_string_def snd_save_string codec_simps)

lemma load_save_uint_loop:
  "8 * k \<le> LENGTH('w) - shift \<Longrightarrow> shift \<le> LENGTH('w) \<Longrightarrow>
   load_uint_loop k shift ret (save_uint_loop k (v :: 'w::len word) @ rest) =
     Some (ret + push_bit shift (take_bit (8 * k) v), rest)"
proof (induction k arbitrary: shift ret v)
  case 0
  then show ?case by simp
next
  case (Suc k)
  have b: "ucast (ucast (v AND 0xff) :: byte) = take_bit 8 v"
    unfolding and_255 by (auto simp: word_bit_eq_iff bit_simps)
  have glue: "push_bit shift (take_bit 8 v) + push_bit (shift + 8) (take_bit (8 * k) (drop_bit 8 v))
      = push_bit shift (take_bit (8 * Suc k) v)"
  proof -
    have "push_bit shift (take_bit 8 v) + push_bit (shift + 8) (take_bit (8 * k) (drop_bit 8 v))
        = push_bit shift (take_bit 8 v) OR push_bit (shift + 8) (take_bit (8 * k) (drop_bit 8 v))"
      by (rule disjunctive_add) (auto simp: bit_simps)
    also have "\<dots> = push_bit shift (take_bit (8 * Suc k) v)"
    proof (rule bit_word_eqI)
      fix n assume "n < LENGTH('w)"
      have "8 + (n - (shift + 8)) = n - shift" if "shift + 8 \<le> n" using that by simp
      then show "bit (push_bit shift (take_bit 8 v) OR
            push_bit (shift + 8) (take_bit (8 * k) (drop_bit 8 v))) n
          = bit (push_bit shift (take_bit (8 * Suc k) v)) n"
        by (cases "shift + 8 \<le> n") (auto simp: bit_simps)
    qed
    finally show ?thesis .
  qed
  have "load_uint_loop k (shift + 8) (ret + push_bit shift (take_bit 8 v))
          (save_uint_loop k (drop_bit 8 v) @ rest)
      = Some (ret + push_bit shift (take_bit 8 v)
          + push_bit (shift + 8) (take_bit (8 * k) (drop_bit 8 v)), rest)"
    using Suc.prems by (intro Suc.IH) auto
  with b glue show ?case by (simp add: add.assoc)
qed

lemma load_save_uint [codec_simps]:
  assumes "8 dvd LENGTH('w)"
  shows "load_uint (snd (save_uint (v :: 'w::len word)) @ rest) = Some (v, rest)"
  using load_save_uint_loop [of "LENGTH('w) div 8" 0 0 v rest] assms
  by (simp add: load_uint_def save_defs)

lemma length_save_uint_loop [simp]: "length (save_uint_loop k v) = k"
  by (induction k arbitrary: v) auto

lemma load_uint_u8: "load_uint bs = (case bs of [] \<Rightarrow> None | b # bs' \<Rightarrow> Some (b :: u8, bs'))"
  by (cases bs) (simp_all add: load_uint_def)

lemma snd_save_u8 [simp]: "snd (save_uint (t :: u8)) = [t]"
  by (simp add: save_defs and_255 take_bit_word_eq_self)

lemma save_uint_nonempty [simp]:
  "8 \<le> LENGTH('w) \<Longrightarrow> snd (save_uint (v :: 'w::len word)) \<noteq> []"
  by (simp add: save_defs flip: length_0_conv)

subsection \<open>The contract of a serializable type\<close>

text \<open>
  \<open>wf\<close> says which values the type can hold (sizes that fit, blobs of the right length).
  A well-formed value is always written, occupies at least one byte, and is read back
  exactly, whatever follows it in the stream.
\<close>

lemma fst_save_container [simp]: "fst (save_container sv xs) \<longleftrightarrow> (\<forall>x \<in> set xs. fst (sv x))"
  by (simp add: save_container_def)

locale codec =
  fixes wf :: "'a \<Rightarrow> bool"
    and sv :: "'a \<Rightarrow> saved"
    and ld :: "'a loader"
  assumes sv_ok: "wf x \<Longrightarrow> fst (sv x)"
    and sv_nonempty: "wf x \<Longrightarrow> snd (sv x) \<noteq> []"
    and ld_sv: "wf x \<Longrightarrow> ld (snd (sv x) @ rest) = Some (x, rest)"
begin

lemma elems_ok: "list_all wf xs \<Longrightarrow> fst (save_elems sv xs)"
  by (auto simp: list_all_iff sv_ok)

lemma elems_roundtrip:
  "list_all wf xs \<Longrightarrow> load_elems ld (length xs) (snd (save_elems sv xs) @ rest) = Some (xs, rest)"
proof (induction xs)
  case Nil
  then show ?case by (simp add: save_elems_def)
next
  case (Cons x xs)
  then show ?case
    using elems_ok [of xs] elems_ok [of "x # xs"]
    by (simp add: snd_save_elems ld_sv)
qed

lemma elems_length: "list_all wf xs \<Longrightarrow> length xs \<le> length (snd (save_elems sv xs))"
proof (induction xs)
  case (Cons x xs)
  have "1 \<le> length (snd (sv x))"
    using Cons.prems sv_nonempty [of x] by (cases "snd (sv x)") auto
  with Cons show ?case
    using elems_ok [of xs] elems_ok [of "x # xs"] by (simp add: snd_save_elems)
qed simp

lemma container_ok: "list_all wf xs \<Longrightarrow> fst (save_container sv xs)"
  by (simp add: save_container_def sv_ok list_all_iff)

lemma snd_container:
  "list_all wf xs \<Longrightarrow> snd (save_container sv xs)
     = write_varint (of_nat (length xs) :: u64) @ snd (save_elems sv xs)"
  by (simp add: save_container_def snd_save_seq_ok sv_ok list_all_iff)

lemma container_roundtrip:
  assumes "list_all wf xs" "length xs < 2 ^ 64"
  shows "load_container ld (snd (save_container sv xs) @ rest) = Some (xs, rest)"
  using assms elems_length [of xs] elems_roundtrip [of xs rest]
  by (simp add: load_container_def snd_container codec_simps)

lemma container_codec:
  "codec (\<lambda>xs. list_all wf xs \<and> length xs < 2 ^ 64) (save_container sv) (load_container ld)"
proof unfold_locales
  fix xs rest assume "list_all wf xs \<and> length xs < 2 ^ 64"
  then show "load_container ld (snd (save_container sv xs) @ rest) = Some (xs, rest)"
    by (simp only: container_roundtrip)
qed (simp_all add: list_all_iff sv_ok snd_container)

end

text \<open>The primitive types.\<close>

interpretation uvarint: codec "\<lambda>_. True" "save_uvarint :: 'w::len word \<Rightarrow> saved" load_uvarint
  by unfold_locales (simp_all add: codec_simps)

interpretation uint8: codec "\<lambda>_. True" "save_uint :: u8 \<Rightarrow> saved" load_uint
  by unfold_locales (simp_all add: load_uint_u8)

interpretation blob32: codec "\<lambda>b. length b = 32" save_blob "load_blob 32"
  by unfold_locales (auto simp: codec_simps)

interpretation blob64: codec "\<lambda>b. length b = 64" save_blob "load_blob 64"
  by unfold_locales (auto simp: codec_simps)

interpretation str: codec "\<lambda>s. length s < 2 ^ 64" save_string load_string
proof unfold_locales
  fix s :: bytes and rest
  assume "length s < 2 ^ 64"
  then show "load_string (snd (save_string s) @ rest) = Some (s, rest)"
    by (simp only: load_save_string)
qed (simp_all add: snd_save_string)

interpretation u8_vec: codec "\<lambda>xs. list_all (\<lambda>_. True) xs \<and> length xs < 2 ^ 64"
    "save_container (save_uint :: u8 \<Rightarrow> saved)" "load_container load_uint"
  by (rule uint8.container_codec)

interpretation u64_vec: codec "\<lambda>xs. list_all (\<lambda>_. True) xs \<and> length xs < 2 ^ 64"
    "save_container (save_uvarint :: u64 \<Rightarrow> saved)" "load_container load_uvarint"
  by (rule uvarint.container_codec)

interpretation blob32_vec: codec "\<lambda>xs. list_all (\<lambda>b. length b = 32) xs \<and> length xs < 2 ^ 64"
    "save_container save_blob" "load_container (load_blob 32)"
  by (rule blob32.container_codec)

lemma load_u8_vec [codec_simps]:
  "length (xs :: u8 list) < 2 ^ 64 \<Longrightarrow>
     load_container load_uint (snd (save_container save_uint xs) @ rest) = Some (xs, rest)"
  by (rule u8_vec.ld_sv) (simp add: list_all_iff)

lemma load_u64_vec [codec_simps]:
  "length (xs :: u64 list) < 2 ^ 64 \<Longrightarrow>
     load_container load_uvarint (snd (save_container save_uvarint xs) @ rest) = Some (xs, rest)"
  by (rule u64_vec.ld_sv) (simp add: list_all_iff)

lemma load_blob_vec [codec_simps]:
  "list_all (\<lambda>b. length b = 32) xs \<Longrightarrow> length xs < 2 ^ 64 \<Longrightarrow>
     load_container (load_blob 32) (snd (save_container save_blob xs) @ rest) = Some (xs, rest)"
  by (rule blob32_vec.ld_sv) simp

lemmas [codec_simps] = u8_vec.ld_sv u64_vec.ld_sv blob32_vec.ld_sv

subsection \<open>Loaders only move forward\<close>

text \<open>A loader that succeeds leaves a suffix of its input; the parsers' loops rest on this.\<close>

definition shrinks :: "'a loader \<Rightarrow> bool" where
  "shrinks ld \<longleftrightarrow> (\<forall>bs x bs'. ld bs = Some (x, bs') \<longrightarrow> length bs' \<le> length bs)"

lemma read_varint_loop_shrinks:
  "read_varint_loop shift n acc bs = (c, v, bs') \<Longrightarrow> length bs' \<le> length bs"
  by (induction shift n acc bs rule: read_varint_loop.induct)
    (auto simp: Let_def split: if_splits)

lemma load_uvarint_shrinks [consume_intros]: "shrinks (load_uvarint :: 'w::len word loader)"
  by (auto simp: shrinks_def load_uvarint_def read_varint_def dest: read_varint_loop_shrinks
      split: prod.splits)

lemma load_blob_shrinks [consume_intros]: "shrinks (load_blob n)"
  by (auto simp: shrinks_def load_blob_def split: if_splits)

lemma load_string_shrinks [consume_intros]: "shrinks load_string"
  using load_uvarint_shrinks load_blob_shrinks
  by (fastforce simp: shrinks_def load_string_def split: if_splits bind_splits)

lemma load_elems_shrinks:
  assumes "shrinks ld"
  shows "load_elems ld k bs = Some (xs, bs') \<Longrightarrow> length bs' \<le> length bs"
proof (induction k arbitrary: bs xs)
  case (Suc k)
  then obtain e bs1 es where "ld bs = Some (e, bs1)" "load_elems ld k bs1 = Some (es, bs')"
    by (auto split: bind_splits)
  with Suc.IH assms show ?case unfolding shrinks_def by (meson le_trans)
qed simp

lemma load_container_shrinks [consume_intros]: "shrinks ld \<Longrightarrow> shrinks (load_container ld)"
  unfolding shrinks_def [of "load_container ld"] load_container_def
  using load_uvarint_shrinks load_elems_shrinks
  by (fastforce simp: shrinks_def [of load_uvarint] split: if_splits bind_splits)

end
