(* ===== verification/Tx_Extra.thy ===== *)
theory Tx_Extra
  imports Binary_Archive
begin

text \<open>
  The extra field of a transaction: \<^verbatim>\<open>src/src/cryptonote_basic/tx_extra.h\<close> (the field
  types and their serialization) and the functions of
  \<^verbatim>\<open>src/src/cryptonote_basic/cryptonote_format_utils.cpp\<close> that parse, search, extend and
  rewrite it. The temporary consensus keeps the leader's identity and signature in the
  extra of the miner transaction, so both the leader and the validator run this code.

  Shown here: a list of well-formed fields survives being written and parsed; the field
  searches, additions and removals act on the parsed list as they should; and the exact
  effect of the one-byte length that \<open>add_extra_nonce_to_tx_extra\<close> writes, which the
  varint-based parser reads differently from 128 on.
\<close>

subsection \<open>Fields\<close>

datatype tx_extra_field =
    tx_extra_padding nat
  | tx_extra_pub_key bytes
  | tx_extra_nonce bytes
  | tx_extra_merge_mining_tag u64 bytes
  | tx_extra_additional_pub_keys "bytes list"
  | tx_extra_mysterious_minergate bytes
  | tx_extra_leader_info bytes bytes

datatype extra_type =
    T_padding | T_pub_key | T_nonce | T_merge_mining_tag | T_additional_pub_keys
  | T_mysterious_minergate | T_leader_info

fun field_type :: "tx_extra_field \<Rightarrow> extra_type" where
  "field_type (tx_extra_padding sz) = T_padding"
| "field_type (tx_extra_pub_key k) = T_pub_key"
| "field_type (tx_extra_nonce n) = T_nonce"
| "field_type (tx_extra_merge_mining_tag depth root) = T_merge_mining_tag"
| "field_type (tx_extra_additional_pub_keys ks) = T_additional_pub_keys"
| "field_type (tx_extra_mysterious_minergate d) = T_mysterious_minergate"
| "field_type (tx_extra_leader_info i s) = T_leader_info"

definition TX_EXTRA_PADDING_MAX_COUNT :: nat where "TX_EXTRA_PADDING_MAX_COUNT = 5120"
definition TX_EXTRA_NONCE_MAX_COUNT :: nat where "TX_EXTRA_NONCE_MAX_COUNT = 5120"

lemmas extra_consts [simp] = TX_EXTRA_PADDING_MAX_COUNT_def TX_EXTRA_NONCE_MAX_COUNT_def

fun variant_tag :: "extra_type \<Rightarrow> byte" where
  "variant_tag T_padding = 0x00"
| "variant_tag T_pub_key = 0x01"
| "variant_tag T_nonce = 0x02"
| "variant_tag T_merge_mining_tag = 0x03"
| "variant_tag T_additional_pub_keys = 0x04"
| "variant_tag T_mysterious_minergate = 0xDE"
| "variant_tag T_leader_info = 0x05"

subsection \<open>Serialization of one field\<close>

fun save_padding :: "nat \<Rightarrow> saved" where
  "save_padding sz =
     (if TX_EXTRA_PADDING_MAX_COUNT < sz then save_check False
      else save_ok (replicate (sz - 1) 0))"

fun load_padding :: "nat \<Rightarrow> nat loader" where
  "load_padding sz [] =
     (if sz \<le> TX_EXTRA_PADDING_MAX_COUNT then Some (sz, []) else None)"
| "load_padding sz (zero # bs) =
     (if sz \<le> TX_EXTRA_PADDING_MAX_COUNT
      then if zero \<noteq> 0 then None else load_padding (sz + 1) bs
      else None)"

definition save_merge_mining_tag :: "u64 \<Rightarrow> bytes \<Rightarrow> saved" where
  "save_merge_mining_tag depth root =
     save_string (snd (save_seq [save_uvarint depth, save_blob root]))"

definition load_merge_mining_tag :: "(u64 \<times> bytes) loader" where
  "load_merge_mining_tag bs = do {
     (field, bs) \<leftarrow> load_string bs;
     tag \<leftarrow> load_all (\<lambda>fs. do {
       (depth, fs) \<leftarrow> load_uvarint fs;
       (root, fs) \<leftarrow> load_blob 32 fs;
       Some ((depth, root), fs) }) field;
     Some (tag, bs) }"

fun save_field_body :: "tx_extra_field \<Rightarrow> saved" where
  "save_field_body (tx_extra_padding sz) = save_padding sz"
| "save_field_body (tx_extra_pub_key k) = save_blob k"
| "save_field_body (tx_extra_nonce n) =
     save_seq [save_string n, save_check (\<not> TX_EXTRA_NONCE_MAX_COUNT < length n)]"
| "save_field_body (tx_extra_merge_mining_tag depth root) = save_merge_mining_tag depth root"
| "save_field_body (tx_extra_additional_pub_keys ks) = save_container save_blob ks"
| "save_field_body (tx_extra_mysterious_minergate d) = save_string d"
| "save_field_body (tx_extra_leader_info leader_id sig) =
     save_seq [save_string leader_id, save_blob sig]"

definition save_field :: "tx_extra_field \<Rightarrow> saved" where
  "save_field f = save_seq [save_uint (variant_tag (field_type f)), save_field_body f]"

definition load_field :: "tx_extra_field loader" where
  "load_field bs = do {
     (t :: u8, bs) \<leftarrow> load_uint bs;
     if t = variant_tag T_padding then do {
       (sz, bs) \<leftarrow> load_padding 1 bs; Some (tx_extra_padding sz, bs) }
     else if t = variant_tag T_pub_key then do {
       (k, bs) \<leftarrow> load_blob 32 bs; Some (tx_extra_pub_key k, bs) }
     else if t = variant_tag T_nonce then do {
       (n, bs) \<leftarrow> load_string bs;
       if TX_EXTRA_NONCE_MAX_COUNT < length n then None else Some (tx_extra_nonce n, bs) }
     else if t = variant_tag T_merge_mining_tag then do {
       ((depth, root), bs) \<leftarrow> load_merge_mining_tag bs;
       Some (tx_extra_merge_mining_tag depth root, bs) }
     else if t = variant_tag T_additional_pub_keys then do {
       (ks, bs) \<leftarrow> load_container (load_blob 32) bs; Some (tx_extra_additional_pub_keys ks, bs) }
     else if t = variant_tag T_mysterious_minergate then do {
       (d, bs) \<leftarrow> load_string bs; Some (tx_extra_mysterious_minergate d, bs) }
     else if t = variant_tag T_leader_info then do {
       (leader_id, bs) \<leftarrow> load_string bs;
       (sig, bs) \<leftarrow> load_blob 64 bs;
       Some (tx_extra_leader_info leader_id sig, bs) }
     else None }"

text \<open>Every field takes at least its tag off the input, so the parsing loop below ends.\<close>

lemma load_padding_shrinks: "load_padding sz bs = Some (n, bs') \<Longrightarrow> bs' = []"
  by (induction sz bs rule: load_padding.induct) (auto split: if_splits)

lemma load_merge_mining_tag_shrinks [consume_intros]: "shrinks load_merge_mining_tag"
  using load_string_shrinks
  by (fastforce simp: shrinks_def load_merge_mining_tag_def split: bind_splits)

lemma load_field_consumes: "load_field bs = Some (f, bs') \<Longrightarrow> length bs' < length bs"
proof -
  assume a: "load_field bs = Some (f, bs')"
  then obtain t bs1 where bs: "bs = t # bs1"
    by (cases bs) (auto simp: load_field_def load_uint_u8)
  have sh: "\<And>ld x. shrinks ld \<Longrightarrow> ld bs1 = Some (x, bs') \<Longrightarrow> length bs' \<le> length bs1"
    by (auto simp: shrinks_def)
  have li: "load_string bs1 = Some (i, bs2) \<Longrightarrow> load_blob 64 bs2 = Some (s, bs') \<Longrightarrow>
      length bs' \<le> length bs1" for i s bs2
    using load_string_shrinks load_blob_shrinks [of 64] unfolding shrinks_def by (meson le_trans)
  from a show ?thesis
    unfolding load_field_def load_uint_u8 bs
    using sh [OF load_blob_shrinks] sh [OF load_string_shrinks] sh [OF load_merge_mining_tag_shrinks]
      sh [OF load_container_shrinks [OF load_blob_shrinks]] li
    by (auto dest!: load_padding_shrinks split: if_splits bind_splits simp: less_Suc_eq_le)
qed

subsection \<open>Parsing the extra field\<close>

text \<open>
  \<open>parse_tx_extra\<close> returns its flag and the fields it pushed, which are there for the
  caller even when parsing stops with \<open>false\<close>.
\<close>

function parse_fields :: "bytes \<Rightarrow> bool \<times> tx_extra_field list" where
  "parse_fields bs =
     (case load_field bs of
        None \<Rightarrow> (False, [])
      | Some (f, bs') \<Rightarrow>
          if bs' = [] then (True, [f])
          else (case parse_fields bs' of (r, fs) \<Rightarrow> (r, f # fs)))"
  by pat_completeness auto
termination
  by (relation "measure length") (auto dest: load_field_consumes)

declare parse_fields.simps [simp del]

definition parse_tx_extra :: "bytes \<Rightarrow> bool \<times> tx_extra_field list" where
  "parse_tx_extra tx_extra = (if tx_extra = [] then (True, []) else parse_fields tx_extra)"

fun find_tx_extra_field_by_type :: "extra_type \<Rightarrow> nat \<Rightarrow> tx_extra_field list \<Rightarrow> tx_extra_field option" where
  "find_tx_extra_field_by_type ty index [] = None"
| "find_tx_extra_field_by_type ty index (f # fs) =
     (if ty = field_type f
      then if index = 0 then Some f else find_tx_extra_field_by_type ty (index - 1) fs
      else find_tx_extra_field_by_type ty index fs)"

subsection \<open>Reading and extending the extra field\<close>

definition null_pkey :: bytes where
  "null_pkey = replicate 32 0"

definition get_tx_pub_key_from_extra :: "bytes \<Rightarrow> nat \<Rightarrow> bytes" where
  "get_tx_pub_key_from_extra tx_extra pk_index =
     (case parse_tx_extra tx_extra of (r, tx_extra_fields) \<Rightarrow>
        (case find_tx_extra_field_by_type T_pub_key pk_index tx_extra_fields of
           Some (tx_extra_pub_key k) \<Rightarrow> k
         | _ \<Rightarrow> null_pkey))"

definition add_tx_pub_key_to_extra :: "bytes \<Rightarrow> bytes \<Rightarrow> bytes" where
  "add_tx_pub_key_to_extra tx_extra tx_pub_key =
     tx_extra @ variant_tag T_pub_key # tx_pub_key"

definition get_additional_tx_pub_keys_from_extra :: "bytes \<Rightarrow> bytes list" where
  "get_additional_tx_pub_keys_from_extra tx_extra =
     (case parse_tx_extra tx_extra of (r, tx_extra_fields) \<Rightarrow>
        (case find_tx_extra_field_by_type T_additional_pub_keys 0 tx_extra_fields of
           Some (tx_extra_additional_pub_keys ks) \<Rightarrow> ks
         | _ \<Rightarrow> []))"

definition add_additional_tx_pub_keys_to_extra :: "bytes \<Rightarrow> bytes list \<Rightarrow> bool \<times> bytes" where
  "add_additional_tx_pub_keys_to_extra tx_extra additional_pub_keys =
     (case save_field (tx_extra_additional_pub_keys additional_pub_keys) of (r, tx_extra_str) \<Rightarrow>
        if r then (True, tx_extra @ tx_extra_str) else (False, tx_extra))"

definition add_extra_nonce_to_tx_extra :: "bytes \<Rightarrow> bytes \<Rightarrow> bool \<times> bytes" where
  "add_extra_nonce_to_tx_extra tx_extra extra_nonce =
     (if length extra_nonce \<le> TX_EXTRA_NONCE_MAX_COUNT
      then (True, tx_extra @ variant_tag T_nonce # of_nat (length extra_nonce) # extra_nonce)
      else (False, tx_extra))"

text \<open>
  The rewriting loop reads from one archive and writes to another; what it writes is the
  sequence of kept fields, and the flag of the output stream is not looked at.
\<close>

definition remove_field_from_tx_extra :: "bytes \<Rightarrow> extra_type \<Rightarrow> bool \<times> bytes" where
  "remove_field_from_tx_extra tx_extra ty =
     (if tx_extra = [] then (True, tx_extra)
      else case parse_fields tx_extra of (r, fs) \<Rightarrow>
        if r then (True, concat (map (\<lambda>f. snd (save_field f)) (filter (\<lambda>f. field_type f \<noteq> ty) fs)))
        else (False, tx_extra))"

definition add_leader_info_to_tx_extra :: "bytes \<Rightarrow> bytes \<Rightarrow> bytes \<Rightarrow> bool \<times> bytes" where
  "add_leader_info_to_tx_extra tx_extra leader_id sig =
     (case save_field (tx_extra_leader_info leader_id sig) of (r, blob) \<Rightarrow>
        if r then (True, tx_extra @ blob) else (False, tx_extra))"

definition get_leader_info_from_tx_extra :: "bytes \<Rightarrow> (bytes \<times> bytes) option" where
  "get_leader_info_from_tx_extra tx_extra =
     (case parse_tx_extra tx_extra of (r, tx_extra_fields) \<Rightarrow>
        if r then
          (case find_tx_extra_field_by_type T_leader_info 0 tx_extra_fields of
             Some (tx_extra_leader_info leader_id sig) \<Rightarrow> Some (leader_id, sig)
           | _ \<Rightarrow> None)
        else None)"

fun rebuild_tx_extra :: "tx_extra_field list \<Rightarrow> bool \<times> bytes" where
  "rebuild_tx_extra [] = (True, [])"
| "rebuild_tx_extra (f # fs) =
     (case save_field f of (r, blob) \<Rightarrow>
        if r then (case rebuild_tx_extra fs of (r', rest) \<Rightarrow> (r', blob @ rest)) else (False, []))"

definition remove_leader_info_from_tx_extra :: "bytes \<Rightarrow> bool \<times> bytes" where
  "remove_leader_info_from_tx_extra tx_extra =
     (case parse_tx_extra tx_extra of (r, tx_extra_fields) \<Rightarrow>
        if r then rebuild_tx_extra (filter (\<lambda>f. field_type f \<noteq> T_leader_info) tx_extra_fields)
        else (False, tx_extra))"

definition set_payment_id_to_tx_extra_nonce :: "bytes \<Rightarrow> bytes" where
  "set_payment_id_to_tx_extra_nonce payment_id = 0x00 # payment_id"

definition set_encrypted_payment_id_to_tx_extra_nonce :: "bytes \<Rightarrow> bytes" where
  "set_encrypted_payment_id_to_tx_extra_nonce payment_id = 0x01 # payment_id"

definition get_payment_id_from_tx_extra_nonce :: "bytes \<Rightarrow> bytes option" where
  "get_payment_id_from_tx_extra_nonce extra_nonce =
     (if 32 + 1 \<noteq> length extra_nonce then None
      else if hd extra_nonce \<noteq> 0x00 then None
      else Some (tl extra_nonce))"

definition get_encrypted_payment_id_from_tx_extra_nonce :: "bytes \<Rightarrow> bytes option" where
  "get_encrypted_payment_id_from_tx_extra_nonce extra_nonce =
     (if 8 + 1 \<noteq> length extra_nonce then None
      else if hd extra_nonce \<noteq> 0x01 then None
      else Some (tl extra_nonce))"

subsection \<open>Well-formed fields survive the archive\<close>

fun wf_field :: "tx_extra_field \<Rightarrow> bool" where
  "wf_field (tx_extra_padding sz) \<longleftrightarrow> 1 \<le> sz \<and> sz \<le> TX_EXTRA_PADDING_MAX_COUNT"
| "wf_field (tx_extra_pub_key k) \<longleftrightarrow> length k = 32"
| "wf_field (tx_extra_nonce n) \<longleftrightarrow> length n \<le> TX_EXTRA_NONCE_MAX_COUNT"
| "wf_field (tx_extra_merge_mining_tag depth root) \<longleftrightarrow> length root = 32"
| "wf_field (tx_extra_additional_pub_keys ks) \<longleftrightarrow>
     list_all (\<lambda>k. length k = 32) ks \<and> length ks < 2 ^ 64"
| "wf_field (tx_extra_mysterious_minergate d) \<longleftrightarrow> length d < 2 ^ 64"
| "wf_field (tx_extra_leader_info leader_id sig) \<longleftrightarrow> length leader_id < 2 ^ 64 \<and> length sig = 64"

text \<open>Padding runs to the end of the extra, so it can only be the last field.\<close>

fun wf_fields :: "tx_extra_field list \<Rightarrow> bool" where
  "wf_fields [] \<longleftrightarrow> True"
| "wf_fields (f # fs) \<longleftrightarrow> wf_field f \<and> (field_type f = T_padding \<longrightarrow> fs = []) \<and> wf_fields fs"

lemma snd_save_field:
  "snd (save_field f) = variant_tag (field_type f) # snd (save_field_body f)"
  by (simp add: save_field_def)

lemma save_field_nonempty [simp]: "snd (save_field f) \<noteq> []"
  by (simp add: snd_save_field)

lemma save_field_ok: "wf_field f \<Longrightarrow> fst (save_field f)"
  by (cases f) (auto simp: save_field_def save_merge_mining_tag_def blob32.container_ok)

lemma load_padding_zeros:
  "sz + n \<le> 5120 \<Longrightarrow> load_padding sz (replicate n 0) = Some (sz + n, [])"
  by (induction n arbitrary: sz) auto

lemma load_merge_mining_tag_save:
  assumes "length root = 32"
  shows "load_merge_mining_tag (snd (save_merge_mining_tag depth root) @ rest) = Some ((depth, root), rest)"
proof -
  let ?f = "write_varint depth @ root"
  have "load_string (snd (save_string ?f) @ rest) = Some (?f, rest)"
    using assms length_write_varint_u64 [of depth] by (intro load_save_string) simp
  then show ?thesis
    using assms load_save_uvarint [of depth root] load_save_blob [of root 32 "[]"]
    by (simp add: load_merge_mining_tag_def save_merge_mining_tag_def load_all_def)
qed

lemma load_save_field:
  "wf_field f \<Longrightarrow> field_type f \<noteq> T_padding \<or> rest = [] \<Longrightarrow>
   load_field (snd (save_field f) @ rest) = Some (f, rest)"
  by (cases f) (auto simp: snd_save_field load_field_def load_uint_u8 codec_simps load_padding_zeros
      load_merge_mining_tag_save)

interpretation extra_field: codec "\<lambda>f. wf_field f \<and> field_type f \<noteq> T_padding" save_field load_field
  by unfold_locales (simp_all add: save_field_ok load_save_field)

definition save_fields :: "tx_extra_field list \<Rightarrow> bytes" where
  "save_fields fs = concat (map (\<lambda>f. snd (save_field f)) fs)"

lemma save_fields_simps [simp]:
  "save_fields [] = []"
  "save_fields (f # fs) = snd (save_field f) @ save_fields fs"
  "save_fields (fs @ gs) = save_fields fs @ save_fields gs"
  by (simp_all add: save_fields_def)

lemma save_fields_eq_Nil [simp]: "save_fields fs = [] \<longleftrightarrow> fs = []"
  by (cases fs) auto

lemma parse_fields_Cons:
  assumes "load_field bs = Some (f, bs')" "bs' \<noteq> []"
  shows "parse_fields bs = (fst (parse_fields bs'), f # snd (parse_fields bs'))"
  using assms by (subst parse_fields.simps) (simp split: prod.splits)

lemma parse_save_fields:
  "wf_fields fs \<Longrightarrow> fs \<noteq> [] \<Longrightarrow> parse_fields (save_fields fs) = (True, fs)"
proof (induction fs)
  case (Cons f fs)
  then have ld: "load_field (save_fields (f # fs)) = Some (f, save_fields fs)"
    by (auto simp: load_save_field)
  show ?case
  proof (cases "fs = []")
    case True
    with ld show ?thesis by (subst parse_fields.simps) simp
  next
    case False
    with ld Cons show ?thesis by (subst parse_fields_Cons) auto
  qed
qed simp

lemma parse_tx_extra_save:
  "wf_fields fs \<Longrightarrow> parse_tx_extra (save_fields fs) = (True, fs)"
  by (cases "fs = []") (simp_all add: parse_tx_extra_def parse_save_fields)

text \<open>What the parser accepts is well formed.\<close>

lemma load_string_length: "load_string bs = Some (s, bs') \<Longrightarrow> length s < 2 ^ 64"
proof -
  assume "load_string bs = Some (s, bs')"
  then obtain n :: u64 and bs1 where "load_blob (unat n) bs1 = Some (s, bs')"
    by (auto simp: load_string_def split: bind_splits if_splits)
  then have "length s = unat n" by (auto simp: load_blob_def split: if_splits)
  then show ?thesis using unsigned_less [of n] by simp
qed

lemma load_elems_props:
  assumes "\<And>bs x bs'. ld bs = Some (x, bs') \<Longrightarrow> P x"
  shows "load_elems ld k bs = Some (xs, bs') \<Longrightarrow> length xs = k \<and> list_all P xs"
proof (induction k arbitrary: bs xs)
  case (Suc k)
  then show ?case using assms by (fastforce split: bind_splits)
qed simp

lemma load_blob_length: "load_blob n bs = Some (b, bs') \<Longrightarrow> length b = n"
  by (auto simp: load_blob_def split: if_splits)

lemma load_container_props:
  assumes "\<And>bs x bs'. ld bs = Some (x, bs') \<Longrightarrow> P x" "load_container ld bs = Some (xs, bs')"
  shows "length xs < 2 ^ 64 \<and> list_all P xs"
proof -
  obtain n :: u64 and bs1 where "load_elems ld (unat n) bs1 = Some (xs, bs')"
    using assms(2) by (auto simp: load_container_def split: bind_splits if_splits)
  then have "length xs = unat n \<and> list_all P xs"
    by (intro load_elems_props [of ld P]) (auto intro: assms(1))
  then show ?thesis using unsigned_less [of n] by simp
qed

lemma load_padding_wf: "load_padding sz bs = Some (n, bs') \<Longrightarrow> sz \<le> n \<and> n \<le> 5120 \<and> bs' = []"
  by (induction sz bs rule: load_padding.induct) (auto split: if_splits)

lemma load_field_wf:
  assumes "load_field bs = Some (f, bs')"
  shows "wf_field f \<and> (field_type f = T_padding \<longrightarrow> bs' = [])"
proof -
  obtain t bs1 where bs: "bs = t # bs1"
    using assms by (cases bs) (auto simp: load_field_def load_uint_u8)
  show ?thesis
    using assms unfolding load_field_def load_uint_u8 bs
    by (auto dest!: load_padding_wf load_container_props [where P = "\<lambda>k. length k = 32", rotated]
        simp: load_merge_mining_tag_def load_all_def load_blob_length
        split: if_splits bind_splits option.splits list.splits;
        simp add: load_blob_length load_string_length [simplified])
qed

lemma parse_fields_wf: "parse_fields bs = (r, fs) \<Longrightarrow> wf_fields fs"
proof (induction bs arbitrary: r fs rule: parse_fields.induct)
  case (1 bs)
  show ?case
  proof (cases "load_field bs")
    case None
    with 1(2) show ?thesis by (simp add: parse_fields.simps [of bs])
  next
    case (Some p)
    then obtain f bs' where p: "load_field bs = Some (f, bs')" by (cases p) auto
    from load_field_wf [OF p] 1(1) [OF p refl] 1(2) p show ?thesis
      by (auto simp: parse_fields.simps [of bs] split: if_splits prod.splits)
  qed
qed

lemma parse_tx_extra_wf: "parse_tx_extra bs = (r, fs) \<Longrightarrow> wf_fields fs"
  by (auto simp: parse_tx_extra_def split: if_splits dest: parse_fields_wf)

subsection \<open>Rewriting acts on the parsed fields\<close>

lemma wf_fields_iff_all: "wf_fields fs \<Longrightarrow> f \<in> set fs \<Longrightarrow> wf_field f"
  by (induction fs) auto

lemma wf_fields_filter: "wf_fields fs \<Longrightarrow> wf_fields (filter P fs)"
  by (induction fs) auto

lemma wf_fields_append:
  "wf_fields (fs @ gs) \<longleftrightarrow>
     wf_fields fs \<and> wf_fields gs \<and> (gs \<noteq> [] \<longrightarrow> (\<forall>f \<in> set fs. field_type f \<noteq> T_padding))"
  by (induction fs) auto

lemma rebuild_wf: "wf_fields fs \<Longrightarrow> rebuild_tx_extra fs = (True, save_fields fs)"
proof (induction fs)
  case (Cons f fs)
  then show ?case using save_field_ok [of f] by (cases "save_field f") auto
qed simp

lemma save_seq_fields: "wf_fields fs \<Longrightarrow> snd (save_seq (map save_field fs)) = save_fields fs"
  by (simp add: snd_save_seq_ok list_all_iff save_field_ok wf_fields_iff_all save_fields_def comp_def)

lemma remove_field_wf:
  assumes "parse_tx_extra extra = (True, fs)"
  shows "remove_field_from_tx_extra extra ty = (True, save_fields (filter (\<lambda>f. field_type f \<noteq> ty) fs))"
  using assms parse_tx_extra_wf [OF assms]
  by (cases "extra = []")
    (auto simp: remove_field_from_tx_extra_def parse_tx_extra_def save_fields_def)

lemma remove_leader_info_wf:
  assumes "parse_tx_extra extra = (True, fs)"
  shows "remove_leader_info_from_tx_extra extra
      = (True, save_fields (filter (\<lambda>f. field_type f \<noteq> T_leader_info) fs))"
  using assms parse_tx_extra_wf [OF assms]
  by (simp add: remove_leader_info_from_tx_extra_def rebuild_wf wf_fields_filter)

lemma find_filter:
  "find_tx_extra_field_by_type ty i fs =
     (let gs = filter (\<lambda>f. field_type f = ty) fs in if i < length gs then Some (gs ! i) else None)"
  by (induction ty i fs rule: find_tx_extra_field_by_type.induct)
    (auto simp: Let_def nth_Cons split: nat.splits)

lemma find_type: "find_tx_extra_field_by_type ty i fs = Some f \<Longrightarrow> field_type f = ty \<and> f \<in> set fs"
  by (induction ty i fs rule: find_tx_extra_field_by_type.induct) (auto split: if_splits)

lemma get_leader_info_eq:
  assumes "parse_tx_extra extra = (True, fs)"
  shows "get_leader_info_from_tx_extra extra = (case filter (\<lambda>f. field_type f = T_leader_info) fs of
      tx_extra_leader_info i s # _ \<Rightarrow> Some (i, s) | _ \<Rightarrow> None)"
  using assms
  by (simp add: get_leader_info_from_tx_extra_def find_filter Let_def split: list.splits)

lemma save_leader_info_ok:
  "save_field (tx_extra_leader_info i s) = (True, snd (save_field (tx_extra_leader_info i s)))"
  by (rule prod_eqI) (simp_all add: save_field_def)

lemma add_leader_info_eq:
  "add_leader_info_to_tx_extra extra i s = (True, extra @ snd (save_field (tx_extra_leader_info i s)))"
  unfolding add_leader_info_to_tx_extra_def by (subst save_leader_info_ok) simp

subsection \<open>The one-byte length of the nonce\<close>

lemma read_varint_noncanonical:
  assumes "m < 128"
  shows "read_varint (of_nat (128 + m) # 0 # bs) = (EVARINT_REPRESENT, (of_nat m :: u64), bs)"
proof -
  define b where "b = (of_nat (128 + m) :: byte)"
  have u: "unat b = 128 + m" using assms by (simp add: b_def unat_of_nat del: of_nat_add)
  have "unat (b AND 0x7f) = take_bit 7 (128 + m)"
    unfolding and_127 using u by (simp only: unsigned_take_bit_eq)
  also have "\<dots> = m" using assms by (simp add: take_bit_eq_mod)
  finally have "ucast (b AND 0x7f) = (of_nat m :: u64)"
    using assms by (simp add: word_unat_eq_iff unsigned_ucast_eq
        take_bit_nat_eq_self_iff unat_of_nat)
  moreover have "b AND 0x80 \<noteq> 0" using u by (simp add: byte_and_80)
  ultimately show ?thesis
    unfolding b_def [symmetric] using u by (simp add: read_varint_def Let_def)
qed

lemma parse_long_zero_nonce:
  assumes "length pk = 32" "m < 128" "k \<le> 4993"
  shows "parse_tx_extra (variant_tag T_pub_key # pk @ variant_tag T_nonce # of_nat (128 + m)
      # replicate (128 + m + k) 0)
    = (True, [tx_extra_pub_key pk, tx_extra_nonce (replicate m 0), tx_extra_padding (127 + k)])"
proof -
  let ?n = "variant_tag T_nonce # of_nat (128 + m) # replicate (128 + m + k) 0"
  let ?p = "replicate (127 + k) (0 :: byte)"
  have z: "replicate (128 + m + k) (0 :: byte) = 0 # replicate m 0 @ ?p"
  proof -
    have "128 + m + k = Suc (m + (127 + k))" by simp
    then show ?thesis by (metis replicate_Suc replicate_add)
  qed
  have l1: "load_field (variant_tag T_pub_key # pk @ ?n) = Some (tx_extra_pub_key pk, ?n)"
    using assms by (simp add: load_field_def load_uint_u8 codec_simps)
  have str: "load_string (of_nat (128 + m) # 0 # replicate m 0 @ ?p) = Some (replicate m 0, ?p)"
    using assms load_save_blob [of "replicate m 0" m ?p]
    by (simp add: load_string_def load_uvarint_def read_varint_noncanonical del: of_nat_add)
  have l2: "load_field ?n = Some (tx_extra_nonce (replicate m 0), ?p)"
    unfolding z using assms str by (simp add: load_field_def load_uint_u8 del: of_nat_add)
  have l3: "load_field ?p = Some (tx_extra_padding (127 + k), [])"
  proof -
    have "127 + k = Suc (126 + k)" by simp
    then have p: "?p = 0 # replicate (126 + k) 0" by (metis replicate_Suc)
    show ?thesis
      unfolding p using assms load_padding_zeros [of 1 "126 + k"]
      by (simp add: load_field_def load_uint_u8)
  qed
  have "parse_fields ?p = (True, [tx_extra_padding (127 + k)])"
    by (subst parse_fields.simps) (simp add: l3)
  then show ?thesis
    using l1 l2 by (simp add: parse_tx_extra_def parse_fields_Cons del: of_nat_add)
qed

subsection \<open>Properties\<close>

text \<open>
  C21: The extra field survives the wire. Writing a list of well-formed fields (padding only
  as the last one) and parsing the bytes gives the list back; and every list of fields that
  \<open>parse_tx_extra\<close> returns, on any input, is well formed.
\<close>

theorem tx_extra_roundtrip:
  "(wf_fields fs \<longrightarrow> parse_tx_extra (save_fields fs) = (True, fs)) \<and> wf_fields (snd (parse_tx_extra bs))"
  using parse_tx_extra_save parse_tx_extra_wf by (metis prod.collapse)

theorem tx_extra_roundtrip_witness:
  "parse_tx_extra (save_fields [tx_extra_pub_key (replicate 32 7), tx_extra_leader_info [1, 2] (replicate 64 9),
     tx_extra_padding 3]) =
     (True, [tx_extra_pub_key (replicate 32 7), tx_extra_leader_info [1, 2] (replicate 64 9), tx_extra_padding 3])"
  using tx_extra_roundtrip [of "[tx_extra_pub_key (replicate 32 7), tx_extra_leader_info [1, 2] (replicate 64 9),
     tx_extra_padding 3]" "[]"] by simp

text \<open>
  C20: Leader metadata in the extra field. After \<open>add_leader_info_to_tx_extra\<close> on an extra of
  well-formed fields that has no leader info and no padding, the reader finds exactly the
  added identity and signature, and \<open>remove_leader_info_from_tx_extra\<close> restores the extra that
  was there before, byte for byte.
\<close>

theorem leader_info_add_get_remove:
  assumes "wf_fields fs" "\<forall>f \<in> set fs. field_type f \<noteq> T_padding \<and> field_type f \<noteq> T_leader_info"
    and "length leader_id < 2 ^ 64" "length sig = 64"
  shows "case add_leader_info_to_tx_extra (save_fields fs) leader_id sig of (ok, extra) \<Rightarrow>
    ok \<and> get_leader_info_from_tx_extra extra = Some (leader_id, sig)
    \<and> remove_leader_info_from_tx_extra extra = (True, save_fields fs)"
proof -
  let ?l = "tx_extra_leader_info leader_id sig"
  have "wf_fields (fs @ [?l])" using assms by (simp add: wf_fields_append)
  from parse_tx_extra_save [OF this]
  have p: "parse_tx_extra (save_fields fs @ snd (save_field ?l)) = (True, fs @ [?l])" by simp
  have "filter (\<lambda>f. field_type f = T_leader_info) fs = []" "filter (\<lambda>f. field_type f \<noteq> T_leader_info) fs = fs"
    using assms(2) by (simp_all add: filter_empty_conv)
  then show ?thesis
    by (simp add: add_leader_info_eq get_leader_info_eq [OF p] remove_leader_info_wf [OF p])
qed

theorem leader_info_add_get_remove_witness:
  "case add_leader_info_to_tx_extra (save_fields [tx_extra_pub_key (replicate 32 7)]) [88, 67] (replicate 64 9)
    of (ok, extra) \<Rightarrow> ok \<and> get_leader_info_from_tx_extra extra = Some ([88, 67], replicate 64 9)
    \<and> remove_leader_info_from_tx_extra extra = (True, save_fields [tx_extra_pub_key (replicate 32 7)])"
  by (rule leader_info_add_get_remove) simp_all

text \<open>
  C40: A long nonce is misread. \<open>add_extra_nonce_to_tx_extra\<close> writes the length as one byte while
  the parser reads a varint. For a nonce of \<open>128 + m\<close> zero bytes after a public key, followed
  by \<open>k\<close> more zero bytes, the parser accepts the extra, but reports a nonce of \<open>m\<close> bytes and
  takes the remaining bytes for padding.
\<close>

theorem long_nonce_misread:
  assumes "length pk = 32" "m < 128" "k \<le> 4993"
  shows "parse_tx_extra (snd (add_extra_nonce_to_tx_extra (add_tx_pub_key_to_extra [] pk)
      (replicate (128 + m) 0)) @ replicate k 0)
    = (True, [tx_extra_pub_key pk, tx_extra_nonce (replicate m 0), tx_extra_padding (127 + k)])"
  using parse_long_zero_nonce [OF assms] assms
  by (simp add: add_extra_nonce_to_tx_extra_def add_tx_pub_key_to_extra_def replicate_add)

theorem long_nonce_misread_witness:
  "parse_tx_extra (snd (add_extra_nonce_to_tx_extra (add_tx_pub_key_to_extra [] (replicate 32 5))
      (replicate (128 + 42) 0)) @ replicate 3 0)
    = (True, [tx_extra_pub_key (replicate 32 5), tx_extra_nonce (replicate 42 0), tx_extra_padding (127 + 3)])"
  by (rule long_nonce_misread) simp_all

end
