(* ===== verification/Rct_Types.thy ===== *)
theory Rct_Types
  imports Binary_Archive
begin

text \<open>
  The ring-signature data of a transaction, from \<^verbatim>\<open>src/src/ringct/rctTypes.h\<close> and
  \<^verbatim>\<open>rctTypes.cpp\<close>: the records, their archive format with the vectors that carry no
  length prefix, and the counting functions on bulletproofs.

  A loader builds a fresh object: the members that are not serialized (\<open>message\<close>,
  \<open>mixRing\<close>, \<open>senderPk\<close>, \<open>dest\<close>, \<open>II\<close>, \<open>V\<close>) hold the zero value, as in an object that
  was value-initialised before it is read into. The well-formedness predicates ask the same,
  and the codec facts then give the object back exactly.
\<close>

subsection \<open>Records\<close>

definition zero_key :: bytes where
  "zero_key = replicate 32 0"

record ctkey =
  dest :: bytes
  mask :: bytes

record ecdhTuple =
  ecdh_mask :: bytes
  ecdh_amount :: bytes
  senderPk :: bytes

record boroSig =
  boro_s0 :: "bytes list"
  boro_s1 :: "bytes list"
  boro_ee :: bytes

record mgSig =
  ss :: "bytes list list"
  cc :: bytes
  II :: "bytes list"

record rangeSig =
  asig :: boroSig
  Ci :: "bytes list"

record Bulletproof =
  bp_V :: "bytes list"
  bp_A :: bytes
  bp_S :: bytes
  bp_T1 :: bytes
  bp_T2 :: bytes
  bp_taux :: bytes
  bp_mu :: bytes
  bp_L :: "bytes list"
  bp_R :: "bytes list"
  bp_a :: bytes
  bp_b :: bytes
  bp_t :: bytes

record rctSigPrunable =
  rangeSigs :: "rangeSig list"
  bulletproofs :: "Bulletproof list"
  MGs :: "mgSig list"
  p_pseudoOuts :: "bytes list"

record rctSigBase =
  rct_type :: u8
  rct_message :: bytes
  mixRing :: "ctkey list list"
  pseudoOuts :: "bytes list"
  ecdhInfo :: "ecdhTuple list"
  outPk :: "ctkey list"
  txnFee :: u64

record rctSig = rctSigBase +
  prunable :: rctSigPrunable

definition RCTTypeNull :: u8 where "RCTTypeNull = 0"
definition RCTTypeFull :: u8 where "RCTTypeFull = 1"
definition RCTTypeSimple :: u8 where "RCTTypeSimple = 2"
definition RCTTypeBulletproof :: u8 where "RCTTypeBulletproof = 3"

lemmas rct_types [simp] =
  RCTTypeNull_def RCTTypeFull_def RCTTypeSimple_def RCTTypeBulletproof_def

definition get_pseudo_outs :: "rctSig \<Rightarrow> bytes list" where
  "get_pseudo_outs rv =
     (if rct_type rv = RCTTypeBulletproof then p_pseudoOuts (prunable rv) else pseudoOuts rv)"

definition is_rct_simple :: "u8 \<Rightarrow> bool" where
  "is_rct_simple ty \<longleftrightarrow> ty = RCTTypeSimple \<or> ty = RCTTypeBulletproof"

definition is_rct_bulletproof :: "u8 \<Rightarrow> bool" where
  "is_rct_bulletproof ty \<longleftrightarrow> ty = RCTTypeBulletproof"

definition is_rct_borromean :: "u8 \<Rightarrow> bool" where
  "is_rct_borromean ty \<longleftrightarrow> ty = RCTTypeSimple \<or> ty = RCTTypeFull"

subsection \<open>Counting the amounts a bulletproof covers\<close>

text \<open>Both functions return 0 on a malformed proof; the checks are in the source's order.\<close>

definition n_bulletproof_amounts1 :: "Bulletproof \<Rightarrow> nat" where
  "n_bulletproof_amounts1 bp =
     (if \<not> 6 \<le> length (bp_L bp) then 0
      else if length (bp_L bp) \<noteq> length (bp_R bp) then 0
      else if \<not> length (bp_L bp) \<le> 6 + 4 then 0
      else if \<not> length (bp_V bp) \<le> 2 ^ (length (bp_L bp) - 6) then 0
      else if \<not> 2 ^ (length (bp_L bp) - 6) < length (bp_V bp) * 2 then 0
      else if \<not> 0 < length (bp_V bp) then 0
      else length (bp_V bp))"

definition n_bulletproof_max_amounts1 :: "Bulletproof \<Rightarrow> nat" where
  "n_bulletproof_max_amounts1 bp =
     (if \<not> 6 \<le> length (bp_L bp) then 0
      else if length (bp_L bp) \<noteq> length (bp_R bp) then 0
      else if \<not> length (bp_L bp) \<le> 6 + 4 then 0
      else 2 ^ (length (bp_L bp) - 6))"

text \<open>
  The loops over all proofs add up the counts; \<open>n\<close> and the count are \<open>size_t\<close>, and the
  subtraction \<open>max(uint32_t) - n\<close> is done at that width.
\<close>

fun n_bulletproof_amounts_loop :: "(Bulletproof \<Rightarrow> nat) \<Rightarrow> u64 \<Rightarrow> Bulletproof list \<Rightarrow> u64" where
  "n_bulletproof_amounts_loop f n [] = n"
| "n_bulletproof_amounts_loop f n (bp # bps) =
     (let n2 = of_nat (f bp) in
      if \<not> n2 < 0xFFFFFFFF - n then 0
      else if n2 = 0 then 0
      else n_bulletproof_amounts_loop f (n + n2) bps)"

definition n_bulletproof_amounts :: "Bulletproof list \<Rightarrow> u64" where
  "n_bulletproof_amounts bps = n_bulletproof_amounts_loop n_bulletproof_amounts1 0 bps"

definition n_bulletproof_max_amounts :: "Bulletproof list \<Rightarrow> u64" where
  "n_bulletproof_max_amounts bps = n_bulletproof_amounts_loop n_bulletproof_max_amounts1 0 bps"

subsection \<open>Serialization\<close>

definition save_ecdhTuple :: "ecdhTuple \<Rightarrow> saved" where
  "save_ecdhTuple e = save_seq [save_blob (ecdh_mask e), save_blob (ecdh_amount e)]"

definition load_ecdhTuple :: "ecdhTuple loader" where
  "load_ecdhTuple bs = do {
     (m, bs) \<leftarrow> load_blob 32 bs;
     (a, bs) \<leftarrow> load_blob 32 bs;
     Some (\<lparr>ecdh_mask = m, ecdh_amount = a, senderPk = zero_key\<rparr>, bs) }"

definition save_rangeSig :: "rangeSig \<Rightarrow> saved" where
  "save_rangeSig r = save_seq [
     save_blob (concat (boro_s0 (asig r)) @ concat (boro_s1 (asig r)) @ boro_ee (asig r)),
     save_blob (concat (Ci r))]"

definition load_rangeSig :: "rangeSig loader" where
  "load_rangeSig bs = do {
     (s0, bs) \<leftarrow> load_elems (load_blob 32) 64 bs;
     (s1, bs) \<leftarrow> load_elems (load_blob 32) 64 bs;
     (ee, bs) \<leftarrow> load_blob 32 bs;
     (ci, bs) \<leftarrow> load_elems (load_blob 32) 64 bs;
     Some (\<lparr>asig = \<lparr>boro_s0 = s0, boro_s1 = s1, boro_ee = ee\<rparr>, Ci = ci\<rparr>, bs) }"

definition save_Bulletproof :: "Bulletproof \<Rightarrow> saved" where
  "save_Bulletproof bp = save_seq [
     save_blob (bp_A bp), save_blob (bp_S bp), save_blob (bp_T1 bp), save_blob (bp_T2 bp),
     save_blob (bp_taux bp), save_blob (bp_mu bp),
     save_container save_blob (bp_L bp), save_container save_blob (bp_R bp),
     save_blob (bp_a bp), save_blob (bp_b bp), save_blob (bp_t bp),
     save_check (\<not> (bp_L bp = [] \<or> length (bp_L bp) \<noteq> length (bp_R bp)))]"

definition load_Bulletproof :: "Bulletproof loader" where
  "load_Bulletproof bs = do {
     (bpA, bs) \<leftarrow> load_blob 32 bs;
     (bpS, bs) \<leftarrow> load_blob 32 bs;
     (T1, bs) \<leftarrow> load_blob 32 bs;
     (T2, bs) \<leftarrow> load_blob 32 bs;
     (taux, bs) \<leftarrow> load_blob 32 bs;
     (mu, bs) \<leftarrow> load_blob 32 bs;
     (L, bs) \<leftarrow> load_container (load_blob 32) bs;
     (R, bs) \<leftarrow> load_container (load_blob 32) bs;
     (a, bs) \<leftarrow> load_blob 32 bs;
     (b, bs) \<leftarrow> load_blob 32 bs;
     (t, bs) \<leftarrow> load_blob 32 bs;
     if L = [] \<or> length L \<noteq> length R then None
     else Some (\<lparr>bp_V = [], bp_A = bpA, bp_S = bpS, bp_T1 = T1, bp_T2 = T2, bp_taux = taux,
       bp_mu = mu, bp_L = L, bp_R = R, bp_a = a, bp_b = b, bp_t = t\<rparr>, bs) }"

definition save_rctsig_base :: "'a rctSigBase_scheme \<Rightarrow> nat \<Rightarrow> nat \<Rightarrow> saved" where
  "save_rctsig_base rv inputs outputs = save_seq (
     save_uint (rct_type rv) #
     (if rct_type rv = RCTTypeNull then []
      else if rct_type rv \<noteq> RCTTypeFull \<and> rct_type rv \<noteq> RCTTypeSimple
              \<and> rct_type rv \<noteq> RCTTypeBulletproof then [save_check False]
      else
        save_uvarint (txnFee rv) #
        (if rct_type rv = RCTTypeSimple
         then [save_check (length (pseudoOuts rv) = inputs), save_elems save_blob (pseudoOuts rv)]
         else []) @
        [save_check (length (ecdhInfo rv) = outputs), save_elems save_ecdhTuple (ecdhInfo rv),
         save_check (length (outPk rv) = outputs),
         save_elems (\<lambda>k. save_blob (mask k)) (outPk rv)]))"

definition empty_rctSigBase :: "u8 \<Rightarrow> rctSigBase" where
  "empty_rctSigBase ty = \<lparr>rct_type = ty, rct_message = zero_key, mixRing = [], pseudoOuts = [],
     ecdhInfo = [], outPk = [], txnFee = 0\<rparr>"

definition load_rctsig_base :: "nat \<Rightarrow> nat \<Rightarrow> rctSigBase loader" where
  "load_rctsig_base inputs outputs bs = do {
     (ty :: u8, bs) \<leftarrow> load_uint bs;
     if ty = RCTTypeNull then Some (empty_rctSigBase ty, bs)
     else if ty \<noteq> RCTTypeFull \<and> ty \<noteq> RCTTypeSimple \<and> ty \<noteq> RCTTypeBulletproof then None
     else do {
       (fee, bs) \<leftarrow> load_uvarint bs;
       (po, bs) \<leftarrow> (if ty = RCTTypeSimple then load_elems (load_blob 32) inputs bs else Some ([], bs));
       (ecdh, bs) \<leftarrow> load_elems load_ecdhTuple outputs bs;
       (masks, bs) \<leftarrow> load_elems (load_blob 32) outputs bs;
       Some ((empty_rctSigBase ty)\<lparr>txnFee := fee, pseudoOuts := po, ecdhInfo := ecdh,
         outPk := map (\<lambda>m. \<lparr>dest = zero_key, mask = m\<rparr>) masks\<rparr>, bs) } }"

text \<open>\<open>mixin\<close> is a \<open>size_t\<close>, so \<open>mixin + 1\<close> wraps to 0 for an input without key offsets.\<close>

definition mg_rows :: "u64 \<Rightarrow> nat" where
  "mg_rows mixin = unat (mixin + 1)"

definition mg_elements :: "u8 \<Rightarrow> nat \<Rightarrow> nat" where
  "mg_elements ty inputs = (if ty = RCTTypeSimple \<or> ty = RCTTypeBulletproof then inputs else 1)"

definition mg_ss2_elements :: "u8 \<Rightarrow> nat \<Rightarrow> nat" where
  "mg_ss2_elements ty inputs = (if ty = RCTTypeSimple \<or> ty = RCTTypeBulletproof then 1 else inputs) + 1"

definition save_mgSig :: "nat \<Rightarrow> nat \<Rightarrow> mgSig \<Rightarrow> saved" where
  "save_mgSig rows cols mg = save_seq [
     save_check (length (ss mg) = rows),
     save_elems (\<lambda>row. save_seq [save_check (length row = cols), save_elems save_blob row]) (ss mg),
     save_blob (cc mg)]"

definition load_mgSig :: "nat \<Rightarrow> nat \<Rightarrow> mgSig loader" where
  "load_mgSig rows cols bs = do {
     (s, bs) \<leftarrow> load_elems (load_elems (load_blob 32) cols) rows bs;
     (c, bs) \<leftarrow> load_blob 32 bs;
     Some (\<lparr>ss = s, cc = c, II = []\<rparr>, bs) }"

definition save_rctsig_prunable :: "rctSigPrunable \<Rightarrow> u8 \<Rightarrow> nat \<Rightarrow> nat \<Rightarrow> u64 \<Rightarrow> saved" where
  "save_rctsig_prunable pr ty inputs outputs mixin =
     (if ty = RCTTypeNull then save_check True
      else if ty \<noteq> RCTTypeFull \<and> ty \<noteq> RCTTypeSimple \<and> ty \<noteq> RCTTypeBulletproof then save_check False
      else save_seq (
        (if ty = RCTTypeBulletproof then
           let nbp = of_nat (length (bulletproofs pr)) :: u32 in
           [save_uint nbp,
            save_check (\<not> outputs < unat nbp),
            save_elems save_Bulletproof (take (unat nbp) (bulletproofs pr)),
            save_check (\<not> unat (n_bulletproof_max_amounts (bulletproofs pr)) < outputs)]
         else
           [save_check (length (rangeSigs pr) = outputs), save_elems save_rangeSig (rangeSigs pr)]) @
        [save_check (length (MGs pr) = mg_elements ty inputs),
         save_elems (save_mgSig (mg_rows mixin) (mg_ss2_elements ty inputs)) (MGs pr)] @
        (if ty = RCTTypeBulletproof
         then [save_check (length (p_pseudoOuts pr) = inputs), save_elems save_blob (p_pseudoOuts pr)]
         else [])))"

definition empty_rctSigPrunable :: rctSigPrunable where
  "empty_rctSigPrunable = \<lparr>rangeSigs = [], bulletproofs = [], MGs = [], p_pseudoOuts = []\<rparr>"

definition load_rctsig_prunable :: "u8 \<Rightarrow> nat \<Rightarrow> nat \<Rightarrow> u64 \<Rightarrow> rctSigPrunable loader" where
  "load_rctsig_prunable ty inputs outputs mixin bs =
     (if ty = RCTTypeNull then Some (empty_rctSigPrunable, bs)
      else if ty \<noteq> RCTTypeFull \<and> ty \<noteq> RCTTypeSimple \<and> ty \<noteq> RCTTypeBulletproof then None
      else do {
        ((rs, bps), bs) \<leftarrow>
          (if ty = RCTTypeBulletproof then do {
             (nbp :: u32, bs) \<leftarrow> load_uint bs;
             if outputs < unat nbp then None
             else do {
               (bps, bs) \<leftarrow> load_elems load_Bulletproof (unat nbp) bs;
               if unat (n_bulletproof_max_amounts bps) < outputs then None
               else Some (([], bps), bs) } }
           else do {
             (rs, bs) \<leftarrow> load_elems load_rangeSig outputs bs;
             Some ((rs, []), bs) });
        (mgs, bs) \<leftarrow> load_elems (load_mgSig (mg_rows mixin) (mg_ss2_elements ty inputs)) (mg_elements ty inputs) bs;
        (po, bs) \<leftarrow> (if ty = RCTTypeBulletproof then load_elems (load_blob 32) inputs bs else Some ([], bs));
        Some (\<lparr>rangeSigs = rs, bulletproofs = bps, MGs = mgs, p_pseudoOuts = po\<rparr>, bs) })"

subsection \<open>Codecs\<close>

abbreviation is_key :: "bytes \<Rightarrow> bool" where
  "is_key k \<equiv> length k = 32"

definition wf_ecdhTuple :: "ecdhTuple \<Rightarrow> bool" where
  "wf_ecdhTuple e \<longleftrightarrow> is_key (ecdh_mask e) \<and> is_key (ecdh_amount e) \<and> senderPk e = zero_key"

definition wf_rangeSig :: "rangeSig \<Rightarrow> bool" where
  "wf_rangeSig r \<longleftrightarrow>
     length (boro_s0 (asig r)) = 64 \<and> list_all is_key (boro_s0 (asig r)) \<and>
     length (boro_s1 (asig r)) = 64 \<and> list_all is_key (boro_s1 (asig r)) \<and>
     is_key (boro_ee (asig r)) \<and> length (Ci r) = 64 \<and> list_all is_key (Ci r)"

definition wf_Bulletproof :: "Bulletproof \<Rightarrow> bool" where
  "wf_Bulletproof bp \<longleftrightarrow> bp_V bp = [] \<and> is_key (bp_A bp) \<and> is_key (bp_S bp) \<and> is_key (bp_T1 bp)
     \<and> is_key (bp_T2 bp) \<and> is_key (bp_taux bp) \<and> is_key (bp_mu bp) \<and> is_key (bp_a bp)
     \<and> is_key (bp_b bp) \<and> is_key (bp_t bp) \<and> bp_L bp \<noteq> [] \<and> length (bp_L bp) = length (bp_R bp)
     \<and> length (bp_L bp) < 2 ^ 64 \<and> list_all is_key (bp_L bp) \<and> list_all is_key (bp_R bp)"

definition wf_mg_row :: "nat \<Rightarrow> bytes list \<Rightarrow> bool" where
  "wf_mg_row cols row \<longleftrightarrow> 0 < cols \<and> length row = cols \<and> list_all is_key row"

definition wf_mgSig :: "nat \<Rightarrow> nat \<Rightarrow> mgSig \<Rightarrow> bool" where
  "wf_mgSig rows cols mg \<longleftrightarrow>
     length (ss mg) = rows \<and> list_all (wf_mg_row cols) (ss mg) \<and> is_key (cc mg) \<and> II mg = []"

definition wf_rctsig_base :: "nat \<Rightarrow> nat \<Rightarrow> rctSigBase \<Rightarrow> bool" where
  "wf_rctsig_base inputs outputs rv \<longleftrightarrow>
     (if rct_type rv = RCTTypeNull then rv = empty_rctSigBase RCTTypeNull
      else rct_type rv \<in> {RCTTypeFull, RCTTypeSimple, RCTTypeBulletproof}
        \<and> rct_message rv = zero_key \<and> mixRing rv = []
        \<and> (if rct_type rv = RCTTypeSimple
           then length (pseudoOuts rv) = inputs \<and> list_all is_key (pseudoOuts rv)
           else pseudoOuts rv = [])
        \<and> length (ecdhInfo rv) = outputs \<and> list_all wf_ecdhTuple (ecdhInfo rv)
        \<and> length (outPk rv) = outputs
        \<and> list_all (\<lambda>k. dest k = zero_key \<and> is_key (mask k)) (outPk rv))"

definition wf_rctsig_prunable :: "u8 \<Rightarrow> nat \<Rightarrow> nat \<Rightarrow> u64 \<Rightarrow> rctSigPrunable \<Rightarrow> bool" where
  "wf_rctsig_prunable ty inputs outputs mixin pr \<longleftrightarrow>
     (if ty = RCTTypeNull then pr = empty_rctSigPrunable
      else ty \<in> {RCTTypeFull, RCTTypeSimple, RCTTypeBulletproof}
        \<and> (if ty = RCTTypeBulletproof
           then rangeSigs pr = [] \<and> length (bulletproofs pr) \<le> outputs
             \<and> length (bulletproofs pr) < 2 ^ 32
             \<and> list_all wf_Bulletproof (bulletproofs pr)
             \<and> outputs \<le> unat (n_bulletproof_max_amounts (bulletproofs pr))
             \<and> length (p_pseudoOuts pr) = inputs \<and> list_all is_key (p_pseudoOuts pr)
           else bulletproofs pr = [] \<and> length (rangeSigs pr) = outputs
             \<and> list_all wf_rangeSig (rangeSigs pr) \<and> p_pseudoOuts pr = [])
        \<and> length (MGs pr) = mg_elements ty inputs
        \<and> list_all (wf_mgSig (mg_rows mixin) (mg_ss2_elements ty inputs)) (MGs pr))"

lemma load_keys:
  "list_all is_key xs \<Longrightarrow> length xs = n \<Longrightarrow> load_elems (load_blob 32) n (concat xs @ rest) = Some (xs, rest)"
  using blob32.elems_roundtrip [of xs rest] by (auto simp: snd_save_elems)

lemma snd_save_keys [simp]: "snd (save_elems save_blob xs) = concat xs"
  by (simp add: snd_save_elems)

interpretation ecdh: codec wf_ecdhTuple save_ecdhTuple load_ecdhTuple
proof unfold_locales
  fix e rest assume "wf_ecdhTuple e"
  then show "snd (save_ecdhTuple e) \<noteq> []" "fst (save_ecdhTuple e)"
      "load_ecdhTuple (snd (save_ecdhTuple e) @ rest) = Some (e, rest)"
    by (auto simp: wf_ecdhTuple_def save_ecdhTuple_def load_ecdhTuple_def codec_simps)
qed

interpretation range_sig: codec wf_rangeSig save_rangeSig load_rangeSig
proof unfold_locales
  fix r rest assume "wf_rangeSig r"
  then show "snd (save_rangeSig r) \<noteq> []" "fst (save_rangeSig r)"
      "load_rangeSig (snd (save_rangeSig r) @ rest) = Some (r, rest)"
    by (auto simp: wf_rangeSig_def save_rangeSig_def load_rangeSig_def codec_simps load_keys)
qed

interpretation bulletproof: codec wf_Bulletproof save_Bulletproof load_Bulletproof
proof unfold_locales
  fix bp rest assume "wf_Bulletproof bp"
  then show "snd (save_Bulletproof bp) \<noteq> []" "fst (save_Bulletproof bp)"
      "load_Bulletproof (snd (save_Bulletproof bp) @ rest) = Some (bp, rest)"
    by (auto simp: wf_Bulletproof_def save_Bulletproof_def load_Bulletproof_def codec_simps
        blob32.container_ok)
qed

interpretation mg_row: codec "wf_mg_row cols"
    "\<lambda>row. save_seq [save_check (length row = cols), save_elems save_blob row]"
    "load_elems (load_blob 32) cols" for cols
proof unfold_locales
  fix row rest assume "wf_mg_row cols row"
  then show "snd (save_seq [save_check (length row = cols), save_elems save_blob row]) \<noteq> []"
      "fst (save_seq [save_check (length row = cols), save_elems save_blob row])"
      "load_elems (load_blob 32) cols
        (snd (save_seq [save_check (length row = cols), save_elems save_blob row]) @ rest) = Some (row, rest)"
    by (auto simp: wf_mg_row_def load_keys list_all_iff) (cases row; auto)
qed

interpretation mg_sig: codec "wf_mgSig rows cols" "save_mgSig rows cols" "load_mgSig rows cols"
    for rows cols
proof unfold_locales
  fix mg rest assume wf: "wf_mgSig rows cols mg"
  then have el: "fst (save_elems (\<lambda>row. save_seq [save_check (length row = cols), save_elems save_blob row]) (ss mg))"
    by (intro mg_row.elems_ok) (simp add: wf_mgSig_def)
  with wf show "snd (save_mgSig rows cols mg) \<noteq> []" "fst (save_mgSig rows cols mg)"
    by (auto simp: wf_mgSig_def save_mgSig_def)
  from wf el mg_row.elems_roundtrip [of cols "ss mg"]
  show "load_mgSig rows cols (snd (save_mgSig rows cols mg) @ rest) = Some (mg, rest)"
    by (auto simp: wf_mgSig_def save_mgSig_def load_mgSig_def codec_simps)
qed

text \<open>The parts of \<open>rctSig\<close> have no length of their own, so their codecs carry the counts.\<close>

lemma load_masks:
  assumes "list_all (\<lambda>k. dest k = zero_key \<and> is_key (mask k)) ks" "length ks = n"
  shows "load_elems (load_blob 32) n (snd (save_elems (\<lambda>k. save_blob (mask k)) ks) @ rest)
      = Some (map mask ks, rest)"
    and "map ((\<lambda>m. \<lparr>dest = zero_key, mask = m\<rparr>) \<circ> mask) ks = ks"
proof -
  have "list_all is_key (map mask ks)" using assms by (simp add: list_all_iff)
  from load_keys [OF this, of n rest] assms(2)
  show "load_elems (load_blob 32) n (snd (save_elems (\<lambda>k. save_blob (mask k)) ks) @ rest)
      = Some (map mask ks, rest)"
    by (simp add: snd_save_elems)
  show "map ((\<lambda>m. \<lparr>dest = zero_key, mask = m\<rparr>) \<circ> mask) ks = ks"
    using assms(1) by (induction ks) auto
qed

lemma load_ecdh_elems:
  "list_all wf_ecdhTuple es \<Longrightarrow> length es = n \<Longrightarrow>
   load_elems load_ecdhTuple n (snd (save_elems save_ecdhTuple es) @ rest) = Some (es, rest)"
  using ecdh.elems_roundtrip by blast

lemma rctsig_base_roundtrip:
  assumes "wf_rctsig_base inputs outputs rv"
  shows "fst (save_rctsig_base rv inputs outputs)"
    and "load_rctsig_base inputs outputs (snd (save_rctsig_base rv inputs outputs) @ rest) = Some (rv, rest)"
proof -
  have e: "\<forall>x \<in> set (ecdhInfo rv). fst (save_ecdhTuple x)"
    by (simp add: save_ecdhTuple_def)
  from assms show "fst (save_rctsig_base rv inputs outputs)"
    by (auto simp: wf_rctsig_base_def save_rctsig_base_def e empty_rctSigBase_def split: if_splits)
  from assms e show "load_rctsig_base inputs outputs (snd (save_rctsig_base rv inputs outputs) @ rest) = Some (rv, rest)"
    by (auto simp: wf_rctsig_base_def save_rctsig_base_def load_rctsig_base_def load_uint_u8
        codec_simps load_masks load_keys load_ecdh_elems empty_rctSigBase_def split: if_splits)
qed

lemma unat_of_nat_u32: "n < 2 ^ 32 \<Longrightarrow> unat (of_nat n :: u32) = n"
  by (simp add: unat_of_nat)

lemma rctsig_prunable_roundtrip:
  assumes "wf_rctsig_prunable ty inputs outputs mixin pr"
  shows "fst (save_rctsig_prunable pr ty inputs outputs mixin)"
    and "load_rctsig_prunable ty inputs outputs mixin
      (snd (save_rctsig_prunable pr ty inputs outputs mixin) @ rest) = Some (pr, rest)"
proof -
  let ?mgs = "save_elems (save_mgSig (mg_rows mixin) (mg_ss2_elements ty inputs)) (MGs pr)"
  consider (null) "ty = RCTTypeNull"
    | (bp) "ty = RCTTypeBulletproof" | (boro) "ty = RCTTypeFull \<or> ty = RCTTypeSimple"
    using assms by (auto simp: wf_rctsig_prunable_def split: if_splits)
  then have "fst (save_rctsig_prunable pr ty inputs outputs mixin) \<and>
    load_rctsig_prunable ty inputs outputs mixin
      (snd (save_rctsig_prunable pr ty inputs outputs mixin) @ rest) = Some (pr, rest)"
  proof cases
    case null
    with assms show ?thesis
      by (simp add: wf_rctsig_prunable_def save_rctsig_prunable_def load_rctsig_prunable_def)
  next
    case bp
    with assms have wf: "rangeSigs pr = []" "length (bulletproofs pr) \<le> outputs"
        "length (bulletproofs pr) < 2 ^ 32" "list_all wf_Bulletproof (bulletproofs pr)"
        "outputs \<le> unat (n_bulletproof_max_amounts (bulletproofs pr))"
        "length (p_pseudoOuts pr) = inputs" "list_all is_key (p_pseudoOuts pr)"
        "length (MGs pr) = mg_elements ty inputs"
        "list_all (wf_mgSig (mg_rows mixin) (mg_ss2_elements ty inputs)) (MGs pr)"
      by (auto simp: wf_rctsig_prunable_def)
    note ok = bulletproof.elems_ok [OF wf(4)] mg_sig.elems_ok [OF wf(9)] blob32.elems_ok [OF wf(7)]
    note ld = bulletproof.elems_roundtrip [OF wf(4)] mg_sig.elems_roundtrip [OF wf(9)]
      load_keys [OF wf(7,6)] load_save_uint [where 'w = 32]
    show ?thesis
      using bp wf ok ld
      by (simp add: save_rctsig_prunable_def load_rctsig_prunable_def Let_def unat_of_nat_u32
          del: fst_save_elems)
  next
    case boro
    with assms have wf: "bulletproofs pr = []" "length (rangeSigs pr) = outputs"
        "list_all wf_rangeSig (rangeSigs pr)" "p_pseudoOuts pr = []"
        "length (MGs pr) = mg_elements ty inputs"
        "list_all (wf_mgSig (mg_rows mixin) (mg_ss2_elements ty inputs)) (MGs pr)"
      by (auto simp: wf_rctsig_prunable_def)
    note ok = range_sig.elems_ok [OF wf(3)] mg_sig.elems_ok [OF wf(6)]
    note ld = range_sig.elems_roundtrip [OF wf(3)] mg_sig.elems_roundtrip [OF wf(6)]
    show ?thesis
      using boro wf ok ld
      by (auto simp add: save_rctsig_prunable_def load_rctsig_prunable_def simp del: fst_save_elems)
  qed
  then show "fst (save_rctsig_prunable pr ty inputs outputs mixin)"
    and "load_rctsig_prunable ty inputs outputs mixin
      (snd (save_rctsig_prunable pr ty inputs outputs mixin) @ rest) = Some (pr, rest)"
    by simp_all
qed

end
