(* ===== verification/Cryptonote_Basic.thy ===== *)
theory Cryptonote_Basic
  imports Rct_Types
begin

text \<open>
  Transactions and blocks, from \<^verbatim>\<open>src/src/cryptonote_basic/cryptonote_basic.h\<close>: the
  input and output variants, the transaction prefix, the transaction with its signatures,
  the block header and the block, and the archive format of each.

  The pairs \<open>hash_valid\<close>/\<open>hash\<close> and \<open>blob_size_valid\<close>/\<open>blob_size\<close> that cache derived
  values in the mutable objects are \<open>option\<close> fields: \<open>None\<close> is "not valid".

  Shown here: every well-formed transaction and block is written, and reading the bytes
  back gives the same object with empty caches.
\<close>

subsection \<open>Data\<close>

datatype txout_target_v =
    txout_to_script "bytes list" bytes
  | txout_to_scripthash bytes
  | txout_to_key bytes

datatype txin_v =
    txin_gen u64
  | txin_to_script bytes u64 bytes
  | txin_to_scripthash bytes u64 "bytes list" bytes bytes
  | txin_to_key u64 "u64 list" bytes

record tx_out =
  amount :: u64
  target :: txout_target_v

record transaction_prefix =
  version :: u64
  unlock_time :: u64
  vin :: "txin_v list"
  vout :: "tx_out list"
  extra :: bytes

record transaction = transaction_prefix +
  signatures :: "bytes list list"
  rct_signatures :: rctSig
  tx_hash_cache :: "bytes option"
  blob_size_cache :: "u64 option"

record block_header =
  major_version :: u8
  minor_version :: u8
  timestamp :: u64
  prev_id :: bytes
  nonce :: u32

record block = block_header +
  miner_tx :: transaction
  tx_hashes :: "bytes list"
  block_hash_cache :: "bytes option"

record account_public_address =
  m_spend_public_key :: bytes
  m_view_public_key :: bytes

definition CURRENT_TRANSACTION_VERSION :: u64 where
  "CURRENT_TRANSACTION_VERSION = 2"

definition null_rctSig :: rctSig where
  "null_rctSig = rctSigBase.extend (empty_rctSigBase RCTTypeNull) (rctSig.fields empty_rctSigPrunable)"

definition transaction_set_null :: "transaction \<Rightarrow> transaction" where
  "transaction_set_null tx = tx\<lparr>version := 1, unlock_time := 0, vin := [], vout := [], extra := [], signatures := [],
     rct_signatures := (rct_signatures tx)\<lparr>rct_type := RCTTypeNull\<rparr>, tx_hash_cache := None, blob_size_cache := None\<rparr>"

text \<open>A transaction as the constructor leaves it; the fee, which it leaves uninitialised, is taken as zero.\<close>

definition new_transaction :: transaction where
  "new_transaction = transaction_set_null \<lparr>version = 0, unlock_time = 0, vin = [], vout = [], extra = [],
     signatures = [], rct_signatures = null_rctSig, tx_hash_cache = None, blob_size_cache = None\<rparr>"

definition tx_invalidate_hashes :: "transaction \<Rightarrow> transaction" where
  "tx_invalidate_hashes tx = tx\<lparr>tx_hash_cache := None, blob_size_cache := None\<rparr>"

definition block_invalidate_hashes :: "block \<Rightarrow> block" where
  "block_invalidate_hashes b = b\<lparr>block_hash_cache := None\<rparr>"

fun get_signature_size :: "txin_v \<Rightarrow> nat" where
  "get_signature_size (txin_gen height) = 0"
| "get_signature_size (txin_to_script prev prevout sigset) = 0"
| "get_signature_size (txin_to_scripthash prev prevout keys script sigset) = 0"
| "get_signature_size (txin_to_key amt key_offsets k_image) = length key_offsets"

subsection \<open>Inputs and outputs\<close>

fun save_txin :: "txin_v \<Rightarrow> saved" where
  "save_txin (txin_gen height) = save_seq [save_uint (0xff :: u8), save_uvarint height]"
| "save_txin (txin_to_script prev prevout sigset) =
     save_seq [save_uint (0x0 :: u8), save_blob prev, save_uvarint prevout,
       save_container save_uint sigset]"
| "save_txin (txin_to_scripthash prev prevout keys script sigset) =
     save_seq [save_uint (0x1 :: u8), save_blob prev, save_uvarint prevout,
       save_container save_blob keys, save_container save_uint script,
       save_container save_uint sigset]"
| "save_txin (txin_to_key amt key_offsets k_image) =
     save_seq [save_uint (0x2 :: u8), save_uvarint amt,
       save_container save_uvarint key_offsets, save_blob k_image]"

definition load_txin :: "txin_v loader" where
  "load_txin bs = do {
     (t :: u8, bs) \<leftarrow> load_uint bs;
     if t = 0xff then do {
       (height, bs) \<leftarrow> load_uvarint bs; Some (txin_gen height, bs) }
     else if t = 0x0 then do {
       (prev, bs) \<leftarrow> load_blob 32 bs;
       (prevout, bs) \<leftarrow> load_uvarint bs;
       (sigset, bs) \<leftarrow> load_container load_uint bs;
       Some (txin_to_script prev prevout sigset, bs) }
     else if t = 0x1 then do {
       (prev, bs) \<leftarrow> load_blob 32 bs;
       (prevout, bs) \<leftarrow> load_uvarint bs;
       (keys, bs) \<leftarrow> load_container (load_blob 32) bs;
       (script, bs) \<leftarrow> load_container load_uint bs;
       (sigset, bs) \<leftarrow> load_container load_uint bs;
       Some (txin_to_scripthash prev prevout keys script sigset, bs) }
     else if t = 0x2 then do {
       (amt, bs) \<leftarrow> load_uvarint bs;
       (key_offsets, bs) \<leftarrow> load_container load_uvarint bs;
       (k_image, bs) \<leftarrow> load_blob 32 bs;
       Some (txin_to_key amt key_offsets k_image, bs) }
     else None }"

fun save_txout_target :: "txout_target_v \<Rightarrow> saved" where
  "save_txout_target (txout_to_script keys script) =
     save_seq [save_uint (0x0 :: u8), save_container save_blob keys, save_container save_uint script]"
| "save_txout_target (txout_to_scripthash h) = save_seq [save_uint (0x1 :: u8), save_blob h]"
| "save_txout_target (txout_to_key k) = save_seq [save_uint (0x2 :: u8), save_blob k]"

definition load_txout_target :: "txout_target_v loader" where
  "load_txout_target bs = do {
     (t :: u8, bs) \<leftarrow> load_uint bs;
     if t = 0x0 then do {
       (keys, bs) \<leftarrow> load_container (load_blob 32) bs;
       (script, bs) \<leftarrow> load_container load_uint bs;
       Some (txout_to_script keys script, bs) }
     else if t = 0x1 then do {
       (h, bs) \<leftarrow> load_blob 32 bs; Some (txout_to_scripthash h, bs) }
     else if t = 0x2 then do {
       (k, bs) \<leftarrow> load_blob 32 bs; Some (txout_to_key k, bs) }
     else None }"

definition save_tx_out :: "tx_out \<Rightarrow> saved" where
  "save_tx_out out = save_seq [save_uvarint (amount out), save_txout_target (target out)]"

definition load_tx_out :: "tx_out loader" where
  "load_tx_out bs = do {
     (amt, bs) \<leftarrow> load_uvarint bs;
     (tgt, bs) \<leftarrow> load_txout_target bs;
     Some (\<lparr>amount = amt, target = tgt\<rparr>, bs) }"

subsection \<open>Transactions\<close>

definition save_prefix :: "'a transaction_prefix_scheme \<Rightarrow> saved" where
  "save_prefix tx = save_seq [
     save_uvarint (version tx),
     save_check (\<not> (version tx = 0 \<or> CURRENT_TRANSACTION_VERSION < version tx)),
     save_uvarint (unlock_time tx),
     save_container save_txin (vin tx),
     save_container save_tx_out (vout tx),
     save_container save_uint (extra tx)]"

definition load_prefix :: "transaction_prefix loader" where
  "load_prefix bs = do {
     (ver, bs) \<leftarrow> load_uvarint bs;
     if ver = 0 \<or> CURRENT_TRANSACTION_VERSION < ver then None
     else do {
       (unlock, bs) \<leftarrow> load_uvarint bs;
       (ins, bs) \<leftarrow> load_container load_txin bs;
       (outs, bs) \<leftarrow> load_container load_tx_out bs;
       (ex, bs) \<leftarrow> load_container load_uint bs;
       Some (\<lparr>version = ver, unlock_time = unlock, vin = ins, vout = outs, extra = ex\<rparr>, bs) } }"

text \<open>The mixin that the prunable part of the ring signature is read with.\<close>

definition tx_mixin :: "txin_v list \<Rightarrow> u64" where
  "tx_mixin ins = (case ins of
     txin_to_key amt key_offsets k_image # _ \<Rightarrow> of_nat (length key_offsets) - 1
   | _ \<Rightarrow> 0)"

text \<open>
  Version 1: one vector of signatures per input, without length prefixes. When saving, an
  empty \<open>signatures\<close> vector is fine as long as no input wants a signature.
\<close>

definition save_v1_signatures :: "txin_v list \<Rightarrow> bytes list list \<Rightarrow> saved" where
  "save_v1_signatures ins sigs =
     (let signatures_not_expected = (sigs = []) in
      save_seq (
        save_check (\<not> (\<not> signatures_not_expected \<and> length ins \<noteq> length sigs)) #
        (if signatures_not_expected
         then map (\<lambda>i. save_check (get_signature_size i = 0)) ins
         else map (\<lambda>(i, sig). save_seq [save_check (get_signature_size i = length sig),
                                        save_elems save_blob sig]) (zip ins sigs))))"

fun load_v1_signatures :: "txin_v list \<Rightarrow> bytes list list loader" where
  "load_v1_signatures [] bs = Some ([], bs)"
| "load_v1_signatures (i # ins) bs = do {
     (sig, bs) \<leftarrow> load_signatures (get_signature_size i) bs;
     (sigs, bs) \<leftarrow> load_v1_signatures ins bs;
     Some (sig # sigs, bs) }"

definition save_transaction :: "transaction \<Rightarrow> saved" where
  "save_transaction tx = save_seq (
     save_prefix tx #
     (if version tx = 1 then [save_v1_signatures (vin tx) (signatures tx)]
      else if vin tx = [] then []
      else
        save_rctsig_base (rct_signatures tx) (length (vin tx)) (length (vout tx)) #
        (if rct_type (rct_signatures tx) = RCTTypeNull then []
         else [save_rctsig_prunable (prunable (rct_signatures tx)) (rct_type (rct_signatures tx))
                 (length (vin tx)) (length (vout tx)) (tx_mixin (vin tx))])))"

definition load_transaction :: "transaction loader" where
  "load_transaction bs = do {
     (pre, bs) \<leftarrow> load_prefix bs;
     ((sigs, rv), bs) \<leftarrow>
       (if version pre = 1 then do {
          (sigs, bs) \<leftarrow> load_v1_signatures (vin pre) bs;
          Some ((sigs, null_rctSig), bs) }
        else if vin pre = [] then Some (([], null_rctSig), bs)
        else do {
          (base, bs) \<leftarrow> load_rctsig_base (length (vin pre)) (length (vout pre)) bs;
          (pr, bs) \<leftarrow>
            (if rct_type base = RCTTypeNull then Some (empty_rctSigPrunable, bs)
             else load_rctsig_prunable (rct_type base) (length (vin pre)) (length (vout pre))
                    (tx_mixin (vin pre)) bs);
          Some (([], rctSigBase.extend base (rctSig.fields pr)), bs) });
     Some (transaction_prefix.extend pre (transaction.fields sigs rv None None), bs) }"

definition save_base :: "transaction \<Rightarrow> saved" where
  "save_base tx = save_seq (
     save_prefix tx #
     (if version tx = 1 \<or> vin tx = [] then []
      else [save_rctsig_base (rct_signatures tx) (length (vin tx)) (length (vout tx))]))"

text \<open>The same function reading into a new transaction.\<close>

definition load_base :: "transaction loader" where
  "load_base bs = do {
     (pre, bs) \<leftarrow> load_prefix bs;
     (rv, bs) \<leftarrow>
       (if version pre = 1 \<or> vin pre = [] then Some (null_rctSig, bs)
        else do {
          (base, bs) \<leftarrow> load_rctsig_base (length (vin pre)) (length (vout pre)) bs;
          Some (rctSigBase.extend base (rctSig.fields empty_rctSigPrunable), bs) });
     Some (transaction_prefix.extend pre (transaction.fields [] rv None None), bs) }"

subsection \<open>Blocks\<close>

definition save_block_header :: "'a block_header_scheme \<Rightarrow> saved" where
  "save_block_header h = save_seq [
     save_uvarint (major_version h),
     save_uvarint (minor_version h),
     save_uvarint (timestamp h),
     save_blob (prev_id h),
     save_uint (nonce h)]"

definition load_block_header :: "block_header loader" where
  "load_block_header bs = do {
     (major, bs) \<leftarrow> load_uvarint bs;
     (minor, bs) \<leftarrow> load_uvarint bs;
     (ts, bs) \<leftarrow> load_uvarint bs;
     (prev, bs) \<leftarrow> load_blob 32 bs;
     (n, bs) \<leftarrow> load_uint bs;
     Some (\<lparr>major_version = major, minor_version = minor, timestamp = ts, prev_id = prev,
       nonce = n\<rparr>, bs) }"

definition save_block :: "block \<Rightarrow> saved" where
  "save_block b = save_seq [
     save_block_header b,
     save_transaction (miner_tx b),
     save_container save_blob (tx_hashes b)]"

definition load_block :: "block loader" where
  "load_block bs = do {
     (h, bs) \<leftarrow> load_block_header bs;
     (tx, bs) \<leftarrow> load_transaction bs;
     (hs, bs) \<leftarrow> load_container (load_blob 32) bs;
     Some (block_header.extend h (block.fields tx hs None), bs) }"

subsection \<open>Well-formed objects\<close>

text \<open>
  What the fixed-size C++ types guarantee (32-byte hashes and keys, 64-byte signatures,
  \<open>size_t\<close> vector lengths), and what the code that builds the objects keeps.
\<close>

abbreviation wf_blob_vec :: "bytes list \<Rightarrow> bool" where
  "wf_blob_vec ks \<equiv> list_all is_key ks \<and> length ks < 2 ^ 64"

fun wf_txin :: "txin_v \<Rightarrow> bool" where
  "wf_txin (txin_gen h) = True"
| "wf_txin (txin_to_script prev prevout sigset) = (is_key prev \<and> length sigset < 2 ^ 64)"
| "wf_txin (txin_to_scripthash prev prevout keys script sigset) =
     (is_key prev \<and> wf_blob_vec keys \<and> length script < 2 ^ 64 \<and> length sigset < 2 ^ 64)"
| "wf_txin (txin_to_key amt key_offsets k_image) = (length key_offsets < 2 ^ 64 \<and> is_key k_image)"

fun wf_txout_target :: "txout_target_v \<Rightarrow> bool" where
  "wf_txout_target (txout_to_script keys script) = (wf_blob_vec keys \<and> length script < 2 ^ 64)"
| "wf_txout_target (txout_to_scripthash h) = is_key h"
| "wf_txout_target (txout_to_key k) = is_key k"

definition wf_tx_out :: "tx_out \<Rightarrow> bool" where
  "wf_tx_out out = wf_txout_target (target out)"

definition wf_prefix :: "'a transaction_prefix_scheme \<Rightarrow> bool" where
  "wf_prefix tx \<longleftrightarrow> 1 \<le> version tx \<and> version tx \<le> CURRENT_TRANSACTION_VERSION
     \<and> list_all wf_txin (vin tx) \<and> length (vin tx) < 2 ^ 64
     \<and> list_all wf_tx_out (vout tx) \<and> length (vout tx) < 2 ^ 64
     \<and> length (extra tx) < 2 ^ 64"

definition wf_v1_sigs :: "txin_v list \<Rightarrow> bytes list list \<Rightarrow> bool" where
  "wf_v1_sigs ins sigs \<longleftrightarrow>
     list_all2 (\<lambda>i sig. length sig = get_signature_size i \<and> list_all (\<lambda>s. length s = 64) sig) ins sigs"

definition wf_transaction :: "transaction \<Rightarrow> bool" where
  "wf_transaction tx \<longleftrightarrow> wf_prefix tx \<and>
     (if version tx = 1
      then wf_v1_sigs (vin tx) (signatures tx) \<and> rct_signatures tx = null_rctSig
      else signatures tx = [] \<and>
        (if vin tx = [] then rct_signatures tx = null_rctSig
         else wf_rctsig_base (length (vin tx)) (length (vout tx)) (rctSigBase.truncate (rct_signatures tx))
            \<and> wf_rctsig_prunable (rct_type (rct_signatures tx)) (length (vin tx)) (length (vout tx))
                (tx_mixin (vin tx)) (prunable (rct_signatures tx))))"

definition wf_block :: "block \<Rightarrow> bool" where
  "wf_block b \<longleftrightarrow> is_key (prev_id b) \<and> wf_transaction (miner_tx b) \<and> wf_blob_vec (tx_hashes b)"

text \<open>The block that comes back from its bytes: the same fields, no cached hashes.\<close>

definition reloaded :: "block \<Rightarrow> block" where
  "reloaded b = b\<lparr>block_hash_cache := None, miner_tx := tx_invalidate_hashes (miner_tx b)\<rparr>"

subsection \<open>Reading back what was written\<close>

interpretation txin: codec wf_txin save_txin load_txin
proof unfold_locales
  fix i rest assume wf: "wf_txin i"
  show "fst (save_txin i)" "snd (save_txin i) \<noteq> []"
    by (cases i; simp)+
  from wf show "load_txin (snd (save_txin i) @ rest) = Some (i, rest)"
    by (cases i) (simp_all add: load_txin_def codec_simps load_uint_u8)
qed

interpretation txout_target: codec wf_txout_target save_txout_target load_txout_target
proof unfold_locales
  fix t rest assume wf: "wf_txout_target t"
  show "fst (save_txout_target t)" "snd (save_txout_target t) \<noteq> []"
    by (cases t; simp)+
  from wf show "load_txout_target (snd (save_txout_target t) @ rest) = Some (t, rest)"
    by (cases t) (simp_all add: load_txout_target_def codec_simps load_uint_u8)
qed

interpretation txout: codec wf_tx_out save_tx_out load_tx_out
proof unfold_locales
  fix out rest assume wf: "wf_tx_out out"
  then show "fst (save_tx_out out)" "snd (save_tx_out out) \<noteq> []"
    by (simp_all add: save_tx_out_def wf_tx_out_def txout_target.sv_ok)
  from wf show "load_tx_out (snd (save_tx_out out) @ rest) = Some (out, rest)"
    by (simp add: save_tx_out_def load_tx_out_def wf_tx_out_def codec_simps
        txout_target.sv_ok txout_target.ld_sv)
qed

lemma save_prefix_ok: "wf_prefix tx \<Longrightarrow> fst (save_prefix tx)"
  using txin.elems_ok [of "vin tx"] txout.elems_ok [of "vout tx"]
  by (auto simp: save_prefix_def wf_prefix_def)

lemma load_save_prefix:
  assumes "wf_prefix tx"
  shows "load_prefix (snd (save_prefix tx) @ rest) = Some (transaction_prefix.truncate tx, rest)"
proof -
  have ok: "fst (save_container save_txin (vin tx))" "fst (save_container save_tx_out (vout tx))"
    using assms by (simp_all add: wf_prefix_def txin.container_ok txout.container_ok del: fst_save_container)
  from assms have wf: "\<not> (version tx = 0 \<or> CURRENT_TRANSACTION_VERSION < version tx)"
    by (auto simp: wf_prefix_def)
  have ins: "load_container load_txin (snd (save_container save_txin (vin tx)) @ r) = Some (vin tx, r)"
    and outs: "load_container load_tx_out (snd (save_container save_tx_out (vout tx)) @ r) = Some (vout tx, r)" for r
    using assms by (simp_all only: wf_prefix_def txin.container_roundtrip txout.container_roundtrip)
  from assms ok wf show ?thesis
    by (simp add: save_prefix_def load_prefix_def codec_simps ins outs wf_prefix_def
        transaction_prefix.truncate_def del: fst_save_container)
qed

lemma load_signatures_roundtrip:
  assumes wf: "list_all (\<lambda>s. length s = 64) sig" and len: "length sig = n"
  shows "load_signatures n (snd (save_elems save_blob sig) @ rest) = Some (sig, rest)"
proof -
  from wf have "length (concat sig) = length sig * 64"
    by (induction sig) auto
  with blob64.elems_roundtrip [OF wf] len show ?thesis
    by (auto simp: load_signatures_def)
qed

lemma v1_signatures_roundtrip:
  assumes "wf_v1_sigs ins sigs"
  shows "fst (save_v1_signatures ins sigs)"
    and "load_v1_signatures ins (snd (save_v1_signatures ins sigs) @ rest) = Some (sigs, rest)"
proof -
  let ?one = "\<lambda>(i, sig). save_seq [save_check (get_signature_size i = length sig), save_elems save_blob sig]"
  from assms have len: "length ins = length sigs"
    by (simp add: wf_v1_sigs_def list_all2_lengthD)
  have eq: "save_v1_signatures ins sigs = save_seq (save_check True # map ?one (zip ins sigs))"
    using len by (cases "sigs = []") (simp_all add: save_v1_signatures_def)
  have ok: "\<forall>p \<in> set (zip ins sigs). fst (?one p)"
    using assms by (auto simp: wf_v1_sigs_def list_all2_iff)
  from ok show "fst (save_v1_signatures ins sigs)"
    unfolding eq by (simp add: list_all_iff)
  have "load_v1_signatures ins (snd (save_seq (map ?one (zip ins sigs))) @ rest) = Some (sigs, rest)"
    using assms unfolding wf_v1_sigs_def
  proof (induction ins sigs rule: list_all2_induct)
    case (Cons i ins sig sigs)
    then show ?case
      by (auto simp: load_signatures_roundtrip simp del: snd_save_keys)
  qed simp
  then show "load_v1_signatures ins (snd (save_v1_signatures ins sigs) @ rest) = Some (sigs, rest)"
    unfolding eq by simp
qed

lemma save_rctsig_base_truncate:
  "save_rctsig_base rv n m = save_rctsig_base (rctSigBase.truncate rv) n m"
  by (simp add: save_rctsig_base_def rctSigBase.truncate_def)

lemma rctSig_split:
  "rctSigBase.extend (rctSigBase.truncate rv) (rctSig.fields (prunable rv)) = (rv :: rctSig)"
  by (cases rv) (simp add: rctSigBase.truncate_def rctSigBase.extend_def rctSig.fields_def)

lemma rct_type_truncate [simp]: "rct_type (rctSigBase.truncate rv) = rct_type rv"
  by (simp add: rctSigBase.truncate_def)

lemma transaction_split:
  "transaction_prefix.extend (transaction_prefix.truncate tx)
     (transaction.fields (signatures tx) (rct_signatures tx) None None) = tx_invalidate_hashes tx"
  by (cases tx) (simp add: transaction_prefix.truncate_def transaction_prefix.extend_def
      transaction.fields_def tx_invalidate_hashes_def)

lemma prefix_truncate [simp]:
  "version (transaction_prefix.truncate tx) = version tx"
  "vin (transaction_prefix.truncate tx) = vin tx"
  "vout (transaction_prefix.truncate tx) = vout tx"
  by (simp_all add: transaction_prefix.truncate_def)

text \<open>A transaction without the parts that can be pruned.\<close>

definition pruned_tx :: "transaction \<Rightarrow> transaction" where
  "pruned_tx tx = tx\<lparr>signatures := [], rct_signatures := (rct_signatures tx)\<lparr>prunable := empty_rctSigPrunable\<rparr>,
     tx_hash_cache := None, blob_size_cache := None\<rparr>"

lemma pruned_tx_split:
  "transaction_prefix.extend (transaction_prefix.truncate tx) (transaction.fields []
     (rctSigBase.extend (rctSigBase.truncate (rct_signatures tx)) (rctSig.fields empty_rctSigPrunable)) None None) = pruned_tx tx"
  by (cases tx; cases "rct_signatures tx") (simp add: transaction_prefix.truncate_def transaction_prefix.extend_def
      transaction.fields_def rctSigBase.truncate_def rctSigBase.extend_def rctSig.fields_def pruned_tx_def)

text \<open>The base can be read from the start of the bytes of the whole transaction.\<close>

lemma load_base_of_transaction:
  assumes "wf_transaction tx" "version tx \<noteq> 1" "vin tx \<noteq> []"
  shows "\<exists>rest. load_base (snd (save_transaction tx)) = Some (pruned_tx tx, rest)"
proof -
  have pre: "wf_prefix tx" and base: "wf_rctsig_base (length (vin tx)) (length (vout tx)) (rctSigBase.truncate (rct_signatures tx))"
    using assms by (simp_all add: wf_transaction_def)
  note prefix = save_prefix_ok [OF pre] load_save_prefix [OF pre]
  from prefix rctsig_base_roundtrip [OF base] assms(2,3) show ?thesis
    by (auto simp: save_transaction_def load_base_def pruned_tx_split [symmetric] save_rctsig_base_truncate [of "rct_signatures tx"])
qed

lemma transaction_roundtrip:
  assumes "wf_transaction tx"
  shows "fst (save_transaction tx)"
    and "load_transaction (snd (save_transaction tx) @ rest) = Some (tx_invalidate_hashes tx, rest)"
proof -
  from assms have pre: "wf_prefix tx" by (simp add: wf_transaction_def)
  note prefix = save_prefix_ok [OF pre] load_save_prefix [OF pre]
  consider (v1) "version tx = 1" | (empty) "version tx \<noteq> 1" "vin tx = []"
    | (rct) "version tx \<noteq> 1" "vin tx \<noteq> []"
    by blast
  then have "fst (save_transaction tx) \<and>
    load_transaction (snd (save_transaction tx) @ rest) = Some (tx_invalidate_hashes tx, rest)"
  proof cases
    case v1
    with assms have sigs: "wf_v1_sigs (vin tx) (signatures tx)" "rct_signatures tx = null_rctSig"
      by (simp_all add: wf_transaction_def)
    with v1 prefix v1_signatures_roundtrip [OF sigs(1)] show ?thesis
      by (simp add: save_transaction_def load_transaction_def transaction_split [symmetric])
  next
    case empty
    with assms prefix show ?thesis
      by (simp add: wf_transaction_def save_transaction_def load_transaction_def
          transaction_split [symmetric])
  next
    case rct
    let ?rv = "rct_signatures tx"
    from rct assms have base: "wf_rctsig_base (length (vin tx)) (length (vout tx)) (rctSigBase.truncate ?rv)"
      and pr: "wf_rctsig_prunable (rct_type ?rv) (length (vin tx)) (length (vout tx)) (tx_mixin (vin tx)) (prunable ?rv)"
      and sig: "signatures tx = []"
      by (simp_all add: wf_transaction_def)
    from pr have null: "rct_type ?rv = RCTTypeNull \<Longrightarrow> empty_rctSigPrunable = prunable ?rv"
      by (simp add: wf_rctsig_prunable_def)
    have "rctSigBase.extend (rctSigBase.truncate ?rv) (rctSig.fields (prunable ?rv)) = ?rv"
      by (rule rctSig_split)
    with rct prefix rctsig_base_roundtrip [OF base] rctsig_prunable_roundtrip [OF pr] sig null
    show ?thesis
      by (cases "rct_type ?rv = RCTTypeNull")
        (simp_all add: save_transaction_def load_transaction_def transaction_split [symmetric]
          save_rctsig_base_truncate [of ?rv])
  qed
  then show "fst (save_transaction tx)"
    and "load_transaction (snd (save_transaction tx) @ rest) = Some (tx_invalidate_hashes tx, rest)"
    by simp_all
qed

lemma load_save_block_header:
  "is_key (prev_id h) \<Longrightarrow>
     load_block_header (snd (save_block_header h) @ rest) = Some (block_header.truncate h, rest)"
  by (simp add: save_block_header_def load_block_header_def codec_simps block_header.truncate_def)

lemma fst_save_block_header [simp]: "fst (save_block_header h)"
  by (simp add: save_block_header_def)

lemma block_split:
  "block_header.extend (block_header.truncate b)
     (block.fields (tx_invalidate_hashes (miner_tx b)) (tx_hashes b) None) = reloaded b"
  by (cases b) (simp add: block_header.truncate_def block_header.extend_def block.fields_def reloaded_def)

lemma save_block_ok: "wf_block b \<Longrightarrow> fst (save_block b)"
  by (simp add: save_block_def wf_block_def transaction_roundtrip)

lemma load_save_block:
  assumes "wf_block b"
  shows "load_block (snd (save_block b) @ rest) = Some (reloaded b, rest)"
  using assms transaction_roundtrip [of "miner_tx b"]
  by (simp add: save_block_def load_block_def wf_block_def load_save_block_header codec_simps
      block_split)

end
