(* ===== verification/Keccak.thy ===== *)
theory Keccak
  imports Xcash_Prelude
begin

text \<open>
  The Keccak hash of \<^verbatim>\<open>src/src/crypto/keccak.c\<close> and \<^verbatim>\<open>hash.c\<close>: the permutation
  \<open>keccakf\<close> with its in-place loops, the one-shot \<open>keccak\<close>, the incremental
  \<open>keccak_init\<close>/\<open>keccak_update\<close>/\<open>keccak_finish\<close>, and \<open>cn_fast_hash\<close>.

  A state is the list of its 25 lanes. The machine is little endian, so \<open>swap64le\<close> is the
  identity and a lane is read from 8 bytes least significant first. \<open>None\<close> is a call that
  does not return: \<open>local_abort\<close>, or a loop that never ends.

  Shown here: one round of the in-place code is one round of the Keccak specification
  (theta, rho, pi, chi on the 5 by 5 array, with the rotation offsets and round constants
  generated as the specification generates them); \<open>cn_fast_hash\<close> always returns 32 bytes;
  hashing in chunks of any sizes and alignments gives the one-shot hash.
\<close>

subsection \<open>The permutation\<close>

definition keccakf_rndc :: "u64 list" where
  "keccakf_rndc = [
    0x0000000000000001, 0x0000000000008082, 0x800000000000808a,
    0x8000000080008000, 0x000000000000808b, 0x0000000080000001,
    0x8000000080008081, 0x8000000000008009, 0x000000000000008a,
    0x0000000000000088, 0x0000000080008009, 0x000000008000000a,
    0x000000008000808b, 0x800000000000008b, 0x8000000000008089,
    0x8000000000008003, 0x8000000000008002, 0x8000000000000080,
    0x000000000000800a, 0x800000008000000a, 0x8000000080008081,
    0x8000000000008080, 0x0000000080000001, 0x8000000080008008]"

definition keccakf_rotc :: "nat list" where
  "keccakf_rotc = [
    1,  3,  6,  10, 15, 21, 28, 36, 45, 55, 2,  14,
    27, 41, 56, 8,  25, 43, 62, 18, 39, 61, 20, 44]"

definition keccakf_piln :: "nat list" where
  "keccakf_piln = [
    10, 7,  11, 17, 18, 3, 5,  16, 8,  21, 24, 4,
    15, 23, 19, 13, 12, 2, 20, 14, 22, 9,  6,  1]"

definition KECCAK_ROUNDS :: nat where "KECCAK_ROUNDS = 24"

definition ROTL64 :: "u64 \<Rightarrow> nat \<Rightarrow> u64" where
  "ROTL64 x y = push_bit y x OR drop_bit (64 - y) x"

definition theta :: "u64 list \<Rightarrow> u64 list" where
  "theta st =
     (let bc = map (\<lambda>i. st ! i XOR st ! (i + 5) XOR st ! (i + 10) XOR st ! (i + 15) XOR st ! (i + 20))
                 [0..<5] in
      fold (\<lambda>i st.
        let t = bc ! ((i + 4) mod 5) XOR ROTL64 (bc ! ((i + 1) mod 5)) 1 in
        fold (\<lambda>j st. st[j + i := st ! (j + i) XOR t]) [0, 5, 10, 15, 20] st) [0..<5] st)"

definition rho_pi :: "u64 list \<Rightarrow> u64 list" where
  "rho_pi st = snd (fold (\<lambda>i (t, st).
     let j = keccakf_piln ! i in
     (st ! j, st[j := ROTL64 t (keccakf_rotc ! i)])) [0..<24] (st ! 1, st))"

definition chi :: "u64 list \<Rightarrow> u64 list" where
  "chi st = fold (\<lambda>j st.
     let bc = map (\<lambda>i. st ! (j + i)) [0..<5] in
     fold (\<lambda>i st. st[j + i := st ! (j + i) XOR (NOT (bc ! ((i + 1) mod 5)) AND bc ! ((i + 2) mod 5))])
       [0..<5] st) [0, 5, 10, 15, 20] st"

definition iota :: "nat \<Rightarrow> u64 list \<Rightarrow> u64 list" where
  "iota round st = st[0 := st ! 0 XOR keccakf_rndc ! round]"

definition keccakf :: "u64 list \<Rightarrow> nat \<Rightarrow> u64 list" where
  "keccakf st rounds = fold (\<lambda>round st. iota round (chi (rho_pi (theta st)))) [0..<rounds] st"

subsection \<open>The one-shot hash\<close>

definition HASH_SIZE :: nat where "HASH_SIZE = 32"
definition HASH_DATA_AREA :: nat where "HASH_DATA_AREA = 136"

definition lane :: "bytes \<Rightarrow> nat \<Rightarrow> u64" where
  "lane bs i = foldr (\<lambda>b acc. push_bit 8 acc OR ucast b) (take 8 (drop (8 * i) bs)) 0"

definition lane_bytes :: "u64 \<Rightarrow> bytes" where
  "lane_bytes w = map (\<lambda>k. ucast (drop_bit (8 * k) w)) [0..<8]"

definition xor_lanes :: "nat \<Rightarrow> bytes \<Rightarrow> u64 list \<Rightarrow> u64 list" where
  "xor_lanes n bs st = fold (\<lambda>i st. st[i := st ! i XOR lane bs i]) [0..<n] st"

partial_function (option) keccak_absorb :: "nat \<Rightarrow> u64 list \<Rightarrow> bytes \<Rightarrow> (u64 list \<times> bytes) option" where
  "keccak_absorb rsiz st inp =
     (if rsiz \<le> length inp
      then keccak_absorb rsiz (keccakf (xor_lanes (rsiz div 8) inp st) KECCAK_ROUNDS) (drop rsiz inp)
      else Some (st, inp))"

definition keccak_pad :: "nat \<Rightarrow> bytes \<Rightarrow> bytes" where
  "keccak_pad rsiz inp =
     (let temp = inp @ [1] @ replicate (rsiz - length inp - 1) 0 in
      temp[rsiz - 1 := temp ! (rsiz - 1) OR 0x80])"

definition keccak :: "bytes \<Rightarrow> int \<Rightarrow> bytes option" where
  "keccak inp mdlen =
     (if mdlen \<le> 0 \<or> (mdlen > 100 \<and> mdlen \<noteq> 200) then None
      else
        let rsiz = (if mdlen = 200 then HASH_DATA_AREA else 200 - 2 * nat mdlen);
            rsizw = rsiz div 8 in
        case keccak_absorb rsiz (replicate 25 0) inp of
          None \<Rightarrow> None
        | Some (st, inp) \<Rightarrow>
            if length inp + 1 \<ge> 144 \<or> length inp > rsiz \<or> rsiz - length inp + length inp + 1 \<ge> 144
              \<or> rsiz = 0 \<or> rsiz - 1 \<ge> 144 \<or> rsizw * 8 > 144 then None
            else
              let st = keccakf (xor_lanes rsizw (keccak_pad rsiz inp) st) KECCAK_ROUNDS in
              if nat mdlen mod 8 \<noteq> 0 then None
              else Some (take (nat mdlen) (concat (map lane_bytes st))))"

definition keccak1600 :: "bytes \<Rightarrow> bytes option" where
  "keccak1600 inp = keccak inp 200"

definition cn_fast_hash :: "bytes \<Rightarrow> bytes" where
  "cn_fast_hash data = (case keccak1600 data of Some state \<Rightarrow> take HASH_SIZE state | None \<Rightarrow> [])"

subsection \<open>The incremental hash\<close>

record KECCAK_CTX =
  ctx_hash :: "u64 list"
  ctx_message :: bytes
  ctx_rest :: u64

definition KECCAK_FINALIZED :: u64 where "KECCAK_FINALIZED = 0x80000000"
definition KECCAK_BLOCKLEN :: nat where "KECCAK_BLOCKLEN = 136"
definition KECCAK_WORDS :: nat where "KECCAK_WORDS = 17"
definition KECCAK_DIGESTSIZE :: nat where "KECCAK_DIGESTSIZE = 32"

definition KECCAK_PROCESS_BLOCK :: "u64 list \<Rightarrow> bytes \<Rightarrow> u64 list" where
  "KECCAK_PROCESS_BLOCK st block = keccakf (xor_lanes KECCAK_WORDS block st) KECCAK_ROUNDS"

text \<open>\<open>memcpy\<close> of \<open>data\<close> to offset \<open>off\<close> of a buffer.\<close>

definition memcpy_at :: "bytes \<Rightarrow> nat \<Rightarrow> bytes \<Rightarrow> bytes" where
  "memcpy_at buf off data = take off buf @ data @ drop (off + length data) buf"

definition keccak_init :: KECCAK_CTX where
  "keccak_init = \<lparr>ctx_hash = replicate 25 0, ctx_message = replicate 136 0, ctx_rest = 0\<rparr>"

text \<open>The loop over whole blocks; an unaligned block goes through the \<open>message\<close> buffer.\<close>

function keccak_update_blocks ::
    "bool \<Rightarrow> u64 list \<Rightarrow> bytes \<Rightarrow> bytes \<Rightarrow> u64 list \<times> bytes \<times> bytes" where
  "keccak_update_blocks is_aligned st msg inp =
     (if KECCAK_BLOCKLEN \<le> length inp
      then
        let block = take KECCAK_BLOCKLEN inp;
            msg = (if is_aligned then msg else memcpy_at msg 0 block) in
        keccak_update_blocks is_aligned (KECCAK_PROCESS_BLOCK st block) msg (drop KECCAK_BLOCKLEN inp)
      else (st, msg, inp))"
  by auto
termination
  by (relation "measure (\<lambda>(_, _, _, inp). length inp)") (auto simp: KECCAK_BLOCKLEN_def)

declare keccak_update_blocks.simps [simp del]

text \<open>\<open>is_aligned\<close> is the alignment of the input pointer where the block loop starts.\<close>

definition keccak_update :: "bool \<Rightarrow> KECCAK_CTX \<Rightarrow> bytes \<Rightarrow> KECCAK_CTX option" where
  "keccak_update is_aligned ctx inp =
     (if ctx_rest ctx AND KECCAK_FINALIZED \<noteq> 0 then None
      else
        let idx = unat (ctx_rest ctx);
            inlen = length inp;
            left = KECCAK_BLOCKLEN - idx;
            rest' = (ctx_rest ctx + of_nat inlen) mod of_nat KECCAK_BLOCKLEN;
            filled = memcpy_at (ctx_message ctx) idx (take (min inlen left) inp) in
        if idx \<noteq> 0 \<and> inlen < left then Some (ctx\<lparr>ctx_message := filled, ctx_rest := rest'\<rparr>)
        else
          let (st, msg, inp) =
            (if idx \<noteq> 0
             then keccak_update_blocks is_aligned (KECCAK_PROCESS_BLOCK (ctx_hash ctx) filled) filled (drop left inp)
             else keccak_update_blocks is_aligned (ctx_hash ctx) (ctx_message ctx) inp) in
          Some (ctx\<lparr>ctx_hash := st, ctx_message := memcpy_at msg 0 inp, ctx_rest := rest'\<rparr>))"

text \<open>A run of updates, each with the alignment of its input.\<close>

fun keccak_feed :: "KECCAK_CTX \<Rightarrow> (bool \<times> bytes) list \<Rightarrow> KECCAK_CTX option" where
  "keccak_feed ctx [] = Some ctx"
| "keccak_feed ctx ((is_aligned, inp) # chunks) = do {
     ctx \<leftarrow> keccak_update is_aligned ctx inp;
     keccak_feed ctx chunks }"

definition keccak_finish :: "KECCAK_CTX \<Rightarrow> KECCAK_CTX \<times> bytes" where
  "keccak_finish ctx =
     (let ctx =
        (if ctx_rest ctx AND KECCAK_FINALIZED = 0
         then
           let r = unat (ctx_rest ctx);
               m = memcpy_at (ctx_message ctx) r (replicate (KECCAK_BLOCKLEN - r) 0);
               m = m[r := m ! r OR 1];
               m = m[KECCAK_BLOCKLEN - 1 := m ! (KECCAK_BLOCKLEN - 1) OR 0x80] in
           ctx\<lparr>ctx_message := m, ctx_hash := KECCAK_PROCESS_BLOCK (ctx_hash ctx) m, ctx_rest := KECCAK_FINALIZED\<rparr>
         else ctx) in
      (ctx, take KECCAK_DIGESTSIZE (concat (map lane_bytes (ctx_hash ctx)))))"

subsection \<open>Reference: the Keccak specification on a 5 by 5 array of lanes\<close>

text \<open>
  \<open>rho_walk t\<close> is the position reached after \<open>t\<close> steps \<open>(x, y) \<mapsto> (y, 2x + 3y)\<close> from \<open>(1, 0)\<close>;
  the lane found there is rotated by the triangular number \<open>(t + 1)(t + 2)/2\<close> modulo 64.
  The round constants come from the linear feedback register \<open>x^8 + x^6 + x^5 + x^4 + 1\<close>.
\<close>

fun rho_walk :: "nat \<Rightarrow> nat \<times> nat" where
  "rho_walk 0 = (1, 0)"
| "rho_walk (Suc t) = (let (x, y) = rho_walk t in (y, (2 * x + 3 * y) mod 5))"

definition rho_offset :: "nat \<Rightarrow> nat \<Rightarrow> nat" where
  "rho_offset x y = (case filter (\<lambda>t. rho_walk t = (x, y)) [0..<24] of
     [] \<Rightarrow> 0 | t # _ \<Rightarrow> ((t + 1) * (t + 2) div 2) mod 64)"

definition spec_lanes :: "(nat \<Rightarrow> nat \<Rightarrow> u64) \<Rightarrow> u64 list" where
  "spec_lanes A = map (\<lambda>k. A (k mod 5) (k div 5)) [0..<25]"

definition spec_array :: "u64 list \<Rightarrow> nat \<Rightarrow> nat \<Rightarrow> u64" where
  "spec_array st x y = st ! (x + 5 * y)"

definition spec_theta :: "(nat \<Rightarrow> nat \<Rightarrow> u64) \<Rightarrow> nat \<Rightarrow> nat \<Rightarrow> u64" where
  "spec_theta A x y =
     (let C = (\<lambda>x. A x 0 XOR A x 1 XOR A x 2 XOR A x 3 XOR A x 4)
      in A x y XOR (C ((x + 4) mod 5) XOR ROTL64 (C ((x + 1) mod 5)) 1))"

definition spec_rho :: "(nat \<Rightarrow> nat \<Rightarrow> u64) \<Rightarrow> nat \<Rightarrow> nat \<Rightarrow> u64" where
  "spec_rho A x y = ROTL64 (A x y) (rho_offset x y)"

definition spec_pi :: "(nat \<Rightarrow> nat \<Rightarrow> u64) \<Rightarrow> nat \<Rightarrow> nat \<Rightarrow> u64" where
  "spec_pi A x y = A ((x + 3 * y) mod 5) x"

definition spec_chi :: "(nat \<Rightarrow> nat \<Rightarrow> u64) \<Rightarrow> nat \<Rightarrow> nat \<Rightarrow> u64" where
  "spec_chi A x y = A x y XOR (NOT (A ((x + 1) mod 5) y) AND A ((x + 2) mod 5) y)"

fun lfsr_bits :: "nat \<Rightarrow> bool list \<Rightarrow> bool list" where
  "lfsr_bits (Suc n) [r0, r1, r2, r3, r4, r5, r6, r7] =
     r0 # lfsr_bits n [r7, r0, r1, r2, r3 \<noteq> r7, r4 \<noteq> r7, r5 \<noteq> r7, r6]"
| "lfsr_bits _ _ = []"

definition spec_rndc :: "nat \<Rightarrow> u64" where
  "spec_rndc ir = (let bits = lfsr_bits 168 (True # replicate 7 False) in
     foldr (\<lambda>j acc. (if bits ! (j + 7 * ir) then push_bit (2 ^ j - 1) 1 else 0) OR acc) [0..<7] 0)"

definition spec_iota :: "nat \<Rightarrow> (nat \<Rightarrow> nat \<Rightarrow> u64) \<Rightarrow> nat \<Rightarrow> nat \<Rightarrow> u64" where
  "spec_iota ir A x y = (if x = 0 \<and> y = 0 then A x y XOR spec_rndc ir else A x y)"

definition spec_round :: "nat \<Rightarrow> u64 list \<Rightarrow> u64 list" where
  "spec_round ir st =
     spec_lanes (spec_iota ir (spec_chi (spec_pi (spec_rho (spec_theta (spec_array st))))))"

subsection \<open>The in-place round is the specification's round\<close>

lemma list25:
  assumes "length xs = 25"
  obtains a0 a1 a2 a3 a4 a5 a6 a7 a8 a9 a10 a11 a12 a13 a14 a15 a16 a17 a18 a19 a20 a21 a22 a23 a24
  where "xs = [a0, a1, a2, a3, a4, a5, a6, a7, a8, a9, a10, a11, a12, a13, a14, a15, a16, a17, a18,
    a19, a20, a21, a22, a23, a24]"
  using assms by (auto simp: numeral_eq_Suc length_Suc_conv)

lemma upt_5: "[0..<5] = [0, 1, 2, 3, 4 :: nat]"
  by (simp add: upt_rec)

lemma upt_24: "[0..<24] = [0, 1, 2, 3, 4, 5, 6, 7, 8, 9, 10, 11, 12, 13, 14, 15, 16, 17, 18, 19,
    20, 21, 22, 23 :: nat]"
  by (simp add: upt_rec)

lemma upt_25: "[0..<25] = [0, 1, 2, 3, 4, 5, 6, 7, 8, 9, 10, 11, 12, 13, 14, 15, 16, 17, 18, 19,
    20, 21, 22, 23, 24 :: nat]"
  by (simp add: upt_rec)

lemma theta_spec: "length st = 25 \<Longrightarrow> theta st = spec_lanes (spec_theta (spec_array st))"
  by (erule list25) (simp add: theta_def spec_lanes_def spec_theta_def spec_array_def upt_5 upt_25 Let_def)

lemma chi_spec: "length st = 25 \<Longrightarrow> chi st = spec_lanes (spec_chi (spec_array st))"
  by (erule list25) (simp add: chi_def spec_lanes_def spec_chi_def spec_array_def upt_5 upt_25 Let_def)

lemma rho_offsets:
  "map (\<lambda>k. rho_offset (k mod 5) (k div 5)) [0..<25] =
     [0, 1, 62, 28, 27, 36, 44, 6, 55, 20, 3, 10, 43, 25, 39, 41, 45, 15, 21, 8, 18, 2, 61, 56, 14]"
  by code_simp

lemma rho_offset_eval:
  "rho_offset 0 0 = 0" "rho_offset (Suc 0) 0 = 1" "rho_offset 2 0 = 62" "rho_offset 3 0 = 28"
  "rho_offset 4 0 = 27" "rho_offset 0 (Suc 0) = 36" "rho_offset (Suc 0) (Suc 0) = 44" "rho_offset 2 (Suc 0) = 6"
  "rho_offset 3 (Suc 0) = 55" "rho_offset 4 (Suc 0) = 20" "rho_offset 0 2 = 3" "rho_offset (Suc 0) 2 = 10"
  "rho_offset 2 2 = 43" "rho_offset 3 2 = 25" "rho_offset 4 2 = 39" "rho_offset 0 3 = 41"
  "rho_offset (Suc 0) 3 = 45" "rho_offset 2 3 = 15" "rho_offset 3 3 = 21" "rho_offset 4 3 = 8"
  "rho_offset 0 4 = 18" "rho_offset (Suc 0) 4 = 2" "rho_offset 2 4 = 61" "rho_offset 3 4 = 56" "rho_offset 4 4 = 14"
  using rho_offsets by (simp_all add: upt_25)

lemma ROTL64_0 [simp]: "ROTL64 x 0 = x"
  by (simp add: ROTL64_def bit_eq_iff bit_simps)

lemma rho_pi_spec: "length st = 25 \<Longrightarrow> rho_pi st = spec_lanes (spec_pi (spec_rho (spec_array st)))"
  by (erule list25)
    (simp add: rho_pi_def spec_lanes_def spec_pi_def spec_rho_def spec_array_def upt_24 upt_25 Let_def
      keccakf_piln_def keccakf_rotc_def rho_offset_eval)

lemma lfsr_168:
  "lfsr_bits 168 (True # replicate 7 False) = [True, False, False, False, False, False, False, False, True, False, True, True, False, False, False,
     True, True, True, True, False, True, False, False, False, False, True, True, True, True, True, True,
     True, True, False, False, True, False, False, False, False, True, False, True, False, False, True,
     True, True, True, True, False, True, False, True, False, True, False, True, True, True, False,
     False, False, False, False, True, True, False, False, False, True, False, True, False, True, True,
     False, False, True, True, False, False, True, False, True, True, True, True, True, True, False,
     True, True, True, True, False, False, True, True, False, True, True, True, False, True, True, True,
     False, False, True, False, True, False, True, False, False, True, False, True, False, False, False,
     True, False, False, True, False, True, True, False, True, False, False, False, True, True, False,
     False, True, True, True, False, False, True, True, True, True, False, False, False, True, True,
     False, True, True, False, False, False, False, True, False, False, False, True, False, True, True,
     True]"
  by code_simp

lemma rndc_spec: "keccakf_rndc = map spec_rndc [0..<24]"
  by (simp add: keccakf_rndc_def spec_rndc_def lfsr_168 upt_rec Let_def)

lemma length_spec_lanes [simp]: "length (spec_lanes A) = 25"
  by (simp add: spec_lanes_def)

lemma spec_array_lanes: "x < 5 \<Longrightarrow> y < 5 \<Longrightarrow> spec_array (spec_lanes A) x y = A x y"
proof -
  assume "x < 5" "y < 5"
  then have "x + 5 * y < 25" by simp
  then have "spec_lanes A ! (x + 5 * y) = A ((x + 5 * y) mod 5) ((x + 5 * y) div 5)"
    by (simp add: spec_lanes_def)
  with \<open>x < 5\<close> show ?thesis by (simp add: spec_array_def)
qed

lemma spec_lanes_cong:
  "(\<And>x y. x < 5 \<Longrightarrow> y < 5 \<Longrightarrow> f x y = g x y) \<Longrightarrow> spec_lanes f = spec_lanes g"
  by (simp add: spec_lanes_def)

lemma spec_pi_rho_lanes:
  "spec_lanes (spec_pi (spec_rho (spec_array (spec_lanes A)))) = spec_lanes (spec_pi (spec_rho A))"
  by (rule spec_lanes_cong) (simp add: spec_pi_def spec_rho_def spec_array_lanes)

lemma spec_chi_lanes:
  "spec_lanes (spec_chi (spec_array (spec_lanes A))) = spec_lanes (spec_chi A)"
  by (rule spec_lanes_cong) (simp add: spec_chi_def spec_array_lanes)

lemma iota_spec:
  assumes "ir < 24"
  shows "iota ir (spec_lanes A) = spec_lanes (spec_iota ir A)"
proof -
  from assms have "keccakf_rndc ! ir = spec_rndc ir"
    by (simp add: rndc_spec)
  then show ?thesis
    by (simp add: iota_def spec_lanes_def spec_iota_def upt_25)
qed

lemma round_spec:
  "length st = 25 \<Longrightarrow> ir < 24 \<Longrightarrow> iota ir (chi (rho_pi (theta st))) = spec_round ir st"
  by (simp add: theta_spec rho_pi_spec chi_spec spec_pi_rho_lanes spec_chi_lanes iota_spec spec_round_def)

lemma length_spec_round [simp]: "length (spec_round ir st) = 25"
  by (simp add: spec_round_def)

lemma keccakf_Suc: "keccakf st (Suc n) = iota n (chi (rho_pi (theta (keccakf st n))))"
  by (simp add: keccakf_def)

lemma length_keccakf_rounds: "length st = 25 \<Longrightarrow> length (keccakf st rounds) = 25"
  by (induction rounds) (simp_all add: keccakf_def theta_spec rho_pi_spec chi_spec iota_def)

lemma keccakf_rounds:
  "length st = 25 \<Longrightarrow> rounds \<le> 24 \<Longrightarrow> keccakf st rounds = fold spec_round [0..<rounds] st"
proof (induction rounds)
  case (Suc n)
  then have "keccakf st (Suc n) = spec_round n (keccakf st n)"
    using round_spec [OF length_keccakf_rounds [OF Suc.prems(1)], of n n]
    by (simp only: keccakf_Suc)
  with Suc show ?case by simp
qed (simp add: keccakf_def)

lemmas length_keccakf = length_keccakf_rounds [where rounds = KECCAK_ROUNDS]

subsection \<open>The one-shot hash returns\<close>

text \<open>The absorbing loop with the block size of \<open>cn_fast_hash\<close>, as a total function.\<close>

function absorb :: "u64 list \<Rightarrow> bytes \<Rightarrow> u64 list \<times> bytes" where
  "absorb st inp =
     (if 136 \<le> length inp then absorb (KECCAK_PROCESS_BLOCK st (take 136 inp)) (drop 136 inp)
      else (st, inp))"
  by auto
termination
  by (relation "measure (\<lambda>(_, inp). length inp)") auto

declare absorb.simps [simp del]

lemma lane_take: "8 * i + 8 \<le> n \<Longrightarrow> lane (take n bs) i = lane bs i"
  by (simp add: lane_def take_drop min_def)

lemma lane_append: "8 * i + 8 \<le> length a \<Longrightarrow> lane (a @ b) i = lane a i"
  by (simp add: lane_def)

lemma xor_lanes_cong:
  assumes "\<And>i. i < n \<Longrightarrow> lane a i = lane b i"
  shows "xor_lanes n a st = xor_lanes n b st"
  unfolding xor_lanes_def by (rule fold_cong) (auto simp: assms)

lemma length_xor_lanes [simp]: "length (xor_lanes n bs st) = length st"
  by (induction n) (simp_all add: xor_lanes_def)

lemma process_block_eq:
  "keccakf (xor_lanes 17 inp st) KECCAK_ROUNDS = KECCAK_PROCESS_BLOCK st (take 136 inp)"
proof -
  have "xor_lanes 17 inp st = xor_lanes 17 (take 136 inp) st"
    by (rule xor_lanes_cong) (simp add: lane_take)
  then show ?thesis by (simp add: KECCAK_PROCESS_BLOCK_def KECCAK_WORDS_def)
qed

lemma keccak_absorb_136: "keccak_absorb 136 st inp = Some (absorb st inp)"
proof (induction st inp rule: absorb.induct)
  case (1 st inp)
  then show ?case
    by (subst keccak_absorb.simps, subst absorb.simps) (simp add: process_block_eq)
qed

lemma length_absorb:
  "length (snd (absorb st inp)) = length inp mod 136"
  "length st = 25 \<Longrightarrow> length (fst (absorb st inp)) = 25"
proof (induction st inp rule: absorb.induct)
  case (1 st inp)
  { case 1
    with "1.IH"(1) show ?case
      by (subst absorb.simps) (auto simp: mod_if) }
  { case 2
    with "1.IH"(2) show ?case
      by (subst absorb.simps) (simp add: KECCAK_PROCESS_BLOCK_def length_keccakf) }
qed

lemma length_lane_bytes [simp]: "length (lane_bytes w) = 8"
  by (simp add: lane_bytes_def)

lemma length_concat_lanes [simp]: "length (concat (map lane_bytes st)) = 8 * length st"
  by (induction st) auto

definition digest :: "bytes \<Rightarrow> u64 list" where
  "digest inp = (let (st, r) = absorb (replicate 25 0) inp in KECCAK_PROCESS_BLOCK st (keccak_pad 136 r))"

lemma length_digest [simp]: "length (digest inp) = 25"
  using length_absorb(2) [of "replicate 25 0" inp]
  by (simp add: digest_def case_prod_beta KECCAK_PROCESS_BLOCK_def length_keccakf)

lemma keccak1600_digest: "keccak1600 inp = Some (concat (map lane_bytes (digest inp)))"
proof -
  obtain st r where a: "absorb (replicate 25 0) inp = (st, r)" by fastforce
  with length_absorb(1) [of "replicate 25 0" inp] have "length r < 136" by simp
  with a length_digest [of inp] show ?thesis
    by (simp add: keccak1600_def keccak_def HASH_DATA_AREA_def keccak_absorb_136 digest_def Let_def
        KECCAK_PROCESS_BLOCK_def KECCAK_WORDS_def)
qed

lemma cn_fast_hash_digest: "cn_fast_hash inp = take 32 (concat (map lane_bytes (digest inp)))"
  by (simp add: cn_fast_hash_def keccak1600_digest HASH_SIZE_def)

lemma length_cn_fast_hash [simp]: "length (cn_fast_hash inp) = 32"
  by (simp add: cn_fast_hash_digest)

subsection \<open>Hashing in pieces\<close>

text \<open>
  \<open>ctx_repr ctx data\<close>: the context has absorbed \<open>data\<close>. The whole blocks are in the lanes,
  the remainder is at the start of the \<open>message\<close> buffer; the rest of the buffer is stale.
\<close>

definition ctx_repr :: "KECCAK_CTX \<Rightarrow> bytes \<Rightarrow> bool" where
  "ctx_repr ctx data \<longleftrightarrow> length (ctx_message ctx) = 136 \<and> unat (ctx_rest ctx) < 136 \<and>
     absorb (replicate 25 0) data = (ctx_hash ctx, take (unat (ctx_rest ctx)) (ctx_message ctx))"

lemma absorb_short [simp]: "length inp < 136 \<Longrightarrow> absorb st inp = (st, inp)"
  by (subst absorb.simps) simp

lemma absorb_append:
  "absorb st (a @ b) = (let (st', r) = absorb st a in absorb st' (r @ b))"
proof (induction st a rule: absorb.induct)
  case (1 st a)
  show ?case
  proof (cases "136 \<le> length a")
    case True
    then have "absorb st (a @ b) = absorb (KECCAK_PROCESS_BLOCK st (take 136 a)) (drop 136 a @ b)"
      by (subst absorb.simps) simp
    also have "\<dots> = (let (st', r) = absorb st a in absorb st' (r @ b))"
      using True 1 by (simp add: absorb.simps [of st a])
    finally show ?thesis .
  qed simp
qed

lemma length_memcpy_at: "off + length d \<le> length buf \<Longrightarrow> length (memcpy_at buf off d) = length buf"
  by (simp add: memcpy_at_def)

lemma update_blocks_absorb:
  assumes "length msg = 136" "keccak_update_blocks al st msg inp = (st', msg', inp')"
  shows "absorb st inp = (st', inp') \<and> length msg' = 136"
  using assms
proof (induction al st msg inp rule: keccak_update_blocks.induct)
  case (1 al st msg inp)
  show ?case
  proof (cases "136 \<le> length inp")
    case True
    let ?msg = "if al then msg else memcpy_at msg 0 (take 136 inp)"
    have "length ?msg = 136"
      using 1(2) True by (simp add: memcpy_at_def)
    moreover have "keccak_update_blocks al (KECCAK_PROCESS_BLOCK st (take 136 inp)) ?msg (drop 136 inp)
        = (st', msg', inp')"
      using 1(3) True by (subst (asm) keccak_update_blocks.simps) (simp add: KECCAK_BLOCKLEN_def Let_def)
    ultimately have "absorb (KECCAK_PROCESS_BLOCK st (take 136 inp)) (drop 136 inp) = (st', inp') \<and> length msg' = 136"
      using 1(1) True by (simp add: KECCAK_BLOCKLEN_def Let_def)
    with True show ?thesis by (subst absorb.simps) simp
  next
    case False
    with 1 show ?thesis by (subst (asm) keccak_update_blocks.simps) (simp add: KECCAK_BLOCKLEN_def)
  qed
qed

lemma unat_update_rest:
  assumes "unat (r :: u64) < 136" "n < 2 ^ 63"
  shows "unat ((r + of_nat n) mod of_nat KECCAK_BLOCKLEN) = (unat r + n) mod 136"
proof -
  from assms have "unat (r + of_nat n) = unat r + n"
    by (simp add: unat_word_ariths unat_of_nat)
  then show ?thesis
    by (simp add: unat_mod KECCAK_BLOCKLEN_def)
qed

lemma not_finalized: "unat (r :: u64) < 136 \<Longrightarrow> r AND KECCAK_FINALIZED = 0"
proof -
  assume "unat r < 136"
  then have "unat r div 2 ^ 31 = 0" by simp
  then have "\<not> bit (unat r) 31"
    by (simp only: bit_iff_odd) simp
  then have "\<not> bit r 31" by (simp add: bit_unsigned_iff)
  then have "r AND 2 ^ 31 = 0" by (simp only: and_exp_eq_0_iff_not_bit) simp
  then show ?thesis by (simp add: KECCAK_FINALIZED_def)
qed

lemma filled_block:
  assumes "length buf = 136" "r < 136"
  shows "length inp < 136 - r \<Longrightarrow>
      take (r + length inp) (memcpy_at buf r (take (min (length inp) (136 - r)) inp)) = take r buf @ inp"
    and "136 - r \<le> length inp \<Longrightarrow>
      memcpy_at buf r (take (min (length inp) (136 - r)) inp) = take r buf @ take (136 - r) inp"
  using assms by (simp_all add: memcpy_at_def min_def)

lemma keccak_update_repr:
  assumes repr: "ctx_repr ctx data" and len: "length inp < 2 ^ 63"
  shows "\<exists>ctx'. keccak_update al ctx inp = Some ctx' \<and> ctx_repr ctx' (data @ inp)"
proof -
  define r where "r = unat (ctx_rest ctx)"
  let ?buf = "ctx_message ctx" and ?st = "ctx_hash ctx"
  let ?filled = "memcpy_at ?buf r (take (min (length inp) (136 - r)) inp)"
  let ?rest' = "(ctx_rest ctx + of_nat (length inp)) mod of_nat KECCAK_BLOCKLEN"
  from repr have buf: "length ?buf = 136" "r < 136" and ab: "absorb (replicate 25 0) data = (?st, take r ?buf)"
    by (simp_all add: ctx_repr_def r_def)
  have rest': "unat ?rest' = (r + length inp) mod 136"
    using unat_update_rest [of "ctx_rest ctx" "length inp"] buf(2) len by (simp add: r_def)
  have fin: "ctx_rest ctx AND KECCAK_FINALIZED = 0"
    using not_finalized buf(2) by (simp add: r_def)
  have all: "absorb (replicate 25 0) (data @ inp) = absorb ?st (take r ?buf @ inp)"
    by (simp add: absorb_append [of _ data] ab)
  show ?thesis
  proof (cases "r \<noteq> 0 \<and> length inp < 136 - r")
    case True
    then have "keccak_update al ctx inp = Some (ctx\<lparr>ctx_message := ?filled, ctx_rest := ?rest'\<rparr>)"
      by (simp add: keccak_update_def Let_def fin r_def [symmetric] KECCAK_BLOCKLEN_def)
    moreover have "ctx_repr (ctx\<lparr>ctx_message := ?filled, ctx_rest := ?rest'\<rparr>) (data @ inp)"
    proof -
      from True have "r + length inp < 136" by auto
      with True buf rest' filled_block(1) [OF buf, of inp] show ?thesis
        by (simp add: ctx_repr_def all length_memcpy_at)
    qed
    ultimately show ?thesis by blast
  next
    case False
    define st0 msg0 inp0 where "st0 = (if r \<noteq> 0 then KECCAK_PROCESS_BLOCK ?st ?filled else ?st)"
      and "msg0 = (if r \<noteq> 0 then ?filled else ?buf)" and "inp0 = (if r \<noteq> 0 then drop (136 - r) inp else inp)"
    obtain st msg inp' where ub: "keccak_update_blocks al st0 msg0 inp0 = (st, msg, inp')"
      by (cases "keccak_update_blocks al st0 msg0 inp0")
    have "length msg0 = 136"
      using False buf by (auto simp: msg0_def length_memcpy_at)
    from update_blocks_absorb [OF this ub] have ab': "absorb st0 inp0 = (st, inp')" and msg: "length msg = 136"
      by simp_all
    have "absorb ?st (take r ?buf @ inp) = absorb st0 inp0"
      using False buf filled_block(2) [OF buf, of inp]
      by (subst absorb.simps) (auto simp: st0_def inp0_def absorb.simps [of ?st inp])
    with ab' all have total: "absorb (replicate 25 0) (data @ inp) = (st, inp')" by simp
    then have inp': "length inp' = (r + length inp) mod 136"
      using length_absorb(1) [of ?st "take r ?buf @ inp"] buf all by simp
    let ?ctx' = "ctx\<lparr>ctx_hash := st, ctx_message := memcpy_at msg 0 inp', ctx_rest := ?rest'\<rparr>"
    have "keccak_update al ctx inp = Some ?ctx'"
      using False ub
      by (simp add: keccak_update_def Let_def fin r_def [symmetric] KECCAK_BLOCKLEN_def
          st0_def msg0_def inp0_def split: if_splits)
    moreover have "ctx_repr ?ctx' (data @ inp)"
      using msg inp' rest' total by (simp add: ctx_repr_def memcpy_at_def)
    ultimately show ?thesis by blast
  qed
qed

lemma keccak_init_repr: "ctx_repr keccak_init []"
  by (simp add: ctx_repr_def keccak_init_def)

lemma finish_padding:
  assumes "length buf = 136" "r < 136"
  defines "m \<equiv> memcpy_at buf r (replicate (KECCAK_BLOCKLEN - r) 0)"
  shows "(m[r := m ! r OR 1])[KECCAK_BLOCKLEN - 1 := (m[r := m ! r OR 1]) ! (KECCAK_BLOCKLEN - 1) OR 0x80]
    = keccak_pad 136 (take r buf)"
proof -
  have "replicate (136 - r) (0 :: byte) = 0 # replicate (135 - r) 0"
    using assms by (cases "136 - r") (auto simp: Suc_diff_le)
  then have "m[r := m ! r OR 1] = take r buf @ [1] @ replicate (135 - r) 0"
    using assms by (simp add: m_def memcpy_at_def KECCAK_BLOCKLEN_def list_update_append nth_append)
  then show ?thesis
    using assms(1,2) by (simp add: keccak_pad_def Let_def KECCAK_BLOCKLEN_def)
qed

lemma keccak_finish_repr:
  assumes "ctx_repr ctx data"
  shows "snd (keccak_finish ctx) = cn_fast_hash data"
proof -
  from assms have buf: "length (ctx_message ctx) = 136" "unat (ctx_rest ctx) < 136"
    and ab: "absorb (replicate 25 0) data = (ctx_hash ctx, take (unat (ctx_rest ctx)) (ctx_message ctx))"
    by (simp_all add: ctx_repr_def)
  show ?thesis
    using finish_padding [OF buf] not_finalized [OF buf(2)]
    by (simp add: keccak_finish_def Let_def cn_fast_hash_digest digest_def ab KECCAK_DIGESTSIZE_def)
qed

lemma keccak_feed_repr:
  "ctx_repr ctx data \<Longrightarrow> \<forall>c \<in> set chunks. length (snd c) < 2 ^ 63 \<Longrightarrow>
     \<exists>ctx'. keccak_feed ctx chunks = Some ctx' \<and> ctx_repr ctx' (data @ concat (map snd chunks))"
proof (induction chunks arbitrary: ctx data)
  case (Cons c chunks)
  obtain al inp where c: "c = (al, inp)" by fastforce
  with Cons.prems keccak_update_repr [of ctx data inp al]
  obtain ctx' where "keccak_update al ctx inp = Some ctx'" "ctx_repr ctx' (data @ inp)" by auto
  with Cons.IH [of ctx' "data @ inp"] Cons.prems(2) c show ?case by simp
qed simp

lemma keccak_absorb_stuck:
  assumes "keccak_absorb rsiz st inp = Some r"
  shows "rsiz \<noteq> 0"
  by (rule keccak_absorb.raw_induct [where P = "\<lambda>rsiz st inp r. rsiz \<noteq> 0", OF _ assms])
    (auto split: if_splits)

text \<open>
  C24: The in-place permutation. Twenty-four rounds of \<open>keccakf\<close> are the twenty-four rounds of
  the Keccak specification (theta, rho, pi, chi, iota on the 5 by 5 array of lanes), with the
  rotation offsets and the round constants generated by the specification's own rules.
\<close>

theorem keccakf_correct:
  "length st = 25 \<Longrightarrow> keccakf st KECCAK_ROUNDS = fold spec_round [0..<24] st"
  by (simp only: KECCAK_ROUNDS_def keccakf_rounds order.refl)

theorem keccakf_correct_witness:
  "keccakf (replicate 25 0) KECCAK_ROUNDS = fold spec_round [0..<24] (replicate 25 0)"
  by (rule keccakf_correct) simp

text \<open>
  C23: Hashing in pieces. Feeding a context any sequence of chunks, of any alignment, never
  aborts, and finishing gives \<open>cn_fast_hash\<close> of the chunks' concatenation.
\<close>

theorem keccak_incremental:
  assumes "\<forall>c \<in> set chunks. length (snd c) < 2 ^ 63"
  shows "\<exists>ctx. keccak_feed keccak_init chunks = Some ctx \<and>
     snd (keccak_finish ctx) = cn_fast_hash (concat (map snd chunks))"
  using keccak_feed_repr [OF keccak_init_repr assms] keccak_finish_repr by fastforce

theorem keccak_incremental_witness:
  "\<exists>ctx. keccak_feed keccak_init [(True, [1, 2]), (False, replicate 200 7), (True, [])] = Some ctx \<and>
     snd (keccak_finish ctx) = cn_fast_hash ([1, 2] @ replicate 200 7)"
  using keccak_incremental [of "[(True, [1, 2]), (False, replicate 200 7), (True, [])]"] by simp

text \<open>
  The unguarded block size. With \<open>mdlen = 100\<close>, which the entry check of \<open>keccak\<close> lets
  through, the block size is 0 and the absorbing loop never ends: the check for a zero block
  size stands after the loop.
\<close>

theorem keccak_mdlen_100_diverges:
  "200 - 2 * nat 100 = (0 :: nat) \<and> keccak_absorb (200 - 2 * nat 100) st inp = None \<and> keccak inp 100 = None"
proof -
  have "keccak_absorb 0 st inp = None" for st inp
    using keccak_absorb_stuck [of 0 st inp] by (cases "keccak_absorb 0 st inp") auto
  then show ?thesis by (simp add: keccak_def)
qed

end
