(* ===== verification/Tree_Hash.thy ===== *)
theory Tree_Hash
  imports Keccak
begin

text \<open>
  The Merkle tree over the transaction hashes of a block, from
  \<^verbatim>\<open>src/src/crypto/tree-hash.c\<close>. \<open>hashes\<close> is the array of \<open>count\<close> hashes; \<open>size_t\<close> values
  are naturals, which is exact while \<open>count\<close> is at most \<open>2^63\<close> (the array would be larger
  than the address space beyond that, and the code's own sanity limit is \<open>2^28\<close>). The
  release build compiles the \<open>assert\<close>s out; callers pass at least one hash.

  Shown here: the power-of-two split, that the in-place loops compute the recursive Merkle
  tree, and that the root binds the list of hashes unless
  \<open>cn_fast_hash\<close> collides on inputs that the computation itself exhibits.
\<close>

subsection \<open>The code\<close>

function tree_pow :: "nat \<Rightarrow> nat \<Rightarrow> nat" where
  "tree_pow pow count = (if 0 < pow \<and> pow < count then tree_pow (2 * pow) count else pow)"
  by auto
termination
  by (relation "measure (\<lambda>(pow, count). count - pow)") auto

declare tree_pow.simps [simp del]

definition tree_hash_cnt :: "nat \<Rightarrow> nat" where
  "tree_hash_cnt count = tree_pow 2 count div 2"

definition tree_level :: "nat \<Rightarrow> bytes list \<Rightarrow> bytes list" where
  "tree_level cnt ints =
     fold (\<lambda>j ints. ints[j := cn_fast_hash (ints ! (2 * j) @ ints ! (2 * j + 1))]) [0..<cnt] ints"

function tree_levels :: "nat \<Rightarrow> bytes list \<Rightarrow> bytes list" where
  "tree_levels cnt ints =
     (if 2 < cnt then tree_levels (cnt div 2) (tree_level (cnt div 2) ints) else ints)"
  by auto
termination
  by (relation "measure fst") auto

declare tree_levels.simps [simp del]

definition tree_hash :: "bytes list \<Rightarrow> bytes" where
  "tree_hash hashes =
     (let count = length hashes in
      if count = 1 then hashes ! 0
      else if count = 2 then cn_fast_hash (hashes ! 0 @ hashes ! 1)
      else
        let cnt = tree_hash_cnt count;
            k = 2 * cnt - count;
            ints = take k hashes @ replicate (cnt - k) (replicate 32 0);
            ints = fold (\<lambda>j ints.
              ints[j := cn_fast_hash (hashes ! (k + 2 * (j - k)) @ hashes ! (k + 2 * (j - k) + 1))])
              [k..<cnt] ints;
            ints = tree_levels cnt ints in
        cn_fast_hash (ints ! 0 @ ints ! 1))"

subsection \<open>Reference: the recursive tree\<close>

fun merkle :: "nat \<Rightarrow> bytes list \<Rightarrow> bytes" where
  "merkle 0 xs = xs ! 0"
| "merkle (Suc d) xs = cn_fast_hash (merkle d (take (2 ^ d) xs) @ merkle d (drop (2 ^ d) xs))"

fun pair_up :: "bytes list \<Rightarrow> bytes list" where
  "pair_up [] = []"
| "pair_up [x] = [x]"
| "pair_up (x # y # xs) = cn_fast_hash (x @ y) # pair_up xs"

text \<open>The leaves of the tree of depth \<open>d\<close>: the first hashes as they are, the last ones in pairs.\<close>

definition leaves :: "nat \<Rightarrow> bytes list \<Rightarrow> bytes list" where
  "leaves d hashes = (let k = 2 ^ (d + 1) - length hashes in take k hashes @ pair_up (drop k hashes))"

definition level :: "nat \<Rightarrow> bytes list \<Rightarrow> bytes list" where
  "level n xs = map (\<lambda>j. cn_fast_hash (xs ! (2 * j) @ xs ! (2 * j + 1))) [0..<n]"

fun tree_depth :: "nat \<Rightarrow> nat" where
  "tree_depth n = (if n \<le> 2 then 0 else Suc (tree_depth ((n + 1) div 2)))"

declare tree_depth.simps [simp del]

text \<open>
  The inputs that \<open>cn_fast_hash\<close> is called on. Two lists of inputs \<open>clash\<close> when an input of one
  and a different input of the other have the same hash.
\<close>

fun merkle_inputs :: "nat \<Rightarrow> bytes list \<Rightarrow> bytes list" where
  "merkle_inputs 0 xs = []"
| "merkle_inputs (Suc d) xs = (merkle d (take (2 ^ d) xs) @ merkle d (drop (2 ^ d) xs)) #
     merkle_inputs d (take (2 ^ d) xs) @ merkle_inputs d (drop (2 ^ d) xs)"

fun pair_inputs :: "bytes list \<Rightarrow> bytes list" where
  "pair_inputs (x # y # xs) = (x @ y) # pair_inputs xs"
| "pair_inputs xs = []"

definition tree_inputs :: "nat \<Rightarrow> bytes list \<Rightarrow> bytes list" where
  "tree_inputs d hashes =
     merkle_inputs d (leaves d hashes) @ pair_inputs (drop (2 ^ (d + 1) - length hashes) hashes)"

definition clash :: "bytes list \<Rightarrow> bytes list \<Rightarrow> bool" where
  "clash as bs \<longleftrightarrow> list_ex (\<lambda>a. list_ex (\<lambda>b. a \<noteq> b \<and> cn_fast_hash a = cn_fast_hash b) bs) as"

subsection \<open>The split\<close>

lemma tree_pow_power:
  "pow = 2 ^ m \<Longrightarrow> m \<noteq> 0 \<Longrightarrow> 2 ^ (m - 1) < count \<Longrightarrow>
     \<exists>d \<noteq> 0. tree_pow pow count = 2 ^ d \<and> count \<le> 2 ^ d \<and> 2 ^ (d - 1) < count"
proof (induction pow count arbitrary: m rule: tree_pow.induct)
  case (1 pow count)
  show ?case
  proof (cases "pow < count")
    case True
    with 1(1) [of "Suc m"] 1(2,3) show ?thesis
      by (subst tree_pow.simps) simp
  next
    case False
    with 1 show ?thesis by (subst tree_pow.simps) auto
  qed
qed

lemma tree_hash_cnt_power:
  assumes "2 < count"
  obtains d where "0 < d" "tree_hash_cnt count = 2 ^ d" "2 ^ d < count" "count \<le> 2 ^ (d + 1)"
proof -
  obtain e where e: "e \<noteq> 0" "tree_pow 2 count = 2 ^ e" "count \<le> 2 ^ e" "2 ^ (e - 1) < count"
    using tree_pow_power [of 2 1 count] assms by auto
  then obtain d where d: "e = Suc d" by (cases e) auto
  with e assms have "d \<noteq> 0" by (cases d) auto
  with e d that [of d] show ?thesis by (simp add: tree_hash_cnt_def)
qed

lemma split_unique:
  assumes "2 ^ d < n" "n \<le> (2 :: nat) ^ (d + 1)" "2 ^ e < n" "n \<le> 2 ^ (e + 1)"
  shows "d = e"
proof (rule ccontr)
  assume "d \<noteq> e"
  then consider "d + 1 \<le> e" | "e + 1 \<le> d" by linarith
  then show False
  proof cases
    case 1
    then have "(2 :: nat) ^ (d + 1) \<le> 2 ^ e" by (rule power_increasing) simp
    with assms show False by linarith
  next
    case 2
    then have "(2 :: nat) ^ (e + 1) \<le> 2 ^ d" by (rule power_increasing) simp
    with assms show False by linarith
  qed
qed

subsection \<open>The loops compute the tree\<close>

lemma tree_level_prefix:
  "2 * n \<le> length xs \<Longrightarrow>
     tree_level n xs = map (\<lambda>j. cn_fast_hash (xs ! (2 * j) @ xs ! (2 * j + 1))) [0..<n] @ drop n xs"
proof (induction n)
  case (Suc n)
  let ?f = "\<lambda>j. cn_fast_hash (xs ! (2 * j) @ xs ! (2 * j + 1))"
  from Suc have ih: "tree_level n xs = map ?f [0..<n] @ drop n xs" by simp
  have "n < length xs" using Suc.prems by simp
  then have "drop n xs = xs ! n # drop (Suc n) xs" by (simp add: Cons_nth_drop_Suc)
  moreover have "tree_level n xs ! (2 * n) = xs ! (2 * n)" "tree_level n xs ! (2 * n + 1) = xs ! (2 * n + 1)"
    using Suc.prems by (simp_all add: ih nth_append mult_2)
  ultimately show ?case
    using ih by (simp add: tree_level_def list_update_append)
qed (simp add: tree_level_def)

lemma merkle_level: "length xs = 2 ^ (d + 1) \<Longrightarrow> merkle (Suc d) xs = merkle d (level (2 ^ d) xs)"
proof (induction d arbitrary: xs)
  case 0
  then show ?case by (simp add: level_def)
next
  case (Suc d)
  let ?h = "2 ^ Suc d :: nat"
  have len: "length (take ?h xs) = 2 ^ (d + 1)" "length (drop ?h xs) = 2 ^ (d + 1)"
    using Suc.prems by simp_all
  have "take (2 ^ d) (level ?h xs) = level (2 ^ d) (take ?h xs)"
    "drop (2 ^ d) (level ?h xs) = level (2 ^ d) (drop ?h xs)"
    using Suc.prems by (auto simp: level_def take_map drop_map intro!: nth_equalityI)
  then have "merkle (Suc d) (level ?h xs) =
      cn_fast_hash (merkle d (level (2 ^ d) (take ?h xs)) @ merkle d (level (2 ^ d) (drop ?h xs)))"
    by simp
  also have "\<dots> = cn_fast_hash (merkle (Suc d) (take ?h xs) @ merkle (Suc d) (drop ?h xs))"
    by (simp only: Suc.IH [OF len(1)] Suc.IH [OF len(2)])
  also have "\<dots> = merkle (Suc (Suc d)) xs" by (simp only: merkle.simps(2) [of "Suc d"])
  finally show ?case by simp
qed

lemma tree_levels_merkle:
  "0 < d \<Longrightarrow> 2 ^ d \<le> length xs \<Longrightarrow>
     cn_fast_hash (tree_levels (2 ^ d) xs ! 0 @ tree_levels (2 ^ d) xs ! 1) = merkle d (take (2 ^ d) xs)"
proof (induction d arbitrary: xs)
  case (Suc d)
  show ?case
  proof (cases "d = 0")
    case True
    then show ?thesis using Suc.prems by (subst (1 2) tree_levels.simps) simp
  next
    case False
    then have "1 < (2 :: nat) ^ d" by (intro one_less_power) simp_all
    then have "2 < (2 :: nat) ^ Suc d" by simp
    then have step: "tree_levels (2 ^ Suc d) xs = tree_levels (2 ^ d) (tree_level (2 ^ d) xs)"
      by (subst tree_levels.simps) simp
    have tl: "tree_level (2 ^ d) xs = level (2 ^ d) xs @ drop (2 ^ d) xs"
      using Suc.prems tree_level_prefix [of "2 ^ d" xs] by (simp add: level_def)
    then have "cn_fast_hash (tree_levels (2 ^ Suc d) xs ! 0 @ tree_levels (2 ^ Suc d) xs ! 1)
        = merkle d (take (2 ^ d) (level (2 ^ d) xs @ drop (2 ^ d) xs))"
      using Suc.IH [of "tree_level (2 ^ d) xs"] False step by (simp add: level_def)
    also have "take (2 ^ d) (level (2 ^ d) xs @ drop (2 ^ d) xs) = level (2 ^ d) (take (2 ^ Suc d) xs)"
      by (simp add: level_def)
    also have "merkle d \<dots> = merkle (Suc d) (take (2 ^ Suc d) xs)"
      using Suc.prems by (subst merkle_level) simp_all
    finally show ?thesis .
  qed
qed simp

lemma fold_fill:
  "k \<le> n \<Longrightarrow> n \<le> length xs \<Longrightarrow>
     fold (\<lambda>j xs. xs[j := g j]) [k..<n] xs = take k xs @ map g [k..<n] @ drop n xs"
proof (induction n)
  case (Suc n)
  show ?case
  proof (cases "k = Suc n")
    case False
    with Suc have "fold (\<lambda>j xs. xs[j := g j]) [k..<n] xs = take k xs @ map g [k..<n] @ drop n xs" by simp
    moreover from Suc have "drop n xs = xs ! n # drop (Suc n) xs" by (simp add: Cons_nth_drop_Suc)
    ultimately show ?thesis
      using False Suc.prems by (simp add: list_update_append min_def)
  qed simp
qed simp

lemma pair_up_map:
  "length xs = 2 * m \<Longrightarrow> pair_up xs = map (\<lambda>j. cn_fast_hash (xs ! (2 * j) @ xs ! (2 * j + 1))) [0..<m]"
proof (induction xs arbitrary: m rule: pair_up.induct)
  case (3 x y xs)
  then obtain m' where "m = Suc m'" "length xs = 2 * m'" by (cases m) auto
  with 3 show ?case by (simp add: upt_conv_Cons map_Suc_upt [symmetric] del: upt_Suc)
next
  case (2 x)
  then show ?case by (simp add: mult_2 nat_neq_iff) presburger
qed simp_all

lemma tree_hash_merkle:
  assumes "2 ^ d < length hashes" "length hashes \<le> 2 ^ (d + 1)"
  shows "tree_hash hashes = merkle d (leaves d hashes)"
proof (cases "length hashes = 2")
  case True
  with assms have "d = 0" using split_unique [of 0 2 d] by simp
  moreover from True obtain a b where "hashes = [a, b]"
    by (auto simp: length_Suc_conv numeral_2_eq_2)
  ultimately show ?thesis by (simp add: tree_hash_def leaves_def)
next
  case False
  have "1 \<le> (2 :: nat) ^ d" by simp
  with assms False have big: "2 < length hashes" by linarith
  obtain e where e: "0 < e" "tree_hash_cnt (length hashes) = 2 ^ e" "2 ^ e < length hashes" "length hashes \<le> 2 ^ (e + 1)"
    using big by (rule tree_hash_cnt_power)
  have [simp]: "e = d" using split_unique [OF e(3,4) assms] by simp
  define k where "k = 2 ^ (d + 1) - length hashes"
  let ?n = "2 ^ d :: nat"
  have k: "k \<le> ?n" "length hashes = k + 2 * (?n - k)"
    using assms by (simp_all add: k_def)
  let ?g = "\<lambda>j. cn_fast_hash (hashes ! (k + 2 * (j - k)) @ hashes ! (k + 2 * (j - k) + 1))"
  let ?ints = "take k hashes @ replicate (?n - k) (replicate 32 0)"
  have "length ?ints = ?n" using k by simp
  then have "fold (\<lambda>j ints. ints[j := ?g j]) [k..<?n] ?ints = take k hashes @ map ?g [k..<?n]"
    using k fold_fill [of k ?n ?ints ?g] by simp
  also have "map ?g [k..<?n] = pair_up (drop k hashes)"
    using k by (subst pair_up_map [of _ "?n - k"]) (auto intro!: nth_equalityI)
  finally have fill: "fold (\<lambda>j ints. ints[j := ?g j]) [k..<?n] ?ints = leaves d hashes"
    by (simp add: leaves_def k_def Let_def)
  have "length (leaves d hashes) = ?n"
    unfolding fill [symmetric] using k fold_fill [of k ?n ?ints ?g] by simp
  then show ?thesis
    using tree_levels_merkle [of d "leaves d hashes"] e big fill
    by (simp add: tree_hash_def Let_def k_def)
qed

subsection \<open>The root binds the hashes\<close>

lemma clash_mono: "clash as bs \<Longrightarrow> set as \<subseteq> set as' \<Longrightarrow> set bs \<subseteq> set bs' \<Longrightarrow> clash as' bs'"
  by (force simp: clash_def list_ex_iff)

lemma hash_pair_inj:
  assumes "cn_fast_hash (a @ b) = cn_fast_hash (c @ d)" "length a = length c"
  shows "clash ((a @ b) # as) ((c @ d) # bs) \<or> a = c \<and> b = d"
  using assms by (cases "a @ b = c @ d") (auto simp: clash_def)

lemma length_merkle:
  "length xs = 2 ^ d \<Longrightarrow> list_all (\<lambda>x. length x = 32) xs \<Longrightarrow> length (merkle d xs) = 32"
  by (cases d; cases xs) simp_all

lemma merkle_inj:
  "merkle d xs = merkle d ys \<Longrightarrow> length xs = 2 ^ d \<Longrightarrow> length ys = 2 ^ d \<Longrightarrow>
     list_all (\<lambda>x. length x = 32) xs \<Longrightarrow> list_all (\<lambda>x. length x = 32) ys \<Longrightarrow>
     clash (merkle_inputs d xs) (merkle_inputs d ys) \<or> xs = ys"
proof (induction d arbitrary: xs ys)
  case 0
  then show ?case by (cases xs; cases ys) auto
next
  case (Suc d)
  let ?h = "2 ^ d :: nat"
  let ?in = "merkle_inputs (Suc d)"
  have len: "length (take ?h xs) = ?h" "length (drop ?h xs) = ?h" "length (take ?h ys) = ?h" "length (drop ?h ys) = ?h"
    using Suc.prems by simp_all
  have all: "list_all (\<lambda>x. length x = 32) (take ?h zs)" "list_all (\<lambda>x. length x = 32) (drop ?h zs)"
    if "list_all (\<lambda>x. length x = 32) zs" for zs :: "bytes list"
    using that by (auto simp: list_all_iff dest: in_set_takeD in_set_dropD)
  have top: "clash (?in xs) (?in ys) \<or> merkle d (take ?h xs) = merkle d (take ?h ys) \<and> merkle d (drop ?h xs) = merkle d (drop ?h ys)"
    using Suc.prems len all unfolding merkle_inputs.simps
    by (intro hash_pair_inj) (simp_all add: length_merkle)
  have l: "clash (?in xs) (?in ys)" if "clash (merkle_inputs d (take ?h xs)) (merkle_inputs d (take ?h ys))"
    by (rule clash_mono [OF that]) auto
  have r: "clash (?in xs) (?in ys)" if "clash (merkle_inputs d (drop ?h xs)) (merkle_inputs d (drop ?h ys))"
    by (rule clash_mono [OF that]) auto
  from top have "clash (?in xs) (?in ys) \<or> take ?h xs = take ?h ys \<and> drop ?h xs = drop ?h ys"
    using Suc.IH [OF _ len(1,3) all(1) all(1)] Suc.IH [OF _ len(2,4) all(2) all(2)] Suc.prems l r by blast
  then show ?case using append_take_drop_id [of ?h xs] append_take_drop_id [of ?h ys] by metis
qed

lemma pair_up_inj:
  "pair_up xs = pair_up ys \<Longrightarrow> length xs = length ys \<Longrightarrow> even (length xs) \<Longrightarrow>
     list_all (\<lambda>x. length x = 32) xs \<Longrightarrow> list_all (\<lambda>x. length x = 32) ys \<Longrightarrow>
     clash (pair_inputs xs) (pair_inputs ys) \<or> xs = ys"
proof (induction xs arbitrary: ys rule: pair_up.induct)
  case (3 x y xs)
  then obtain x' y' ys' where ys: "ys = x' # y' # ys'"
    by (metis length_0_conv length_Cons list.exhaust nat.distinct(1) nat.inject)
  with 3 have eq: "cn_fast_hash (x @ y) = cn_fast_hash (x' @ y')" "pair_up xs = pair_up ys'" by simp_all
  have "clash ((x @ y) # pair_inputs xs) ((x' @ y') # pair_inputs ys')"
    if "clash (pair_inputs xs) (pair_inputs ys')"
    by (rule clash_mono [OF that]) auto
  with ys 3(1) [of ys'] 3(3-) eq hash_pair_inj [of x y x' y' "pair_inputs xs" "pair_inputs ys'"]
  show ?case by auto
next
  case (2 x)
  then have False by (metis even_Suc length_Cons list.size(3) even_zero)
  then show ?case ..
qed auto

lemma length_pair_up: "even (length xs) \<Longrightarrow> 2 * length (pair_up xs) = length xs"
  by (induction xs rule: pair_up.induct) auto

lemma pair_up_wf: "list_all (\<lambda>x. length x = 32) xs \<Longrightarrow> list_all (\<lambda>x. length x = 32) (pair_up xs)"
  by (induction xs rule: pair_up.induct) auto

lemma leaves_props:
  assumes "2 ^ d < length hs" "length hs \<le> 2 ^ (d + 1)" "list_all (\<lambda>x. length x = 32) hs"
  shows "length (leaves d hs) = 2 ^ d" "list_all (\<lambda>x. length x = 32) (leaves d hs)"
    "even (length (drop (2 ^ (d + 1) - length hs) hs))"
proof -
  let ?k = "2 ^ (d + 1) - length hs"
  have l: "length (drop ?k hs) = 2 * (length hs - 2 ^ d)" using assms by simp
  then show "even (length (drop ?k hs))" by simp
  from length_pair_up [OF this] l have "length (pair_up (drop ?k hs)) = length hs - 2 ^ d" by simp
  then show "length (leaves d hs) = 2 ^ d"
    using assms by (simp add: leaves_def Let_def)
  show "list_all (\<lambda>x. length x = 32) (leaves d hs)"
    using assms(3) by (auto simp: leaves_def Let_def list_all_iff dest: in_set_takeD
        intro: pair_up_wf [unfolded list_all_iff, rule_format] in_set_dropD)
qed

lemma leaves_inj:
  assumes "leaves d xs = leaves d ys" "length xs = length ys"
    and "2 ^ d < length xs" "length xs \<le> 2 ^ (d + 1)"
    and "list_all (\<lambda>x. length x = 32) xs" "list_all (\<lambda>x. length x = 32) ys"
  shows "clash (pair_inputs (drop (2 ^ (d + 1) - length xs) xs)) (pair_inputs (drop (2 ^ (d + 1) - length ys) ys)) \<or> xs = ys"
proof -
  let ?k = "2 ^ (d + 1) - length xs"
  have "take ?k xs = take ?k ys" "pair_up (drop ?k xs) = pair_up (drop ?k ys)"
    using assms(1,2,4) by (simp_all add: leaves_def Let_def)
  moreover have "list_all (\<lambda>x. length x = 32) (drop ?k xs)" "list_all (\<lambda>x. length x = 32) (drop ?k ys)"
    using assms(5,6) by (auto simp: list_all_iff dest: in_set_dropD)
  moreover have "even (length (drop ?k xs))" using leaves_props(3) [OF assms(3,4,5)] .
  ultimately have "take ?k xs = take ?k ys" "clash (pair_inputs (drop ?k xs)) (pair_inputs (drop ?k ys)) \<or> drop ?k xs = drop ?k ys"
    using pair_up_inj [of "drop ?k xs" "drop ?k ys"] assms(2) by auto
  then show ?thesis
    using append_take_drop_id [of ?k xs] append_take_drop_id [of ?k ys] assms(2) by metis
qed

lemma tree_hash_inj:
  assumes "tree_hash xs = tree_hash ys" "length xs = length ys"
    and d: "2 ^ d < length xs" "length xs \<le> 2 ^ (d + 1)"
    and wf: "list_all (\<lambda>x. length x = 32) xs" "list_all (\<lambda>x. length x = 32) ys"
  shows "clash (tree_inputs d xs) (tree_inputs d ys) \<or> xs = ys"
proof -
  have mono: "clash (tree_inputs d xs) (tree_inputs d ys)"
    if "clash as bs" "set as \<subseteq> set (tree_inputs d xs)" "set bs \<subseteq> set (tree_inputs d ys)" for as bs
    by (rule clash_mono [OF that])
  have "merkle d (leaves d xs) = merkle d (leaves d ys)"
    using assms by (simp add: tree_hash_merkle)
  with leaves_props [OF d wf(1)] leaves_props [of d ys] d assms(2) wf(2)
  have "clash (merkle_inputs d (leaves d xs)) (merkle_inputs d (leaves d ys)) \<or> leaves d xs = leaves d ys"
    by (intro merkle_inj) simp_all
  then show ?thesis
    using leaves_inj [OF _ assms(2) d wf] mono by (auto simp: tree_inputs_def)
qed

lemma tree_depth_bounds: "2 \<le> n \<Longrightarrow> 2 ^ tree_depth n < n \<and> n \<le> 2 ^ (tree_depth n + 1)"
proof (induction n rule: tree_depth.induct)
  case (1 n)
  show ?case
  proof (cases "n \<le> 2")
    case True
    with 1 show ?thesis by (subst (1 2) tree_depth.simps) auto
  next
    case False
    let ?m = "(n + 1) div 2"
    from False 1 have "2 ^ tree_depth ?m < ?m \<and> ?m \<le> 2 ^ (tree_depth ?m + 1)" by simp
    moreover from False have "tree_depth n = Suc (tree_depth ?m)" by (simp add: tree_depth.simps [of n])
    ultimately show ?thesis by auto
  qed
qed

lemma tree_hash_inj_depth:
  assumes "tree_hash xs = tree_hash ys" "length xs = length ys" "xs \<noteq> []"
    and wf: "list_all (\<lambda>x. length x = 32) xs" "list_all (\<lambda>x. length x = 32) ys"
  shows "clash (tree_inputs (tree_depth (length xs)) xs) (tree_inputs (tree_depth (length xs)) ys) \<or> xs = ys"
proof (cases "length xs = 1")
  case True
  then obtain x y where "xs = [x]" "ys = [y]" using assms(2) by (auto simp: length_Suc_conv)
  with assms(1) show ?thesis by (simp add: tree_hash_def)
next
  case False
  with assms(3) have "2 \<le> length xs" by (cases xs) (auto simp: Suc_le_eq)
  from tree_depth_bounds [OF this] tree_hash_inj [OF assms(1,2) _ _ wf] show ?thesis by simp
qed

text \<open>
  C25: The Merkle root. For a block with at least two hashes, the in-place pairing loops of
  \<open>tree_hash\<close> compute the recursive Merkle tree: with \<open>2^d < count \<le> 2^(d+1)\<close>, the last hashes
  are paired so that \<open>2^d\<close> leaves remain, and the perfect tree over them is hashed.
\<close>

theorem tree_hash_is_merkle:
  "2 ^ d < length hashes \<Longrightarrow> length hashes \<le> 2 ^ (d + 1) \<Longrightarrow> tree_hash hashes = merkle d (leaves d hashes)"
  by (rule tree_hash_merkle)

theorem tree_hash_is_merkle_witness:
  "tree_hash [replicate 32 1, replicate 32 2, replicate 32 3] =
     cn_fast_hash (replicate 32 1 @ cn_fast_hash (replicate 32 2 @ replicate 32 3))"
  using tree_hash_is_merkle [of 1 "[replicate 32 1, replicate 32 2, replicate 32 3]"]
  by (simp add: leaves_def)

text \<open>
  C26: The Merkle root binds the transactions. Two lists of the same number of 32-byte hashes
  with the same \<open>tree_hash\<close> are equal, unless among the inputs that the two calls feed to
  \<open>cn_fast_hash\<close> there are two different ones with the same hash: an attacker who swaps
  transactions under a root has found a collision, and the two calls exhibit it.
\<close>

theorem tree_hash_binding:
  assumes "tree_hash xs = tree_hash ys" "length xs = length ys" "xs \<noteq> []"
    and "list_all (\<lambda>x. length x = 32) xs" "list_all (\<lambda>x. length x = 32) ys"
  shows "clash (tree_inputs (tree_depth (length xs)) xs) (tree_inputs (tree_depth (length xs)) ys) \<or> xs = ys"
  using assms by (rule tree_hash_inj_depth)

theorem tree_hash_binding_witness:
  "let xs = replicate 3 (replicate 32 1); ys = [replicate 32 1, replicate 32 1, replicate 32 1] in
    clash (tree_inputs (tree_depth (length xs)) xs) (tree_inputs (tree_depth (length xs)) ys) \<or> xs = ys"
  unfolding Let_def by (rule tree_hash_binding) (simp_all add: numeral_3_eq_3)

end
