(* ===== verification/Tx_Hash.thy ===== *)
theory Tx_Hash
  imports Cryptonote_Basic Tree_Hash
begin

text \<open>
  Parsing and hashing of transactions and blocks, from
  \<^verbatim>\<open>src/src/cryptonote_basic/cryptonote_format_utils.cpp\<close> (and the templates of the header).
  Functions that fill the mutable hash caches return the updated object beside the result.
  The two statistics counters and the log messages are left out, and the optional
  \<open>ENABLE_HASH_CASH_INTEGRITY_CHECK\<close> is not compiled in. The parsers read into a
  default-constructed object.

  Shown here: parsing a blob of a block gives the block back; the block and transaction
  hashes, computed through the caches, are the hashes of the current contents as long as
  the caches are coherent, and every operation keeps them so; the hash of a pruned
  transaction is the hash of the whole one; the id of a block binds its header and its
  transactions.
\<close>

subsection \<open>Parsing\<close>

definition null_hash :: bytes where "null_hash = replicate 32 0"

definition is_coinbase :: "transaction \<Rightarrow> bool" where
  "is_coinbase tx = (case vin tx of [txin_gen height] \<Rightarrow> True | _ \<Rightarrow> False)"

fun is_txout_to_key :: "txout_target_v \<Rightarrow> bool" where
  "is_txout_to_key (txout_to_key k) = True"
| "is_txout_to_key _ = False"

fun txout_key :: "txout_target_v \<Rightarrow> bytes" where
  "txout_key (txout_to_key k) = k"
| "txout_key _ = []"

text \<open>
  \<open>mult8\<close> stands for \<open>scalarmultKey(_, INV_EIGHT)\<close> of the curve arithmetic. The shift
  \<open>1 << (L.size() - 6)\<close> is done on \<open>int\<close>; it is written without wrap-around, which agrees for
  the sizes up to 10 that loading a transaction with outputs lets through.
\<close>

definition expand_transaction_1 :: "(bytes \<Rightarrow> bytes) \<Rightarrow> bool \<Rightarrow> transaction \<Rightarrow> transaction option" where
  "expand_transaction_1 mult8 base_only tx =
     (if 2 \<le> version tx \<and> \<not> is_coinbase tx then
        let rv = rct_signatures tx in
        if length (outPk rv) \<noteq> length (vout tx) then None
        else if \<not> list_all (\<lambda>out. is_txout_to_key (target out)) (vout tx) then None
        else
          let rv = rv\<lparr>outPk := map (\<lambda>(pk, out). pk\<lparr>dest := txout_key (target out)\<rparr>) (zip (outPk rv) (vout tx))\<rparr> in
          if base_only \<or> \<not> is_rct_bulletproof (rct_type rv) then Some (tx\<lparr>rct_signatures := rv\<rparr>)
          else (case bulletproofs (prunable rv) of
            [bp] \<Rightarrow>
              if length (bp_L bp) < 6 then None
              else if 2 ^ (length (bp_L bp) - 6) < length (vout tx) then None
              else Some (tx\<lparr>rct_signatures := rv\<lparr>prunable := (prunable rv)\<lparr>bulletproofs :=
                     [bp\<lparr>bp_V := map (\<lambda>pk. mult8 (mask pk)) (outPk rv)\<rparr>]\<rparr>\<rparr>\<rparr>)
          | _ \<Rightarrow> None)
      else Some tx)"

definition parse_and_validate_tx_from_blob :: "(bytes \<Rightarrow> bytes) \<Rightarrow> bytes \<Rightarrow> transaction option" where
  "parse_and_validate_tx_from_blob mult8 tx_blob = do {
     tx \<leftarrow> load_all load_transaction tx_blob;
     tx \<leftarrow> expand_transaction_1 mult8 False tx;
     Some (tx_invalidate_hashes tx) }"

text \<open>Only the base is read; the bytes that follow it are ignored.\<close>

definition parse_and_validate_tx_base_from_blob :: "(bytes \<Rightarrow> bytes) \<Rightarrow> bytes \<Rightarrow> transaction option" where
  "parse_and_validate_tx_base_from_blob mult8 tx_blob = do {
     (tx, rest) \<leftarrow> load_base tx_blob;
     expand_transaction_1 mult8 True tx }"

definition parse_and_validate_block_from_blob :: "bytes \<Rightarrow> block option" where
  "parse_and_validate_block_from_blob b_blob = do {
     b \<leftarrow> load_all load_block b_blob;
     let b = block_invalidate_hashes b;
     Some (b\<lparr>miner_tx := tx_invalidate_hashes (miner_tx b)\<rparr>) }"

definition tx_to_blob :: "transaction \<Rightarrow> bytes" where
  "tx_to_blob tx = object_to_blob (save_transaction tx)"

definition block_to_blob :: "block \<Rightarrow> bytes" where
  "block_to_blob b = object_to_blob (save_block b)"

subsection \<open>Transaction hashes\<close>

definition get_object_hash :: "saved \<Rightarrow> bytes" where
  "get_object_hash obj = cn_fast_hash (object_to_blob obj)"

definition get_object_blobsize :: "saved \<Rightarrow> u64" where
  "get_object_blobsize obj = of_nat (length (object_to_blob obj))"

definition get_transaction_prefix_hash :: "'a transaction_prefix_scheme \<Rightarrow> bytes" where
  "get_transaction_prefix_hash tx = cn_fast_hash (snd (save_prefix tx))"

definition calculate_transaction_prunable_hash :: "transaction \<Rightarrow> bytes option" where
  "calculate_transaction_prunable_hash t =
     (if version t = 1 then None
      else
        let r = save_rctsig_prunable (prunable (rct_signatures t)) (rct_type (rct_signatures t))
                  (length (vin t)) (length (vout t)) (tx_mixin (vin t)) in
        if \<not> fst r then None else Some (cn_fast_hash (snd r)))"

definition get_pruned_transaction_hash :: "transaction \<Rightarrow> bytes \<Rightarrow> bytes option" where
  "get_pruned_transaction_hash t pruned_data_hash =
     (if \<not> 1 < version t then None
      else
        let r = save_rctsig_base (rct_signatures t) (length (vin t)) (length (vout t)) in
        if \<not> fst r then None
        else Some (cn_fast_hash (get_transaction_prefix_hash t @ cn_fast_hash (snd r) @ pruned_data_hash)))"

definition calculate_transaction_hash :: "transaction \<Rightarrow> (bytes \<times> u64) option" where
  "calculate_transaction_hash t =
     (if version t = 1 then
        Some (get_object_hash (save_transaction t), get_object_blobsize (save_transaction t))
      else do {
        let hash0 = get_transaction_prefix_hash t;
        let r = save_rctsig_base (rct_signatures t) (length (vin t)) (length (vout t));
        hash1 \<leftarrow> (if \<not> fst r then None else Some (cn_fast_hash (snd r)));
        hash2 \<leftarrow> (if rct_type (rct_signatures t) = RCTTypeNull then Some null_hash
                  else calculate_transaction_prunable_hash t);
        Some (cn_fast_hash (hash0 @ hash1 @ hash2), get_object_blobsize (save_transaction t)) })"

definition get_transaction_hash :: "bool \<Rightarrow> transaction \<Rightarrow> (bytes \<times> u64 option) option \<times> transaction" where
  "get_transaction_hash want_size t = (case tx_hash_cache t of
     Some h \<Rightarrow>
       if want_size then (case blob_size_cache t of
           Some n \<Rightarrow> (Some (h, Some n), t)
         | None \<Rightarrow> let n = get_object_blobsize (save_transaction t) in
             (Some (h, Some n), t\<lparr>blob_size_cache := Some n\<rparr>))
       else (Some (h, None), t)
   | None \<Rightarrow> (case calculate_transaction_hash t of
       None \<Rightarrow> (None, t)
     | Some (h, n) \<Rightarrow>
         if want_size
         then (Some (h, Some n), t\<lparr>tx_hash_cache := Some h, blob_size_cache := Some n\<rparr>)
         else (Some (h, None), t\<lparr>tx_hash_cache := Some h\<rparr>)))"

subsection \<open>Block hashes\<close>

definition get_tx_tree_hash :: "block \<Rightarrow> bytes \<times> block" where
  "get_tx_tree_hash b =
     (let (r, tx) = get_transaction_hash True (miner_tx b);
          h = (case r of Some (h, _) \<Rightarrow> h | None \<Rightarrow> null_hash) in
      (tree_hash (h # tx_hashes b), b\<lparr>miner_tx := tx\<rparr>))"

definition get_block_hashing_blob :: "block \<Rightarrow> bytes \<times> block" where
  "get_block_hashing_blob b =
     (let blob = object_to_blob (save_block_header b);
          (tree_root_hash, b) = get_tx_tree_hash b in
      (blob @ tree_root_hash @ write_varint (of_nat (length (tx_hashes b)) + 1 :: u64), b))"

definition calculate_block_hash :: "block \<Rightarrow> bytes \<times> block" where
  "calculate_block_hash b =
     (let (blob, b) = get_block_hashing_blob b in (get_object_hash (save_string blob), b))"

definition get_block_hash :: "block \<Rightarrow> bytes \<times> block" where
  "get_block_hash b = (case block_hash_cache b of
     Some h \<Rightarrow> (h, b)
   | None \<Rightarrow> let (h, b) = calculate_block_hash b in (h, b\<lparr>block_hash_cache := Some h\<rparr>))"

definition longhash_variant :: "u8 \<Rightarrow> nat" where
  "longhash_variant major =
     (if major < 7 then 0
      else if major = 7 \<or> major = 8 \<or> major = 9 then 1
      else if major = 10 \<or> major = 11 then 2
      else 3)"

text \<open>\<open>cn_slow_hash\<close> is the proof-of-work hash.\<close>

definition get_block_longhash :: "(bytes \<Rightarrow> nat \<Rightarrow> bytes) \<Rightarrow> block \<Rightarrow> bytes" where
  "get_block_longhash cn_slow_hash b =
     cn_slow_hash (fst (get_block_hashing_blob b)) (longhash_variant (major_version b))"

definition get_block_height :: "block \<Rightarrow> u64" where
  "get_block_height b = (case vin (miner_tx b) of [txin_gen height] \<Rightarrow> height | _ \<Rightarrow> 0)"

subsection \<open>Reference: the hashes of the contents\<close>

definition tx_id :: "transaction \<Rightarrow> bytes option" where
  "tx_id t = map_option fst (calculate_transaction_hash t)"

definition miner_hash :: "block \<Rightarrow> bytes" where
  "miner_hash b = (case tx_id (miner_tx b) of Some h \<Rightarrow> h | None \<Rightarrow> null_hash)"

definition block_tree :: "block \<Rightarrow> bytes list" where
  "block_tree b = miner_hash b # tx_hashes b"

definition block_blob :: "block \<Rightarrow> bytes" where
  "block_blob b = snd (save_block_header b) @ tree_hash (block_tree b)
     @ write_varint (of_nat (length (tx_hashes b)) + 1 :: u64)"

definition block_id :: "block \<Rightarrow> bytes" where
  "block_id b = cn_fast_hash (snd (save_string (block_blob b)))"

text \<open>A cache is coherent when it is empty or holds the value of the current contents.\<close>

definition tx_cache_ok :: "transaction \<Rightarrow> bool" where
  "tx_cache_ok t \<longleftrightarrow>
     (tx_hash_cache t = None \<or> tx_hash_cache t = tx_id t) \<and>
     (blob_size_cache t = None \<or> blob_size_cache t = Some (get_object_blobsize (save_transaction t)))"

definition block_cache_ok :: "block \<Rightarrow> bool" where
  "block_cache_ok b \<longleftrightarrow> (block_hash_cache b = None \<or> block_hash_cache b = Some (block_id b)) \<and> tx_cache_ok (miner_tx b)"

subsection \<open>The caches do not change what is hashed\<close>

lemma save_transaction_caches [simp]:
  "save_transaction (t\<lparr>tx_hash_cache := h\<rparr>) = save_transaction t"
  "save_transaction (t\<lparr>blob_size_cache := n\<rparr>) = save_transaction t"
  by (simp_all add: save_transaction_def save_prefix_def)

lemma calculate_transaction_hash_caches [simp]:
  "calculate_transaction_hash (t\<lparr>tx_hash_cache := h\<rparr>) = calculate_transaction_hash t"
  "calculate_transaction_hash (t\<lparr>blob_size_cache := n\<rparr>) = calculate_transaction_hash t"
  by (simp_all add: calculate_transaction_hash_def calculate_transaction_prunable_hash_def
      get_transaction_prefix_hash_def save_prefix_def cong: if_cong)

lemma tx_id_caches [simp]:
  "tx_id (t\<lparr>tx_hash_cache := h\<rparr>) = tx_id t" "tx_id (t\<lparr>blob_size_cache := n\<rparr>) = tx_id t"
  "tx_id (tx_invalidate_hashes t) = tx_id t"
  by (simp_all add: tx_id_def tx_invalidate_hashes_def)

lemma calculate_size: "calculate_transaction_hash t = Some (h, n) \<Longrightarrow> n = get_object_blobsize (save_transaction t)"
  by (auto simp: calculate_transaction_hash_def bind_eq_Some_conv Let_def split: if_splits)

lemma get_transaction_hash_coherent:
  assumes "tx_cache_ok t"
  shows "map_option fst (fst (get_transaction_hash w t)) = tx_id t"
    and "tx_cache_ok (snd (get_transaction_hash w t))"
    and "tx_invalidate_hashes (snd (get_transaction_hash w t)) = tx_invalidate_hashes t"
proof -
  show "map_option fst (fst (get_transaction_hash w t)) = tx_id t"
    using assms
    by (auto simp: get_transaction_hash_def tx_cache_ok_def tx_id_def Let_def split: option.splits)
  show "tx_cache_ok (snd (get_transaction_hash w t))"
    using assms calculate_size [of t]
    by (auto simp: get_transaction_hash_def tx_cache_ok_def Let_def split: option.splits) (auto simp: tx_id_def)
  show "tx_invalidate_hashes (snd (get_transaction_hash w t)) = tx_invalidate_hashes t"
    by (auto simp: get_transaction_hash_def tx_invalidate_hashes_def Let_def split: option.splits)
qed

lemma reloaded_eqD:
  assumes "reloaded a = reloaded b"
  shows "save_block_header a = save_block_header b" "tx_invalidate_hashes (miner_tx a) = tx_invalidate_hashes (miner_tx b)"
    "tx_hashes a = tx_hashes b"
proof -
  have "save_block_header a = save_block_header (reloaded a)" for a
    by (simp add: reloaded_def save_block_header_def)
  with assms show "save_block_header a = save_block_header b" by metis
  show "tx_invalidate_hashes (miner_tx a) = tx_invalidate_hashes (miner_tx b)"
    using arg_cong [OF assms, of miner_tx] by (simp add: reloaded_def)
  show "tx_hashes a = tx_hashes b"
    using arg_cong [OF assms, of tx_hashes] by (simp add: reloaded_def)
qed

lemma block_id_cong:
  assumes "reloaded a = reloaded b"
  shows "block_id a = block_id b"
proof -
  have "tx_id (miner_tx a) = tx_id (miner_tx b)"
    using reloaded_eqD(2) [OF assms] tx_id_caches(3) by metis
  with reloaded_eqD [OF assms] show ?thesis
    by (simp add: block_id_def block_blob_def block_tree_def miner_hash_def)
qed

lemma block_id_simps [simp]:
  "block_id (b\<lparr>block_hash_cache := h\<rparr>) = block_id b" "block_id (reloaded b) = block_id b"
  by (rule block_id_cong; simp add: reloaded_def tx_invalidate_hashes_def)+

lemma calculate_block_hash_coherent:
  assumes "tx_cache_ok (miner_tx b)"
  shows "fst (calculate_block_hash b) = block_id b"
    and "snd (calculate_block_hash b) = b\<lparr>miner_tx := snd (get_transaction_hash True (miner_tx b))\<rparr>"
proof -
  have "(case fst (get_transaction_hash True (miner_tx b)) of Some (h, _) \<Rightarrow> h | None \<Rightarrow> null_hash) = miner_hash b"
    using get_transaction_hash_coherent(1) [OF assms, of True]
    by (auto simp: miner_hash_def split: option.splits)
  then show "fst (calculate_block_hash b) = block_id b"
    by (simp add: calculate_block_hash_def get_block_hashing_blob_def get_tx_tree_hash_def Let_def
        block_id_def block_blob_def block_tree_def get_object_hash_def object_to_blob_def case_prod_beta)
  show "snd (calculate_block_hash b) = b\<lparr>miner_tx := snd (get_transaction_hash True (miner_tx b))\<rparr>"
    by (simp add: calculate_block_hash_def get_block_hashing_blob_def get_tx_tree_hash_def Let_def case_prod_beta)
qed

lemma get_block_hash_coherent:
  assumes "block_cache_ok b"
  shows "fst (get_block_hash b) = block_id b"
    and "reloaded (snd (get_block_hash b)) = reloaded b"
    and "block_cache_ok (snd (get_block_hash b))"
proof -
  from assms have tx: "tx_cache_ok (miner_tx b)" by (simp add: block_cache_ok_def)
  note calc = calculate_block_hash_coherent [OF tx] get_transaction_hash_coherent [OF tx, of True]
  show id: "fst (get_block_hash b) = block_id b"
    using assms calc(1)
    by (auto simp: get_block_hash_def block_cache_ok_def case_prod_beta split: option.splits)
  show rel: "reloaded (snd (get_block_hash b)) = reloaded b"
    using calc by (auto simp: get_block_hash_def case_prod_beta reloaded_def split: option.splits)
  have "block_hash_cache (snd (get_block_hash b)) = Some (fst (get_block_hash b))"
    by (auto simp: get_block_hash_def case_prod_beta split: option.splits)
  moreover have "tx_cache_ok (miner_tx (snd (get_block_hash b)))"
    using tx calc(2,4) by (auto simp: get_block_hash_def case_prod_beta split: option.splits)
  ultimately show "block_cache_ok (snd (get_block_hash b))"
    using id block_id_cong [OF rel] by (simp add: block_cache_ok_def)
qed

lemma reloaded_cache_ok [simp]: "block_cache_ok (reloaded b)"
  by (simp add: reloaded_def block_cache_ok_def tx_cache_ok_def tx_invalidate_hashes_def)

lemma reloaded_reloaded [simp]: "reloaded (reloaded b) = reloaded b"
  by (simp add: reloaded_def tx_invalidate_hashes_def)

lemma parse_block_to_blob:
  "wf_block b \<Longrightarrow> parse_and_validate_block_from_blob (block_to_blob b) = Some (reloaded b)"
  using load_save_block [of b "[]"]
  by (simp add: parse_and_validate_block_from_blob_def block_to_blob_def object_to_blob_def load_all_def
      block_invalidate_hashes_def reloaded_def tx_invalidate_hashes_def)

subsection \<open>The block id binds the block\<close>

lemma header_split:
  assumes "is_key (prev_id a)" "is_key (prev_id b)"
    and "snd (save_block_header a) @ r = snd (save_block_header b) @ r'"
  shows "block_header.truncate a = block_header.truncate b" "r = r'"
  using load_save_block_header [OF assms(1), of r] load_save_block_header [OF assms(2), of r'] assms(3)
  by simp_all

lemma length_miner_hash [simp]: "length (miner_hash b) = 32"
  by (auto simp: miner_hash_def tx_id_def calculate_transaction_hash_def get_object_hash_def null_hash_def
      bind_eq_Some_conv Let_def split: option.splits if_splits)

lemma write_varint_inj: "write_varint (a :: 'w::len word) = write_varint b \<Longrightarrow> a = b"
  using load_save_uvarint [of a "[]"] load_save_uvarint [of b "[]"] by (simp add: save_uvarint_def)

lemma save_string_inj:
  assumes "length a < 2 ^ 64" "length b < 2 ^ 64" "snd (save_string a) = snd (save_string b)"
  shows "a = b"
  using str.ld_sv [OF assms(1), of "[]"] str.ld_sv [OF assms(2), of "[]"] unfolding assms(3) by simp

lemma length_tree_hash:
  assumes "xs \<noteq> []" "list_all (\<lambda>x. length x = 32) xs"
  shows "length (tree_hash xs) = 32"
proof (cases "length xs = 1")
  case True
  with assms show ?thesis by (cases xs) (auto simp: tree_hash_def)
qed (simp add: tree_hash_def Let_def)

lemma length_write_varint_u8: "length (write_varint (i :: u8)) \<le> 2"
proof (rule length_write_varint_le)
  show "unat i < 2 ^ (7 * 2)" using unat_lt_256 [of i] by simp
qed simp

lemma length_block_blob:
  assumes "is_key (prev_id b)" "list_all is_key (tx_hashes b)"
  shows "length (block_blob b) < 2 ^ 64"
proof -
  have "length (snd (save_uint (nonce b))) = 4" by (simp add: save_uint_def)
  moreover have "length (tree_hash (block_tree b)) = 32"
    using assms(2) by (simp add: length_tree_hash block_tree_def)
  ultimately show ?thesis
    using assms(1) length_write_varint_u8 [of "major_version b"] length_write_varint_u8 [of "minor_version b"]
      length_write_varint_u64 [of "timestamp b"] length_write_varint_u64 [of "of_nat (length (tx_hashes b)) + 1"]
    by (simp add: block_blob_def save_block_header_def save_uvarint_def)
qed

lemma block_id_inj:
  assumes "block_id a = block_id b"
    and wf: "is_key (prev_id a)" "is_key (prev_id b)" "list_all is_key (tx_hashes a)" "list_all is_key (tx_hashes b)"
      "length (tx_hashes a) < 2 ^ 64 - 1" "length (tx_hashes b) < 2 ^ 64 - 1"
  defines "ins \<equiv> \<lambda>b. snd (save_string (block_blob b)) # tree_inputs (tree_depth (length (block_tree b))) (block_tree b)"
  shows "clash (ins a) (ins b) \<or>
    block_header.truncate a = block_header.truncate b \<and> miner_hash a = miner_hash b \<and> tx_hashes a = tx_hashes b"
proof (cases "snd (save_string (block_blob a)) = snd (save_string (block_blob b))")
  case False
  with assms(1) have "clash (ins a) (ins b)" by (simp add: clash_def ins_def block_id_def)
  then show ?thesis ..
next
  case True
  have "block_blob a = block_blob b"
    by (rule save_string_inj [OF length_block_blob length_block_blob True]) (fact wf)+
  from header_split [OF wf(1,2) this [unfolded block_blob_def]]
  have hdr: "block_header.truncate a = block_header.truncate b"
    and tail: "tree_hash (block_tree a) @ write_varint (of_nat (length (tx_hashes a)) + 1 :: u64)
      = tree_hash (block_tree b) @ write_varint (of_nat (length (tx_hashes b)) + 1 :: u64)" by simp_all
  have all: "list_all (\<lambda>x. length x = 32) (block_tree a)" "list_all (\<lambda>x. length x = 32) (block_tree b)"
    using wf(3,4) by (simp_all add: block_tree_def)
  then have "length (tree_hash (block_tree a)) = length (tree_hash (block_tree b))"
    by (simp add: length_tree_hash block_tree_def)
  with tail have root: "tree_hash (block_tree a) = tree_hash (block_tree b)"
    and "(of_nat (length (tx_hashes a)) + 1 :: u64) = of_nat (length (tx_hashes b)) + 1"
    by (auto dest: write_varint_inj)
  then have "unat (of_nat (length (tx_hashes a)) :: u64) = unat (of_nat (length (tx_hashes b)) :: u64)" by simp
  then have "length (tx_hashes a) = length (tx_hashes b)"
    using wf(5,6) by (simp add: unat_of_nat)
  then have "clash (tree_inputs (tree_depth (length (block_tree a))) (block_tree a))
      (tree_inputs (tree_depth (length (block_tree b))) (block_tree b)) \<or> block_tree a = block_tree b"
    using tree_hash_inj_depth [OF root _ _ all] by (simp add: block_tree_def)
  moreover have "clash (ins a) (ins b)" if "clash (tree_inputs (tree_depth (length (block_tree a))) (block_tree a))
      (tree_inputs (tree_depth (length (block_tree b))) (block_tree b))"
    by (rule clash_mono [OF that]) (auto simp: ins_def)
  ultimately show ?thesis using hdr by (auto simp: block_tree_def)
qed

subsection \<open>Sample objects\<close>

definition sample_coinbase :: transaction where
  "sample_coinbase = \<lparr>version = 2, unlock_time = 60, vin = [txin_gen 5],
     vout = [\<lparr>amount = 1000, target = txout_to_key (replicate 32 7)\<rparr>], extra = 1 # replicate 32 9,
     signatures = [], rct_signatures = null_rctSig, tx_hash_cache = None, blob_size_cache = None\<rparr>"

definition sample_block :: block where
  "sample_block = \<lparr>major_version = 13, minor_version = 13, timestamp = 1700000000,
     prev_id = replicate 32 3, nonce = 77, miner_tx = sample_coinbase,
     tx_hashes = [replicate 32 4, replicate 32 5], block_hash_cache = None\<rparr>"

definition sample_ring_tx :: transaction where
  "sample_ring_tx = \<lparr>version = 2, unlock_time = 0, vin = [txin_to_key 0 [17] (replicate 32 1)],
     vout = [], extra = [], signatures = [],
     rct_signatures = \<lparr>rct_type = RCTTypeBulletproof, rct_message = zero_key, mixRing = [],
       pseudoOuts = [], ecdhInfo = [], outPk = [], txnFee = 12,
       prunable = \<lparr>rangeSigs = [], bulletproofs = [],
         MGs = [\<lparr>ss = [[replicate 32 1, replicate 32 2]], cc = replicate 32 3, II = []\<rparr>],
         p_pseudoOuts = [replicate 32 6]\<rparr>\<rparr>,
     tx_hash_cache = None, blob_size_cache = None\<rparr>"

lemma sample_coinbase_wf: "wf_transaction sample_coinbase"
  by (simp add: sample_coinbase_def wf_transaction_def wf_prefix_def CURRENT_TRANSACTION_VERSION_def
      wf_tx_out_def null_rctSig_def rctSigBase.truncate_def rctSigBase.extend_def rctSig.fields_def
      wf_rctsig_base_def wf_rctsig_prunable_def empty_rctSigBase_def)

lemma sample_block_wf: "wf_block sample_block"
  by (simp add: wf_block_def sample_block_def sample_coinbase_wf)

lemma sample_ring_tx_wf: "wf_transaction sample_ring_tx"
  by (simp add: sample_ring_tx_def wf_transaction_def wf_prefix_def CURRENT_TRANSACTION_VERSION_def
      rctSigBase.truncate_def wf_rctsig_base_def wf_rctsig_prunable_def wf_mgSig_def wf_mg_row_def
      tx_mixin_def mg_rows_def mg_elements_def mg_ss2_elements_def n_bulletproof_max_amounts_def
      is_rct_simple_def zero_key_def)

subsection \<open>Properties\<close>

text \<open>
  C11: Blocks survive the wire. A well-formed block (32-byte hashes and keys, vector lengths
  that fit \<open>size_t\<close>, signatures that match the inputs) is written without error, and parsing the
  blob gives the same block, with its caches emptied.
\<close>

theorem block_blob_roundtrip:
  assumes "wf_block b"
  shows "fst (save_block b) \<and> parse_and_validate_block_from_blob (block_to_blob b) = Some (reloaded b)"
  using assms by (simp add: save_block_ok parse_block_to_blob)

theorem block_blob_roundtrip_witness:
  "parse_and_validate_block_from_blob (block_to_blob sample_block) = Some (reloaded sample_block)"
  using block_blob_roundtrip [OF sample_block_wf] by simp

text \<open>
  C19: Transactions survive the wire. A well-formed transaction of either version is written
  without error and reads back, with its caches emptied and nothing left over.
\<close>

theorem transaction_blob_roundtrip:
  assumes "wf_transaction tx"
  shows "fst (save_transaction tx) \<and> load_all load_transaction (tx_to_blob tx) = Some (tx_invalidate_hashes tx)"
  using transaction_roundtrip(1) [OF assms] transaction_roundtrip(2) [OF assms, of "[]"]
  by (simp add: tx_to_blob_def object_to_blob_def load_all_def)

theorem transaction_blob_roundtrip_witness:
  "load_all load_transaction (tx_to_blob sample_ring_tx) = Some (tx_invalidate_hashes sample_ring_tx)"
  using transaction_blob_roundtrip [OF sample_ring_tx_wf] by simp

text \<open>
  C22: The hash cache is transparent. With coherent caches, \<open>get_block_hash\<close> returns the hash of
  the block's current contents, changes nothing but the caches, and leaves them coherent.
\<close>

theorem get_block_hash_cached:
  assumes "block_cache_ok b"
  shows "fst (get_block_hash b) = block_id b \<and> reloaded (snd (get_block_hash b)) = reloaded b
    \<and> block_cache_ok (snd (get_block_hash b))"
  using get_block_hash_coherent [OF assms] by simp

theorem get_block_hash_cached_witness:
  "fst (get_block_hash (snd (get_block_hash sample_block))) = block_id sample_block"
proof -
  have "block_cache_ok sample_block"
    by (simp add: block_cache_ok_def tx_cache_ok_def sample_block_def sample_coinbase_def)
  from get_block_hash_cached [OF this] get_block_hash_cached [of "snd (get_block_hash sample_block)"]
  show ?thesis using block_id_cong by metis
qed

text \<open>Filling in the destinations of the outputs changes neither the prefix nor the bytes of the base.\<close>

lemma save_rctsig_base_dest:
  assumes "length (outPk rv) = length outs"
  shows "save_rctsig_base (rv\<lparr>outPk := map (\<lambda>(pk, out). pk\<lparr>dest := f out\<rparr>) (zip (outPk rv) outs)\<rparr>) n m = save_rctsig_base rv n m"
proof -
  have "map (\<lambda>k. save_blob (mask k)) (map (\<lambda>(pk, out). pk\<lparr>dest := f out\<rparr>) (zip (outPk rv) outs)) = map (\<lambda>k. save_blob (mask k)) (outPk rv)"
    using assms by (intro nth_equalityI) (simp_all add: case_prod_unfold)
  then show ?thesis using assms by (simp add: save_rctsig_base_def save_elems_def)
qed

lemma expand_base:
  assumes "2 \<le> version tx \<and> \<not> is_coinbase tx \<Longrightarrow>
    length (outPk (rct_signatures tx)) = length (vout tx) \<and> list_all (\<lambda>out. is_txout_to_key (target out)) (vout tx)"
  obtains tx' where "expand_transaction_1 mult8 True tx = Some tx'" "save_prefix tx' = save_prefix tx"
    "version tx' = version tx" "length (vin tx') = length (vin tx)" "length (vout tx') = length (vout tx)"
    "prunable (rct_signatures tx') = prunable (rct_signatures tx)"
    "save_rctsig_base (rct_signatures tx') n m = save_rctsig_base (rct_signatures tx) n m"
proof (cases "2 \<le> version tx \<and> \<not> is_coinbase tx")
  case True
  let ?rv = "(rct_signatures tx)\<lparr>outPk := map (\<lambda>(pk, out). pk\<lparr>dest := txout_key (target out)\<rparr>) (zip (outPk (rct_signatures tx)) (vout tx))\<rparr>"
  have "expand_transaction_1 mult8 True tx = Some (tx\<lparr>rct_signatures := ?rv\<rparr>)"
    using True assms by (simp add: expand_transaction_1_def Let_def)
  moreover have "save_rctsig_base ?rv n m = save_rctsig_base (rct_signatures tx) n m"
    by (rule save_rctsig_base_dest [where f = "\<lambda>out. txout_key (target out)"]) (use True assms in blast)
  ultimately show ?thesis by (intro that [of "tx\<lparr>rct_signatures := ?rv\<rparr>"]) (simp_all add: save_prefix_def)
next
  case False
  then have "expand_transaction_1 mult8 True tx = Some tx" unfolding expand_transaction_1_def by (rule if_not_P)
  then show ?thesis by (intro that [of tx]) simp_all
qed

text \<open>
  C33: A transaction without its prunable part still has its id. Take a well-formed version 2 transaction with
  inputs and ring signatures whose outputs all go to keys. Reading only the base from its blob
  gives a transaction whose prunable part is empty, and the hash computed from that and the hash of
  the prunable part is the hash of the whole transaction.
\<close>

theorem pruned_hash_is_tx_hash:
  assumes "wf_transaction t" "version t = 2" "vin t \<noteq> []" "rct_type (rct_signatures t) \<noteq> RCTTypeNull"
    "list_all (\<lambda>out. is_txout_to_key (target out)) (vout t)"
  shows "\<exists>t' ph. parse_and_validate_tx_base_from_blob mult8 (tx_to_blob t) = Some t'
    \<and> prunable (rct_signatures t') = empty_rctSigPrunable
    \<and> calculate_transaction_prunable_hash t = Some ph \<and> get_pruned_transaction_hash t' ph = tx_id t"
proof -
  let ?rv = "rct_signatures t" and ?n = "length (vin t)" and ?m = "length (vout t)"
  have base: "wf_rctsig_base ?n ?m (rctSigBase.truncate ?rv)"
    and pr: "wf_rctsig_prunable (rct_type ?rv) ?n ?m (tx_mixin (vin t)) (prunable ?rv)"
    using assms(1-3) by (simp_all add: wf_transaction_def)
  obtain rest where load: "load_base (tx_to_blob t) = Some (pruned_tx t, rest)"
    using load_base_of_transaction [OF assms(1)] assms(2,3) by (auto simp: tx_to_blob_def object_to_blob_def)
  have p: "save_prefix (pruned_tx t) = save_prefix t" "version (pruned_tx t) = 2" "vin (pruned_tx t) = vin t" "vout (pruned_tx t) = vout t"
    "outPk (rct_signatures (pruned_tx t)) = outPk ?rv" "prunable (rct_signatures (pruned_tx t)) = empty_rctSigPrunable"
    "save_rctsig_base (rct_signatures (pruned_tx t)) ?n ?m = save_rctsig_base ?rv ?n ?m"
    using assms(2) by (simp_all add: pruned_tx_def save_prefix_def save_rctsig_base_def)
  have "length (outPk ?rv) = ?m" using base assms(4) by (simp add: wf_rctsig_base_def rctSigBase.truncate_def)
  then obtain t' where t': "expand_transaction_1 mult8 True (pruned_tx t) = Some t'" "save_prefix t' = save_prefix t"
    "version t' = 2" "length (vin t') = ?n" "length (vout t') = ?m" "prunable (rct_signatures t') = empty_rctSigPrunable"
    "save_rctsig_base (rct_signatures t') ?n ?m = save_rctsig_base ?rv ?n ?m"
    using expand_base [of "pruned_tx t" mult8 ?n ?m] assms(5) unfolding p by metis
  obtain ph where ph: "calculate_transaction_prunable_hash t = Some ph"
    using rctsig_prunable_roundtrip(1) [OF pr] assms(2) by (simp add: calculate_transaction_prunable_hash_def Let_def)
  have "fst (save_rctsig_base ?rv ?n ?m)" using rctsig_base_roundtrip(1) [OF base] save_rctsig_base_truncate [of ?rv] by simp
  then have "get_pruned_transaction_hash t' ph = tx_id t"
    using t' ph assms(2,4)
    by (simp add: get_pruned_transaction_hash_def tx_id_def calculate_transaction_hash_def get_transaction_prefix_hash_def Let_def)
  with load t'(1,6) ph show ?thesis by (auto simp: parse_and_validate_tx_base_from_blob_def)
qed

theorem pruned_hash_is_tx_hash_witness:
  "\<exists>t' ph. parse_and_validate_tx_base_from_blob id (tx_to_blob sample_ring_tx) = Some t'
    \<and> prunable (rct_signatures t') = empty_rctSigPrunable
    \<and> calculate_transaction_prunable_hash sample_ring_tx = Some ph \<and> get_pruned_transaction_hash t' ph = tx_id sample_ring_tx"
  by (rule pruned_hash_is_tx_hash [OF sample_ring_tx_wf]) (simp_all add: sample_ring_tx_def)

text \<open>
  C10: The block id binds the block. Two blocks with the same id have the same header, the same
  miner transaction hash and the same transaction hashes in the same order, unless among the
  inputs hashed to compute the two ids there are two different ones with the same hash.
\<close>

theorem block_id_binding:
  assumes "block_id a = block_id b"
    and "is_key (prev_id a)" "is_key (prev_id b)" "list_all is_key (tx_hashes a)" "list_all is_key (tx_hashes b)"
      "length (tx_hashes a) < 2 ^ 64 - 1" "length (tx_hashes b) < 2 ^ 64 - 1"
  shows "clash (snd (save_string (block_blob a)) # tree_inputs (tree_depth (length (block_tree a))) (block_tree a))
      (snd (save_string (block_blob b)) # tree_inputs (tree_depth (length (block_tree b))) (block_tree b)) \<or>
    block_header.truncate a = block_header.truncate b \<and> miner_hash a = miner_hash b \<and> tx_hashes a = tx_hashes b"
  using assms by (rule block_id_inj)

theorem block_id_binding_witness:
  "clash (snd (save_string (block_blob sample_block)) #
      tree_inputs (tree_depth (length (block_tree sample_block))) (block_tree sample_block))
      (snd (save_string (block_blob (reloaded sample_block))) #
      tree_inputs (tree_depth (length (block_tree (reloaded sample_block)))) (block_tree (reloaded sample_block))) \<or>
    block_header.truncate sample_block = block_header.truncate (reloaded sample_block)
    \<and> miner_hash sample_block = miner_hash (reloaded sample_block)
    \<and> tx_hashes sample_block = tx_hashes (reloaded sample_block)"
  by (rule block_id_binding, rule block_id_simps(2) [symmetric]) (simp_all add: sample_block_def reloaded_def)

end
