(* ===== verification/Hex.thy ===== *)
theory Hex
  imports Xcash_Prelude
begin

text \<open>
  Hexadecimal strings: \<open>to_hex\<close> of \<^verbatim>\<open>src/contrib/epee/src/hex.cpp\<close> and
  \<open>parse_hexstr_to_binbuff\<close>, \<open>parse_tpod_from_hex_string\<close> of
  \<^verbatim>\<open>src/contrib/epee/include/string_tools.h\<close>. A \<open>std::string\<close> is its list of bytes; \<open>str\<close> turns
  a literal into one.

  The parser hands each pair of characters to \<open>strtoul\<close> with base 16, so it takes everything
  that \<open>strtoul\<close> converts whole: \<open>hex_pair\<close> is that function on two characters (white space
  and signs included).

  Shown here: parsing what \<open>to_hex\<close> wrote gives the bytes back; what the parser accepts is
  characterised, including the pairs that are not two hexadecimal digits.
\<close>

definition str :: "string \<Rightarrow> bytes" where
  "str s = map of_char s"

definition hex_char :: "byte \<Rightarrow> byte" where
  "hex_char d = str ''0123456789abcdef'' ! unat d"

definition write_hex :: "bytes \<Rightarrow> bytes" where
  "write_hex src = concat (map (\<lambda>b. [hex_char (drop_bit 4 b), hex_char (b AND 0x0F)]) src)"

definition to_hex_string :: "bytes \<Rightarrow> bytes" where
  "to_hex_string src = write_hex src"

definition xdigit :: "byte \<Rightarrow> byte option" where
  "xdigit c =
     (if 0x30 \<le> c \<and> c \<le> 0x39 then Some (c - 0x30)
      else if 0x61 \<le> c \<and> c \<le> 0x66 then Some (c - 0x57)
      else if 0x41 \<le> c \<and> c \<le> 0x46 then Some (c - 0x37)
      else None)"

definition is_space :: "byte \<Rightarrow> bool" where
  "is_space c \<longleftrightarrow> c = 0x20 \<or> (0x09 \<le> c \<and> c \<le> 0x0d)"

text \<open>
  \<open>strtoul\<close> on two characters, as far as the caller accepts it: all of the string is
  converted and the result is within \<open>0..0xFF\<close>. A minus sign negates, which only leaves 0.
\<close>

definition hex_pair :: "byte \<Rightarrow> byte \<Rightarrow> byte option" where
  "hex_pair a b = (case xdigit b of
     None \<Rightarrow> None
   | Some lo \<Rightarrow>
       (case xdigit a of
          Some hi \<Rightarrow> Some (push_bit 4 hi OR lo)
        | None \<Rightarrow>
            if is_space a \<or> a = 0x2b then Some lo
            else if a = 0x2d \<and> lo = 0 then Some 0
            else None))"

text \<open>Decimal numbers: the value of the leading digits of a string.\<close>

definition is_digit :: "byte \<Rightarrow> bool" where
  "is_digit c \<longleftrightarrow> 0x30 \<le> c \<and> c \<le> 0x39"

fun digits_value :: "nat \<Rightarrow> bytes \<Rightarrow> nat" where
  "digits_value acc [] = acc"
| "digits_value acc (c # cs) = (if is_digit c then digits_value (acc * 10 + unat (c - 0x30)) cs else acc)"

text \<open>
  \<open>get_xtype_from_string\<close> at \<open>uint64_t\<close>: digits only, and \<open>lexical_cast\<close> throws on an empty string
  or a value that does not fit.
\<close>

definition get_xtype_from_string :: "bytes \<Rightarrow> u64 option" where
  "get_xtype_from_string str_id =
     (if \<not> list_all is_digit str_id then None
      else if str_id = [] \<or> digits_value 0 str_id \<ge> 2 ^ 64 then None
      else Some (of_nat (digits_value 0 str_id)))"

text \<open>\<open>std::to_string\<close> and \<open>boost::algorithm::trim\<close>.\<close>

fun decimal :: "nat \<Rightarrow> bytes" where
  "decimal n = (if n < 10 then [0x30 + of_nat n] else decimal (n div 10) @ [0x30 + of_nat (n mod 10)])"

declare decimal.simps [simp del]

definition trim :: "bytes \<Rightarrow> bytes" where
  "trim s = rev (dropWhile is_space (rev (dropWhile is_space s)))"

fun parse_hexstr_to_binbuff :: "bool \<Rightarrow> bytes \<Rightarrow> bytes option" where
  "parse_hexstr_to_binbuff allow_partial_byte [] = Some []"
| "parse_hexstr_to_binbuff allow_partial_byte [a] = (if allow_partial_byte then map_option (\<lambda>v. [v]) (xdigit a) else None)"
| "parse_hexstr_to_binbuff allow_partial_byte (a # b # s) = do {
     v \<leftarrow> hex_pair a b;
     res \<leftarrow> parse_hexstr_to_binbuff allow_partial_byte s;
     Some (v # res) }"

definition parse_tpod_from_hex_string :: "nat \<Rightarrow> bytes \<Rightarrow> bytes option" where
  "parse_tpod_from_hex_string sz str_hash = do {
     buf \<leftarrow> parse_hexstr_to_binbuff False str_hash;
     if length buf \<noteq> sz then None else Some buf }"

definition pod_to_hex :: "bytes \<Rightarrow> bytes" where
  "pod_to_hex s = to_hex_string s"

subsection \<open>Round trip\<close>

lemma xdigit_hex_char:
  assumes "unat d < 16"
  shows "xdigit (hex_char d) = Some d"
proof -
  have "\<forall>n \<in> set [0..<16]. xdigit (hex_char (of_nat n)) = Some (of_nat n)"
    by code_simp
  moreover have "unat d \<in> set [0..<16]" using assms by simp
  ultimately have "xdigit (hex_char (of_nat (unat d))) = Some (of_nat (unat d))" by blast
  then show ?thesis by simp
qed

lemma nibbles:
  "unat (drop_bit 4 (b :: byte)) < 16" "unat (b AND 0x0F) < 16"
  "push_bit 4 (drop_bit 4 b) OR (b AND 0x0F) = b"
proof -
  show "unat (drop_bit 4 b) < 16"
    using unat_lt_256 [of b] by (simp add: unat_drop_bit_eq drop_bit_nat_def)
  have m: "b AND 0x0F = take_bit 4 b"
    by (simp add: take_bit_eq_mask mask_eq_exp_minus_1)
  then show "unat (b AND 0x0F) < 16"
    by (simp add: unat_mod take_bit_eq_mod)
  show "push_bit 4 (drop_bit 4 b) OR (b AND 0x0F) = b"
    unfolding m by (rule bit_word_eqI) (auto simp: bit_simps)
qed

lemma parse_write_hex: "parse_hexstr_to_binbuff p (write_hex bs) = Some bs"
  by (induction bs) (simp_all add: write_hex_def hex_pair_def xdigit_hex_char nibbles)

lemma length_write_hex [simp]: "length (write_hex bs) = 2 * length bs"
  by (induction bs) (simp_all add: write_hex_def)

lemma parse_hex_length: "parse_hexstr_to_binbuff False s = Some bs \<Longrightarrow> length s = 2 * length bs"
  by (induction "False" s arbitrary: bs rule: parse_hexstr_to_binbuff.induct) (auto split: bind_splits)

text \<open>
  Hexadecimal strings survive. Parsing the hexadecimal form of any byte string gives the
  bytes back, and a string that \<open>parse_hexstr_to_binbuff\<close> accepts has twice as many characters
  as the bytes it returns.
\<close>

theorem hex_roundtrip:
  "parse_hexstr_to_binbuff False (to_hex_string bs) = Some bs \<and>
   (\<forall>s. case parse_hexstr_to_binbuff False s of None \<Rightarrow> True | Some r \<Rightarrow> length s = 2 * length r)"
  by (auto simp: to_hex_string_def parse_write_hex parse_hex_length split: option.splits)

text \<open>
  The parser takes more than hexadecimal digits. A pair whose first character is a plus
  sign or white space is read as the digit after it, and \<open>-0\<close> is read as zero, so a malformed
  key or hash string of the right length can be accepted.
\<close>

theorem hex_accepts_signs:
  "parse_hexstr_to_binbuff False (str ''+f 7-0'') = Some [15, 7, 0]"
  by code_simp

subsection \<open>Decimal numbers\<close>

lemma digits_value_append:
  "list_all is_digit s \<Longrightarrow> digits_value acc (s @ t) = digits_value (digits_value acc s) t"
  by (induction acc s rule: digits_value.induct) auto

lemma digit_char [simp]: "n < 10 \<Longrightarrow> is_digit (0x30 + of_nat n)" "n < 10 \<Longrightarrow> unat (of_nat n :: byte) = n"
  by (simp_all add: is_digit_def word_le_nat_alt unat_word_ariths(1) unat_of_nat)

lemma decimal_digits [simp]: "list_all is_digit (decimal n)"
proof (induction n rule: decimal.induct)
  case (1 n)
  then show ?case by (subst decimal.simps) simp
qed

lemma digits_value_decimal [simp]: "digits_value 0 (decimal n) = n"
proof (induction n rule: decimal.induct)
  case (1 n)
  show ?case
  proof (cases "n < 10")
    case False
    have "digits_value 0 (decimal n) = digits_value (digits_value 0 (decimal (n div 10))) [0x30 + of_nat (n mod 10)]"
      using False by (subst decimal.simps) (simp add: digits_value_append)
    with 1 False show ?thesis by simp
  qed (subst decimal.simps, simp)
qed

lemma decimal_not_Nil [simp]: "decimal n \<noteq> []"
  by (subst decimal.simps) simp

end
