(* ===== verification/Temp_Consensus.thy ===== *)
theory Temp_Consensus
  imports Tx_Extra Tx_Hash Hex
begin

text \<open>
  The temporary leader consensus: the validator
  (\<^verbatim>\<open>src/src/cryptonote_core/temp_consensus_validator.cpp\<close>), the leader's block generation
  (\<^verbatim>\<open>src/src/cryptonote_core/temp_consensus_leader_service.cpp\<close>) and the daemon's configuration
  (\<^verbatim>\<open>src/src/daemon/temp_consensus.cpp\<close>).

  libsodium is a parameter: \<open>verify sig msg pk\<close> is \<open>crypto_sign_verify_detached(...) == 0\<close>,
  \<open>sign sk msg\<close> is the signature that \<open>crypto_sign_detached\<close> writes, or \<open>None\<close> when it returns an
  error, and \<open>seed_keypair\<close> is \<open>crypto_sign_seed_keypair\<close>. The node's core, which
  \<open>generate_block\<close> calls, is a parameter as well: the block template it hands out, its size
  check, and whether it accepts a block.

  Shown here: a block that a configured leader generates passes every node's validator; a
  block that passes was signed with the key of one of the four seed nodes over exactly its
  contents without leader metadata; and the metadata itself is not covered by the signature.
\<close>

subsection \<open>Network constants\<close>

definition NETWORK_DATA_NODE_PUBLIC_ADDRESS_1 :: bytes where
  "NETWORK_DATA_NODE_PUBLIC_ADDRESS_1 = str ''XCA1SkZTKvC1vMR3vzdsBiFY69RXHJYw2TZ7jPTtsFGCUj7JfEaDXuSMBXrhaGHf7QJH5PyBxQK2K7gNs9pYGBGs7zfS7cPHd9''"
definition NETWORK_DATA_NODE_PUBLIC_ADDRESS_2 :: bytes where
  "NETWORK_DATA_NODE_PUBLIC_ADDRESS_2 = str ''XCA1d6XRJLYGyHnwoywSTbadrVYc7S8spHTGQRJyw5uLRRycH46wgVx9o1A1MaRwmZTiV16ooDsEPjHnioCyV3xk3wHiFqwWuu''"
definition NETWORK_DATA_NODE_PUBLIC_ADDRESS_3 :: bytes where
  "NETWORK_DATA_NODE_PUBLIC_ADDRESS_3 = str ''XCA1UNwXyshf1cuN4LRWxgX84rkoM1fo12AbG7CiuTi27PEuxPicaTfNSA5WtsHHTkZ1GAy4bsd6CXy6ag6YEM9H7oNuBihrzM''"
definition NETWORK_DATA_NODE_PUBLIC_ADDRESS_4 :: bytes where
  "NETWORK_DATA_NODE_PUBLIC_ADDRESS_4 = str ''XCA1WDfJTzqLJjn9YgXubf4RnxzUqMrWJaMWQKH8V3tZ9tgtWs5RoXfcHo7vQnZndj7PeyfcUcgkGX6cQNfVrWfC1g2iN84K1w''"

definition NETWORK_DATA_NODE_ED25519_PUBKEY_1 :: bytes where
  "NETWORK_DATA_NODE_ED25519_PUBKEY_1 = str ''707a57d0ec077e1ae594c6c7afac203aa8a720713e5ce7258b0d6cd33923e1e2''"
definition NETWORK_DATA_NODE_ED25519_PUBKEY_2 :: bytes where
  "NETWORK_DATA_NODE_ED25519_PUBKEY_2 = str ''6f100bc821a727efb411b334eeb72895cd178de87f821ceaf41b4e7347339bc1''"
definition NETWORK_DATA_NODE_ED25519_PUBKEY_3 :: bytes where
  "NETWORK_DATA_NODE_ED25519_PUBKEY_3 = str ''5dc835dbf22bf2e40a7ebd9713ae23705f2fe87cf43d1cee75a161ed53f1b89b''"
definition NETWORK_DATA_NODE_ED25519_PUBKEY_4 :: bytes where
  "NETWORK_DATA_NODE_ED25519_PUBKEY_4 = str ''6210338078086c98b3288c511e2ed156658391425bdab5b276f86ab0c6fcba7c''"

definition authorized_seeds :: "bytes list" where
  "authorized_seeds = [NETWORK_DATA_NODE_PUBLIC_ADDRESS_1, NETWORK_DATA_NODE_PUBLIC_ADDRESS_2,
     NETWORK_DATA_NODE_PUBLIC_ADDRESS_3, NETWORK_DATA_NODE_PUBLIC_ADDRESS_4]"

definition authorized_ed25519_pubkeys :: "bytes list" where
  "authorized_ed25519_pubkeys = [NETWORK_DATA_NODE_ED25519_PUBKEY_1, NETWORK_DATA_NODE_ED25519_PUBKEY_2,
     NETWORK_DATA_NODE_ED25519_PUBKEY_3, NETWORK_DATA_NODE_ED25519_PUBKEY_4]"

definition TEMPORARY_CONSENSUS_ACTIVATION_HEIGHT :: u64 where
  "TEMPORARY_CONSENSUS_ACTIVATION_HEIGHT = 1085612"

text \<open>The search loop over the seeds: the index of the first match.\<close>

fun seed_index :: "bytes \<Rightarrow> bytes list \<Rightarrow> nat option" where
  "seed_index leader_id [] = None"
| "seed_index leader_id (s # seeds) =
     (if leader_id = s then Some 0 else map_option Suc (seed_index leader_id seeds))"

subsection \<open>The validator\<close>

record validator_config =
  expected_leader_id :: bytes
  v_leader_pubkey :: bytes

record temp_consensus_validator =
  v_config :: validator_config
  v_enabled :: bool

definition new_validator :: "validator_config \<Rightarrow> temp_consensus_validator" where
  "new_validator cfg = \<lparr>v_config = cfg, v_enabled = False\<rparr>"

definition set_enabled :: "bool \<Rightarrow> temp_consensus_validator \<Rightarrow> temp_consensus_validator" where
  "set_enabled e v = v\<lparr>v_enabled := e\<rparr>"

definition validate_leader_block ::
    "(bytes \<Rightarrow> bytes \<Rightarrow> bytes \<Rightarrow> bool) \<Rightarrow> temp_consensus_validator \<Rightarrow> block \<Rightarrow> u64 \<Rightarrow> bool" where
  "validate_leader_block verify v bl height =
     (if \<not> v_enabled v then False
      else if height = 0 then True
      else if height < TEMPORARY_CONSENSUS_ACTIVATION_HEIGHT then True
      else case get_leader_info_from_tx_extra (extra (miner_tx bl)) of
        None \<Rightarrow> False
      | Some (leader_id, sig) \<Rightarrow>
          (case seed_index leader_id authorized_seeds of
             None \<Rightarrow> False
           | Some leader_index \<Rightarrow>
               let expected_pubkey_hex = authorized_ed25519_pubkeys ! leader_index in
               if expected_pubkey_hex = [] then False
               else (case parse_hexstr_to_binbuff False expected_pubkey_hex of
                 None \<Rightarrow> False
               | Some pubkey_binary \<Rightarrow>
                   if length pubkey_binary \<noteq> 32 then False
                   else
                     let leader_pubkey = pubkey_binary;
                         (ok, extra_without_leader) = remove_leader_info_from_tx_extra (extra (miner_tx bl)) in
                     if \<not> ok then False
                     else
                       let temp_bl = bl\<lparr>miner_tx := (miner_tx bl)\<lparr>extra := extra_without_leader\<rparr>\<rparr> in
                       (case parse_and_validate_block_from_blob (block_to_blob temp_bl) of
                          None \<Rightarrow> False
                        | Some temp_bl_parsed \<Rightarrow>
                            verify sig (fst (get_block_hash temp_bl_parsed)) leader_pubkey))))"

subsection \<open>The leader service\<close>

record leader_config =
  leader_id :: bytes
  leader_pubkey :: bytes
  leader_ed25519_pubkey :: bytes
  leader_seckey :: bytes
  libsodium_seckey :: bytes
  miner_address :: account_public_address
  enable_pow :: bool
  slot_duration_seconds :: u64

definition generate_deterministic_nonce :: "leader_config \<Rightarrow> u64 \<Rightarrow> u32" where
  "generate_deterministic_nonce cfg slot_timestamp =
     (let h = cn_fast_hash (leader_id cfg @ decimal (unat slot_timestamp)) in
      foldr (\<lambda>b acc. push_bit 8 acc OR ucast b) (take 4 h) 0)"

definition LEADER_INFO_RESERVED_SIZE :: nat where
  "LEADER_INFO_RESERVED_SIZE = 170"

text \<open>
  \<open>get_block_template extra_nonce\<close>, \<open>check_incoming_block_size\<close> and \<open>handle_block_found\<close> are
  the calls into the core; an exception of the last one counts as a rejection. The result is
  the flag and the block that was handed to the core, if it came to that.
\<close>

definition generate_block ::
    "(bytes \<Rightarrow> bytes \<Rightarrow> bytes option) \<Rightarrow> leader_config \<Rightarrow> (bytes \<Rightarrow> block option)
     \<Rightarrow> (bytes \<Rightarrow> bool) \<Rightarrow> (block \<Rightarrow> bool) \<Rightarrow> u64 \<Rightarrow> bool \<times> block option" where
  "generate_block sign cfg get_block_template check_incoming_block_size handle_block_found slot_timestamp =
     (case get_block_template (replicate LEADER_INFO_RESERVED_SIZE 0) of
        None \<Rightarrow> (False, None)
      | Some bl \<Rightarrow>
          let bl = bl\<lparr>timestamp := slot_timestamp\<rparr>;
              bl = (if enable_pow cfg then bl
                    else bl\<lparr>nonce := generate_deterministic_nonce cfg slot_timestamp\<rparr>);
              tx_pub_key = get_tx_pub_key_from_extra (extra (miner_tx bl)) 0 in
          if tx_pub_key = null_pkey then (False, None)
          else
            let ex = snd (remove_field_from_tx_extra (extra (miner_tx bl)) T_nonce);
                ex = snd (remove_field_from_tx_extra ex T_padding);
                bl = bl\<lparr>miner_tx := (miner_tx bl)\<lparr>extra := ex\<rparr>\<rparr> in
            (case parse_and_validate_block_from_blob (block_to_blob bl) of
               None \<Rightarrow> (False, None)
             | Some bl_unsigned \<Rightarrow>
                 let (block_hash, bl_unsigned) = get_block_hash bl_unsigned in
                 (case sign (libsodium_seckey cfg) block_hash of
                    None \<Rightarrow> (False, None)
                  | Some sig \<Rightarrow>
                      let (ok, ex) = add_leader_info_to_tx_extra (extra (miner_tx bl_unsigned)) (leader_id cfg) sig in
                      if \<not> ok then (False, None)
                      else
                        let bl_unsigned = block_invalidate_hashes
                              (bl_unsigned\<lparr>miner_tx := (miner_tx bl_unsigned)\<lparr>extra := ex\<rparr>\<rparr>);
                            blockblob = block_to_blob bl_unsigned in
                        (case parse_and_validate_block_from_blob blockblob of
                           None \<Rightarrow> (False, None)
                         | Some b_parsed \<Rightarrow>
                             if \<not> check_incoming_block_size blockblob then (False, None)
                             else (handle_block_found b_parsed, Some b_parsed)))))"

subsection \<open>The seeds and their keys\<close>

definition seed_pubkey :: "nat \<Rightarrow> bytes" where
  "seed_pubkey i = (case parse_hexstr_to_binbuff False (authorized_ed25519_pubkeys ! i) of
     Some pk \<Rightarrow> pk | None \<Rightarrow> [])"

lemma seeds_distinct:
  "map (\<lambda>s. seed_index s authorized_seeds) authorized_seeds = [Some 0, Some 1, Some 2, Some 3]"
  by code_simp

lemma seed_keys_parse:
  "map (\<lambda>h. map_option length (parse_hexstr_to_binbuff False h)) authorized_ed25519_pubkeys
     = [Some 32, Some 32, Some 32, Some 32]"
  by code_simp

lemma less_4: "i < 4 \<longleftrightarrow> i = 0 \<or> i = 1 \<or> i = 2 \<or> i = (3 :: nat)"
  by auto

lemma length_seeds [simp]: "length authorized_seeds = 4" "length authorized_ed25519_pubkeys = 4"
  by (simp_all add: authorized_seeds_def authorized_ed25519_pubkeys_def)

lemma seed_index_seed: "i < 4 \<Longrightarrow> seed_index (authorized_seeds ! i) authorized_seeds = Some i"
  using arg_cong [OF seeds_distinct, of "\<lambda>xs. xs ! i"] by (auto simp: less_4)

lemma seed_index_Some: "seed_index x xs = Some i \<Longrightarrow> i < length xs \<and> xs ! i = x"
  by (induction xs arbitrary: i) (auto split: if_splits)

lemma seed_key_parses:
  assumes "i < 4"
  shows "parse_hexstr_to_binbuff False (authorized_ed25519_pubkeys ! i) = Some (seed_pubkey i)"
    and "length (seed_pubkey i) = 32" and "authorized_ed25519_pubkeys ! i \<noteq> []"
proof -
  have "map_option length (parse_hexstr_to_binbuff False (authorized_ed25519_pubkeys ! i)) = Some 32"
    using assms arg_cong [OF seed_keys_parse, of "\<lambda>xs. xs ! i"] by (auto simp: less_4)
  then show "parse_hexstr_to_binbuff False (authorized_ed25519_pubkeys ! i) = Some (seed_pubkey i)"
    and "length (seed_pubkey i) = 32" and "authorized_ed25519_pubkeys ! i \<noteq> []"
    by (auto simp: seed_pubkey_def)
qed

lemma length_seed: "i < 4 \<Longrightarrow> length (authorized_seeds ! i) = 98"
  by (auto simp: less_4 authorized_seeds_def NETWORK_DATA_NODE_PUBLIC_ADDRESS_1_def
      NETWORK_DATA_NODE_PUBLIC_ADDRESS_2_def NETWORK_DATA_NODE_PUBLIC_ADDRESS_3_def
      NETWORK_DATA_NODE_PUBLIC_ADDRESS_4_def str_def)

subsection \<open>Replacing the extra of the miner transaction\<close>

definition set_extra :: "bytes \<Rightarrow> block \<Rightarrow> block" where
  "set_extra ex b = b\<lparr>miner_tx := (miner_tx b)\<lparr>extra := ex\<rparr>\<rparr>"

lemma wf_set_extra: "wf_block b \<Longrightarrow> length ex < 2 ^ 64 \<Longrightarrow> wf_block (set_extra ex b)"
  by (simp add: set_extra_def wf_block_def wf_transaction_def wf_prefix_def)

lemma set_extra_simps [simp]:
  "extra (miner_tx (set_extra ex b)) = ex" "set_extra ex (set_extra ex' b) = set_extra ex b"
  by (simp_all add: set_extra_def)

lemma set_extra_reloaded: "reloaded (set_extra ex (reloaded b)) = reloaded (set_extra ex b)"
  by (simp add: set_extra_def reloaded_def tx_invalidate_hashes_def)

lemma extra_reloaded [simp]: "extra (miner_tx (reloaded b)) = extra (miner_tx b)"
  by (simp add: reloaded_def tx_invalidate_hashes_def)

lemma set_extra_cong:
  assumes "reloaded a = reloaded b"
  shows "reloaded (set_extra ex a) = reloaded (set_extra ex b)"
  by (metis assms set_extra_reloaded)

lemma wf_block_reloaded [simp]: "wf_block (reloaded b) = wf_block b"
  by (simp add: reloaded_def wf_block_def wf_transaction_def wf_prefix_def tx_invalidate_hashes_def cong: if_cong)

lemma block_to_blob_reloaded: "block_to_blob (reloaded b) = block_to_blob b"
  by (simp add: block_to_blob_def save_block_def save_block_header_def reloaded_def tx_invalidate_hashes_def)

lemma parse_hash:
  assumes "wf_block b"
  obtains b' where "parse_and_validate_block_from_blob (block_to_blob b) = Some b'"
    "fst (get_block_hash b') = block_id b" "reloaded (snd (get_block_hash b')) = reloaded b"
  by (rule that [of "reloaded b"])
    (simp_all add: parse_block_to_blob [OF assms] get_block_hash_coherent(1,2))

lemma length_save_fields_filter: "length (save_fields (filter P fs)) \<le> length (save_fields fs)"
  by (induction fs) auto

subsection \<open>What the validator accepts\<close>

lemma validate_fields:
  assumes "v_enabled v" "TEMPORARY_CONSENSUS_ACTIVATION_HEIGHT \<le> height"
    and wf: "wf_block b" "extra (miner_tx b) = save_fields fs" "wf_fields fs"
  shows "validate_leader_block verify v b height \<longleftrightarrow>
    (case filter (\<lambda>f. field_type f = T_leader_info) fs of
       tx_extra_leader_info lid sig # _ \<Rightarrow>
         \<exists>i < 4. lid = authorized_seeds ! i \<and>
           verify sig (block_id (set_extra (save_fields (filter (\<lambda>f. field_type f \<noteq> T_leader_info) fs)) b)) (seed_pubkey i)
     | _ \<Rightarrow> False)"
proof -
  let ?ex = "save_fields (filter (\<lambda>f. field_type f \<noteq> T_leader_info) fs)"
  have p: "parse_tx_extra (extra (miner_tx b)) = (True, fs)"
    using wf by (simp add: parse_tx_extra_save)
  have "length (save_fields fs) < 2 ^ 64"
    using wf by (simp add: wf_block_def wf_transaction_def wf_prefix_def)
  then have "length ?ex < 2 ^ 64"
    using length_save_fields_filter [of "\<lambda>f. field_type f \<noteq> T_leader_info" fs] by linarith
  from parse_hash [OF wf_set_extra [OF wf(1) this]]
  obtain b' where b': "parse_and_validate_block_from_blob (block_to_blob (set_extra ?ex b)) = Some b'"
    "fst (get_block_hash b') = block_id (set_extra ?ex b)" by blast
  have h: "height \<noteq> 0" "\<not> height < TEMPORARY_CONSENSUS_ACTIVATION_HEIGHT"
    using assms(2) by (auto simp: TEMPORARY_CONSENSUS_ACTIVATION_HEIGHT_def not_less)
  have seed: "(case seed_index lid authorized_seeds of None \<Rightarrow> False | Some i \<Rightarrow> Q i) \<longleftrightarrow>
      (\<exists>i < 4. lid = authorized_seeds ! i \<and> Q i)" for lid Q
  proof (cases "seed_index lid authorized_seeds")
    case None
    then show ?thesis by (auto simp: seed_index_seed)
  next
    case (Some j)
    then have "j < 4" "lid = authorized_seeds ! j" using seed_index_Some [OF Some] by simp_all
    with Some show ?thesis by (auto simp: seed_index_seed) (metis option.inject seed_index_seed)
  qed
  show ?thesis
    using assms(1) h b'
    by (auto simp: validate_leader_block_def seed get_leader_info_eq [OF p] remove_leader_info_wf [OF p]
        seed_key_parses set_extra_def [symmetric] cong: conj_cong split: list.splits tx_extra_field.splits)
qed

subsection \<open>What the leader generates\<close>

definition template_extra :: "bytes \<Rightarrow> nat \<Rightarrow> bytes" where
  "template_extra pk k = snd (add_extra_nonce_to_tx_extra (add_tx_pub_key_to_extra [] pk)
     (replicate LEADER_INFO_RESERVED_SIZE 0)) @ replicate k 0"

lemma parse_template_extra:
  assumes "length pk = 32" "k \<le> 4993"
  shows "parse_tx_extra (template_extra pk k)
    = (True, [tx_extra_pub_key pk, tx_extra_nonce (replicate 42 0), tx_extra_padding (127 + k)])"
  using parse_long_zero_nonce [OF assms(1) _ assms(2), of 42]
  by (simp add: template_extra_def add_extra_nonce_to_tx_extra_def add_tx_pub_key_to_extra_def
      LEADER_INFO_RESERVED_SIZE_def replicate_add flip: replicate_append_same)

lemma template_extra_stripped:
  assumes "length pk = 32" "k \<le> 4993"
  shows "snd (remove_field_from_tx_extra (snd (remove_field_from_tx_extra (template_extra pk k) T_nonce)) T_padding)
    = save_fields [tx_extra_pub_key pk]"
    and "get_tx_pub_key_from_extra (template_extra pk k) 0 = pk"
proof -
  have "parse_tx_extra (save_fields [tx_extra_pub_key pk, tx_extra_padding (127 + k)])
      = (True, [tx_extra_pub_key pk, tx_extra_padding (127 + k)])"
    by (rule parse_tx_extra_save) (use assms in simp)
  from remove_field_wf [OF this, of T_padding] remove_field_wf [OF parse_template_extra [OF assms], of T_nonce]
  show "snd (remove_field_from_tx_extra (snd (remove_field_from_tx_extra (template_extra pk k) T_nonce)) T_padding)
    = save_fields [tx_extra_pub_key pk]" by simp
  show "get_tx_pub_key_from_extra (template_extra pk k) 0 = pk"
    by (simp add: get_tx_pub_key_from_extra_def parse_template_extra [OF assms])
qed

text \<open>The block the leader signs: the template at the slot, with only the public key in the extra.\<close>

definition leader_body :: "leader_config \<Rightarrow> u64 \<Rightarrow> bytes \<Rightarrow> block \<Rightarrow> block" where
  "leader_body cfg slot pk bl =
     set_extra (save_fields [tx_extra_pub_key pk])
       (if enable_pow cfg then bl\<lparr>timestamp := slot\<rparr>
        else bl\<lparr>timestamp := slot, nonce := generate_deterministic_nonce cfg slot\<rparr>)"

lemma wf_leader_body: "wf_block bl \<Longrightarrow> length pk = 32 \<Longrightarrow> wf_block (leader_body cfg slot pk bl)"
  unfolding leader_body_def by (rule wf_set_extra) (auto simp: wf_block_def snd_save_field)

lemma generate_block_eq:
  assumes tmpl: "get_block_template (replicate LEADER_INFO_RESERVED_SIZE 0) = Some bl" "wf_block bl"
      "extra (miner_tx bl) = template_extra pk k" "length pk = 32" "pk \<noteq> null_pkey" "k \<le> 4993"
    and sign: "sign (libsodium_seckey cfg) (block_id (leader_body cfg slot pk bl)) = Some sig"
      "length sig = 64" "length (leader_id cfg) < 2 ^ 32"
  defines "fs \<equiv> [tx_extra_pub_key pk, tx_extra_leader_info (leader_id cfg) sig]"
  defines "b \<equiv> reloaded (set_extra (save_fields fs) (leader_body cfg slot pk bl))"
  shows "generate_block sign cfg get_block_template size_ok submit slot
      = (if size_ok (block_to_blob b) then (submit b, Some b) else (False, None))"
    and "wf_block b" "wf_fields fs" "extra (miner_tx b) = save_fields fs"
    "block_id (set_extra (save_fields [tx_extra_pub_key pk]) b) = block_id (leader_body cfg slot pk bl)"
proof -
  let ?body = "leader_body cfg slot pk bl" and ?l = "tx_extra_leader_info (leader_id cfg) sig"
  note strip = template_extra_stripped [OF tmpl(4,6)]
  have body: "wf_block ?body" using tmpl(2,4) by (rule wf_leader_body)
  obtain b1 where b1: "parse_and_validate_block_from_blob (block_to_blob ?body) = Some b1"
      "fst (get_block_hash b1) = block_id ?body" "reloaded (snd (get_block_hash b1)) = reloaded ?body"
    using parse_hash [OF body] .
  let ?b2 = "snd (get_block_hash b1)"
  have ex: "extra (miner_tx ?b2) = save_fields [tx_extra_pub_key pk]"
    using arg_cong [OF b1(3), of "\<lambda>b. extra (miner_tx b)"] by (simp add: leader_body_def)
  have fs: "save_fields [tx_extra_pub_key pk] @ snd (save_field ?l) = save_fields fs"
    by (simp add: fs_def)
  let ?b3 = "block_invalidate_hashes (set_extra (save_fields fs) ?b2)"
  have "reloaded ?b3 = reloaded (set_extra (save_fields fs) ?b2)"
    by (simp add: block_invalidate_hashes_def reloaded_def)
  then have b3: "reloaded ?b3 = b" using set_extra_cong [OF b1(3)] by (simp add: b_def)
  show wf_fs: "wf_fields fs" using tmpl(4) sign(2,3) by (simp add: fs_def)
  have "length (save_fields fs) < 2 ^ 64"
    using tmpl(4) sign(2,3) length_write_varint_u64 [of "of_nat (length (leader_id cfg))"]
    by (simp add: fs_def snd_save_field snd_save_string)
  with body show wf_b: "wf_block b" by (simp add: b_def wf_set_extra)
  from b3 wf_b have "wf_block ?b3" by (metis wf_block_reloaded)
  then have b4: "parse_and_validate_block_from_blob (block_to_blob ?b3) = Some b"
    using b3 by (simp add: parse_block_to_blob)
  have blob: "block_to_blob ?b3 = block_to_blob b" using b3 by (metis block_to_blob_reloaded)
  show "extra (miner_tx b) = save_fields fs" by (simp add: b_def)
  show "block_id (set_extra (save_fields [tx_extra_pub_key pk]) b) = block_id ?body"
    unfolding b_def
    by (rule block_id_cong) (simp only: set_extra_reloaded set_extra_simps, simp add: leader_body_def)
  have pow: "bl\<lparr>timestamp := slot, miner_tx := (miner_tx bl)\<lparr>extra := save_fields [tx_extra_pub_key pk]\<rparr>\<rparr> = ?body"
    if "enable_pow cfg"
    using that by (simp add: leader_body_def set_extra_def)
  have no_pow: "bl\<lparr>timestamp := slot, nonce := generate_deterministic_nonce cfg slot,
      miner_tx := (miner_tx bl)\<lparr>extra := save_fields [tx_extra_pub_key pk]\<rparr>\<rparr> = ?body" if "\<not> enable_pow cfg"
    using that by (simp add: leader_body_def set_extra_def)
  show "generate_block sign cfg get_block_template size_ok submit slot
      = (if size_ok (block_to_blob b) then (submit b, Some b) else (False, None))"
    using tmpl(1,3,5) strip b1(1,2) sign(1) ex b4 blob fs pow no_pow
    by (cases "enable_pow cfg")
      (simp_all add: generate_block_def Let_def add_leader_info_eq set_extra_def case_prod_beta
        del: save_fields_simps)
qed

subsection \<open>Properties\<close>

lemma length_block_id [simp]: "length (block_id b) = 32"
  by (simp add: block_id_def)

lemma parsed_cache_ok: "parse_and_validate_block_from_blob blob = Some b \<Longrightarrow> block_cache_ok b"
  by (auto simp: parse_and_validate_block_from_blob_def block_cache_ok_def tx_cache_ok_def
      block_invalidate_hashes_def tx_invalidate_hashes_def split: option.splits bind_splits)

definition sample_leader :: leader_config where
  "sample_leader = \<lparr>leader_id = authorized_seeds ! 2, leader_pubkey = [], leader_ed25519_pubkey = seed_pubkey 2,
     leader_seckey = [], libsodium_seckey = seed_pubkey 2, miner_address = \<lparr>m_spend_public_key = [], m_view_public_key = []\<rparr>,
     enable_pow = False, slot_duration_seconds = 30\<rparr>"

definition sample_template :: block where
  "sample_template = set_extra (template_extra (replicate 32 9) 0) sample_block"

text \<open>A signature scheme in which a signature is the hash of the message and the key.\<close>

definition sample_sign :: "bytes \<Rightarrow> bytes \<Rightarrow> bytes option" where
  "sample_sign sk m = Some (cn_fast_hash m @ sk)"

definition sample_verify :: "bytes \<Rightarrow> bytes \<Rightarrow> bytes \<Rightarrow> bool" where
  "sample_verify sig m pk \<longleftrightarrow> sig = cn_fast_hash m @ pk"

lemma sample_template_wf: "wf_block sample_template"
  unfolding sample_template_def
  by (rule wf_set_extra [OF sample_block_wf])
    (simp add: template_extra_def add_extra_nonce_to_tx_extra_def add_tx_pub_key_to_extra_def
      LEADER_INFO_RESERVED_SIZE_def TX_EXTRA_NONCE_MAX_COUNT_def)

lemma sample_template_extra: "extra (miner_tx sample_template) = template_extra (replicate 32 9) 0"
  by (simp add: sample_template_def)

definition sample_validator :: temp_consensus_validator where
  "sample_validator = set_enabled True (new_validator \<lparr>expected_leader_id = [], v_leader_pubkey = []\<rparr>)"

definition sample_signed :: block where
  "sample_signed = set_extra (save_fields [tx_extra_leader_info (authorized_seeds ! 2)
     (cn_fast_hash (block_id (set_extra [] sample_block)) @ seed_pubkey 2)]) sample_block"

lemma sample_validator_enabled [simp]: "v_enabled sample_validator"
  by (simp add: sample_validator_def set_enabled_def)

lemma sample_signed_wf: "wf_block sample_signed"
  unfolding sample_signed_def
  by (rule wf_set_extra [OF sample_block_wf])
    (simp add: snd_save_field snd_save_string length_seed seed_key_parses
      le_less_trans [OF length_write_varint_u64 [of "of_nat 98", simplified]])

lemma sample_signed_accepted: "validate_leader_block sample_verify sample_validator sample_signed 2000000"
  by (subst validate_fields [OF sample_validator_enabled _ sample_signed_wf, where fs = "[tx_extra_leader_info
        (authorized_seeds ! 2) (cn_fast_hash (block_id (set_extra [] sample_block)) @ seed_pubkey 2)]"])
    (auto simp: TEMPORARY_CONSENSUS_ACTIVATION_HEIGHT_def sample_signed_def sample_verify_def length_seed
      seed_key_parses intro!: exI [of _ 2])

text \<open>
  Agreement of leader and validator, for a leader configured as seed \<open>i\<close> with a secret key whose
  signatures verify under that seed's key.
\<close>

lemma leader_block_accepted:
  assumes template: "get_block_template (replicate LEADER_INFO_RESERVED_SIZE 0) = Some bl" "wf_block bl"
      "extra (miner_tx bl) = template_extra pk k" "length pk = 32" "pk \<noteq> null_pkey" "k \<le> 4993"
    and leader: "i < 4" "leader_id cfg = authorized_seeds ! i"
    and ed25519: "\<And>m. length m = 32 \<Longrightarrow> \<exists>sig. sign (libsodium_seckey cfg) m = Some sig \<and>
        length sig = 64 \<and> verify sig m (seed_pubkey i)"
    and "v_enabled v"
  shows "\<exists>b. generate_block sign cfg get_block_template size_ok submit slot
        = (if size_ok (block_to_blob b) then (submit b, Some b) else (False, None))
      \<and> timestamp b = slot \<and> validate_leader_block verify v b height"
proof -
  obtain sig where sig: "sign (libsodium_seckey cfg) (block_id (leader_body cfg slot pk bl)) = Some sig"
      "length sig = 64" "verify sig (block_id (leader_body cfg slot pk bl)) (seed_pubkey i)"
    using ed25519 [of "block_id (leader_body cfg slot pk bl)"] by auto
  have "length (leader_id cfg) < 2 ^ 32" using leader length_seed by simp
  note eq = generate_block_eq [where get_block_template = get_block_template and sign = sign, OF template sig(1,2) this]
  let ?b = "reloaded (set_extra (save_fields [tx_extra_pub_key pk, tx_extra_leader_info (leader_id cfg) sig])
      (leader_body cfg slot pk bl))"
  have "validate_leader_block verify v ?b height"
  proof (cases "TEMPORARY_CONSENSUS_ACTIVATION_HEIGHT \<le> height")
    case True
    show ?thesis
      by (subst validate_fields [OF \<open>v_enabled v\<close> True eq(2,4,3)])
        (use eq(5) sig(3) leader in auto)
  next
    case False
    then have "height < TEMPORARY_CONSENSUS_ACTIVATION_HEIGHT" by (simp only: not_le)
    with \<open>v_enabled v\<close> show ?thesis unfolding validate_leader_block_def by simp
  qed
  moreover have "timestamp ?b = slot" by (simp add: reloaded_def set_extra_def leader_body_def)
  ultimately show ?thesis using eq(1) by blast
qed

text \<open>
  C2: Soundness of the validator. From the activation height on, a block (of any contents) that
  passes carries leader metadata naming one of the four seed nodes, the metadata can be
  removed, the block without it survives serialization, and the signature verifies, under the
  key configured for that very seed, over the id of the block without the metadata. A
  disabled validator rejects every block.
\<close>
theorem validator_sound:
  assumes "validate_leader_block verify v b height" "TEMPORARY_CONSENSUS_ACTIVATION_HEIGHT \<le> height"
  shows "v_enabled v \<and> (\<exists>i < 4. \<exists>sig ex b'.
      get_leader_info_from_tx_extra (extra (miner_tx b)) = Some (authorized_seeds ! i, sig) \<and>
      remove_leader_info_from_tx_extra (extra (miner_tx b)) = (True, ex) \<and>
      parse_and_validate_block_from_blob (block_to_blob (set_extra ex b)) = Some b' \<and>
      verify sig (block_id b') (seed_pubkey i))"
proof -
  have h: "height \<noteq> 0" "\<not> height < TEMPORARY_CONSENSUS_ACTIVATION_HEIGHT"
    using assms(2) by (auto simp: TEMPORARY_CONSENSUS_ACTIVATION_HEIGHT_def not_less)
  with assms(1) obtain lid sig i where l: "v_enabled v"
      "get_leader_info_from_tx_extra (extra (miner_tx b)) = Some (lid, sig)"
      "seed_index lid authorized_seeds = Some i"
    by (auto simp: validate_leader_block_def split: if_splits option.splits)
  have i: "i < 4" "authorized_seeds ! i = lid" using seed_index_Some [OF l(3)] by simp_all
  obtain ok ex where ex: "remove_leader_info_from_tx_extra (extra (miner_tx b)) = (ok, ex)"
    by (cases "remove_leader_info_from_tx_extra (extra (miner_tx b))")
  from assms(1) h l ex seed_key_parses [OF i(1)]
  obtain b' where b': ok "parse_and_validate_block_from_blob (block_to_blob (set_extra ex b)) = Some b'"
      "verify sig (fst (get_block_hash b')) (seed_pubkey i)"
    by (auto simp: validate_leader_block_def set_extra_def split: if_splits option.splits)
  from b'(3) have "verify sig (block_id b') (seed_pubkey i)"
    by (simp add: get_block_hash_coherent(1) [OF parsed_cache_ok [OF b'(2)]])
  with l i ex b' show ?thesis by auto
qed

theorem validator_sound_witness:
  "v_enabled sample_validator \<and> (\<exists>i < 4. \<exists>sig ex b'.
      get_leader_info_from_tx_extra (extra (miner_tx sample_signed)) = Some (authorized_seeds ! i, sig) \<and>
      remove_leader_info_from_tx_extra (extra (miner_tx sample_signed)) = (True, ex) \<and>
      parse_and_validate_block_from_blob (block_to_blob (set_extra ex sample_signed)) = Some b' \<and>
      sample_verify sig (block_id b') (seed_pubkey i))"
  by (rule validator_sound [OF sample_signed_accepted]) (simp add: TEMPORARY_CONSENSUS_ACTIVATION_HEIGHT_def)

text \<open>
  C36: The leader metadata itself is not covered by the signature. Appending one more leader
  info field, with any id and any 64 bytes as the signature, to the miner transaction of an
  accepted block gives a different serialized block that the validator accepts as well: the
  reader takes the first field, the removal drops all of them.
\<close>
theorem leader_metadata_malleable:
  assumes wf: "wf_block b" "extra (miner_tx b) = save_fields fs" "wf_fields fs"
      "\<And>f. f \<in> set fs \<Longrightarrow> field_type f \<noteq> T_padding"
    and accepted: "validate_leader_block verify v b height" "TEMPORARY_CONSENSUS_ACTIVATION_HEIGHT \<le> height"
    and added: "add_leader_info_to_tx_extra (extra (miner_tx b)) lid sig = (True, ex)" "length sig = 64"
      "length lid < 2 ^ 64" "length ex < 2 ^ 64"
  shows "validate_leader_block verify v (set_extra ex b) height \<and> extra (miner_tx (set_extra ex b)) \<noteq> extra (miner_tx b)
    \<and> block_to_blob (set_extra ex b) \<noteq> block_to_blob b"
proof -
  let ?fs = "fs @ [tx_extra_leader_info lid sig]"
  have ex: "ex = save_fields ?fs" using added(1) wf(2) by (simp add: add_leader_info_eq)
  have en: "v_enabled v" using accepted(1) by (auto simp: validate_leader_block_def split: if_splits)
  have wf': "wf_block (set_extra ex b)" using wf(1) added(4) by (rule wf_set_extra)
  have fs': "wf_fields ?fs" using wf(3,4) added(2,3) by (simp add: wf_fields_append)
  have acc: "validate_leader_block verify v (set_extra ex b) height"
    using accepted(1) unfolding validate_fields [OF en accepted(2) wf(1,2,3)]
    by (subst validate_fields [OF en accepted(2) wf' _ fs'])
      (auto simp: ex split: list.splits tx_extra_field.splits)
  have ne: "extra (miner_tx (set_extra ex b)) \<noteq> extra (miner_tx b)" using wf(2) by (simp add: ex)
  have "block_to_blob (set_extra ex b) \<noteq> block_to_blob b"
  proof
    assume "block_to_blob (set_extra ex b) = block_to_blob b"
    with parse_block_to_blob [OF wf'] parse_block_to_blob [OF wf(1)]
    have "reloaded (set_extra ex b) = reloaded b" by simp
    from arg_cong [OF this, of "\<lambda>b. extra (miner_tx b)"] ne show False by simp
  qed
  with acc ne show ?thesis by blast
qed

theorem leader_metadata_malleable_witness:
  "\<exists>ex. add_leader_info_to_tx_extra (extra (miner_tx sample_signed)) [] (replicate 64 0) = (True, ex) \<and>
     validate_leader_block sample_verify sample_validator (set_extra ex sample_signed) 2000000 \<and>
     extra (miner_tx (set_extra ex sample_signed)) \<noteq> extra (miner_tx sample_signed) \<and>
     block_to_blob (set_extra ex sample_signed) \<noteq> block_to_blob sample_signed"
proof -
  let ?fs = "[tx_extra_leader_info (authorized_seeds ! 2) (cn_fast_hash (block_id (set_extra [] sample_block)) @ seed_pubkey 2)]"
  obtain ex where ex: "add_leader_info_to_tx_extra (extra (miner_tx sample_signed)) [] (replicate 64 0) = (True, ex)"
    by (simp add: add_leader_info_eq)
  have "length ex < 2 ^ 64"
    using ex length_write_varint_u64 [of "of_nat 98"] length_write_varint_u64 [of 0]
    by (auto simp: add_leader_info_eq sample_signed_def snd_save_field snd_save_string length_seed seed_key_parses)
  moreover have "extra (miner_tx sample_signed) = save_fields ?fs" by (simp add: sample_signed_def)
  ultimately show ?thesis
    using leader_metadata_malleable [OF sample_signed_wf _ _ _ sample_signed_accepted _ ex, of ?fs] ex
    by (simp add: TEMPORARY_CONSENSUS_ACTIVATION_HEIGHT_def length_seed seed_key_parses)
qed

lemma length_write_varint_98: "length (write_varint (98 :: u64)) = 1"
  by code_simp

text \<open>
  The reserved space suffices. The leader metadata of every seed takes 164 bytes, and the extra
  that carries it is eight bytes shorter than the extra of the template, whose reserved nonce
  the block weight was computed with.
\<close>
theorem leader_info_fits_reserved:
  assumes "i < 4" "length sig = 64" "length pk = 32"
  defines "ex \<equiv> snd (add_leader_info_to_tx_extra (add_tx_pub_key_to_extra [] pk) (authorized_seeds ! i) sig)"
  shows "length (snd (save_field (tx_extra_leader_info (authorized_seeds ! i) sig))) = 164
    \<and> 164 \<le> LEADER_INFO_RESERVED_SIZE \<and> length ex + 8 = length (template_extra pk 0)"
  using assms
  by (simp add: add_leader_info_eq add_tx_pub_key_to_extra_def snd_save_field snd_save_string length_seed
      length_write_varint_98 LEADER_INFO_RESERVED_SIZE_def template_extra_def add_extra_nonce_to_tx_extra_def
      TX_EXTRA_NONCE_MAX_COUNT_def)

theorem leader_info_fits_reserved_witness:
  "length (snd (save_field (tx_extra_leader_info (authorized_seeds ! 1) (replicate 64 0)))) = 164
    \<and> 164 \<le> LEADER_INFO_RESERVED_SIZE
    \<and> length (snd (add_leader_info_to_tx_extra (add_tx_pub_key_to_extra [] (replicate 32 1)) (authorized_seeds ! 1) (replicate 64 0))) + 8
      = length (template_extra (replicate 32 1) 0)"
  by (rule leader_info_fits_reserved) simp_all

end
