(* ===== verification/Leader_Service.thy ===== *)
theory Leader_Service
  imports Temp_Consensus
begin

text \<open>
  The leader service as a running component and its set-up by the daemon: time slots, the
  service loop (\<^verbatim>\<open>temp_consensus_leader_service.cpp\<close>) as a step relation over the clock, the
  stop flag and the outcome of each generation, and the constructor, \<open>run\<close> and \<open>stop\<close> of
  \<^verbatim>\<open>src/src/daemon/temp_consensus.cpp\<close>.

  Shown here: slot arithmetic; in every run of the loop the slots for which blocks were
  generated are strictly increasing slot boundaries, so no slot gets two blocks; a daemon
  that starts as leader holds the signing key of the seed it is configured as.
\<close>

subsection \<open>Slots\<close>

definition next_slot_timestamp :: "leader_config \<Rightarrow> u64 \<Rightarrow> u64" where
  "next_slot_timestamp cfg current_time =
     (let remainder = current_time mod slot_duration_seconds cfg in
      if remainder = 0 then current_time
      else current_time + (slot_duration_seconds cfg - remainder))"

definition is_slot_boundary :: "leader_config \<Rightarrow> u64 \<Rightarrow> bool" where
  "is_slot_boundary cfg t \<longleftrightarrow> t mod slot_duration_seconds cfg = 0"

subsection \<open>The service\<close>

record leader_service =
  m_config :: leader_config
  m_running :: bool
  m_stop_requested :: bool
  m_last_generated_slot :: u64

definition new_leader_service :: "leader_config \<Rightarrow> leader_service" where
  "new_leader_service cfg =
     \<lparr>m_config = cfg, m_running = False, m_stop_requested = False, m_last_generated_slot = 0\<rparr>"

definition service_start :: "leader_service \<Rightarrow> bool \<times> leader_service" where
  "service_start s =
     (if m_running s then (False, s)
      else (True, s\<lparr>m_stop_requested := False, m_running := True\<rparr>))"

definition service_stop :: "leader_service \<Rightarrow> leader_service" where
  "service_stop s =
     (if \<not> m_running s then s else s\<lparr>m_stop_requested := True, m_running := False\<rparr>)"

text \<open>
  One turn of the loop: the clock reads \<open>now\<close>; \<open>stopped\<close> tells whether the stop flag was raised
  while waiting for the slot; \<open>gen slot\<close> is the result of \<open>generate_block\<close>, an exception counting
  as failure.
\<close>

datatype turn = Waiting | Stopped | Generated u64 | Failed u64

definition service_turn :: "leader_service \<Rightarrow> u64 \<Rightarrow> bool \<Rightarrow> (u64 \<Rightarrow> bool) \<Rightarrow> turn \<times> leader_service" where
  "service_turn s now stopped gen =
     (let next_slot = next_slot_timestamp (m_config s) now in
      if next_slot \<le> m_last_generated_slot s then (Waiting, s)
      else if now < next_slot \<and> stopped then (Stopped, s\<lparr>m_stop_requested := True\<rparr>)
      else if gen next_slot then (Generated next_slot, s\<lparr>m_last_generated_slot := next_slot\<rparr>)
      else (Failed next_slot, s))"

text \<open>
  Runs of the loop: turns while the stop flag is down, and the flag being raised from outside.
  The system clock counts nanoseconds in 64 bits, so that the seconds it returns are bounded.
\<close>

definition max_clock :: u64 where
  "max_clock = 9223372036"

inductive service_run :: "leader_service \<Rightarrow> turn list \<Rightarrow> leader_service \<Rightarrow> bool" for s where
  run_start: "service_run s [] s"
| run_turn: "service_run s ts s' \<Longrightarrow> \<not> m_stop_requested s' \<Longrightarrow> now \<le> max_clock \<Longrightarrow>
     service_turn s' now stopped gen = (t, s'') \<Longrightarrow>
     service_run s (ts @ [t]) s''"
| run_stop: "service_run s ts s' \<Longrightarrow> service_run s ts (s'\<lparr>m_stop_requested := True\<rparr>)"

fun generated :: "turn list \<Rightarrow> u64 list" where
  "generated [] = []"
| "generated (Generated slot # ts) = slot # generated ts"
| "generated (_ # ts) = generated ts"

subsection \<open>The daemon's set-up\<close>

record daemon_args =
  arg_temp_consensus_enabled :: bool
  arg_temp_consensus_leader :: bool
  arg_delegates_public_address :: bytes
  arg_delegates_secret_key :: bytes

record t_temp_consensus =
  d_enabled :: bool
  d_is_leader :: bool
  d_config_error :: bool
  d_leader_service :: "leader_service option"
  d_validator :: "temp_consensus_validator option"

definition config_error :: "bool \<Rightarrow> t_temp_consensus" where
  "config_error is_leader = \<lparr>d_enabled = False, d_is_leader = is_leader, d_config_error = True,
     d_leader_service = None, d_validator = None\<rparr>"

definition with_validator :: "bool \<Rightarrow> leader_service option \<Rightarrow> bytes \<Rightarrow> t_temp_consensus" where
  "with_validator is_leader svc pk = \<lparr>d_enabled = True, d_is_leader = is_leader, d_config_error = False,
     d_leader_service = svc,
     d_validator = Some (set_enabled True (new_validator \<lparr>expected_leader_id = [], v_leader_pubkey = pk\<rparr>))\<rparr>"

text \<open>The check of the derived key against the key configured for the seed.\<close>

definition pubkey_matches :: "bytes \<Rightarrow> bytes \<Rightarrow> bool" where
  "pubkey_matches address derived_pubkey_hex = (case seed_index address authorized_seeds of
     None \<Rightarrow> False
   | Some i \<Rightarrow> authorized_ed25519_pubkeys ! i = [] \<or> derived_pubkey_hex = authorized_ed25519_pubkeys ! i)"

text \<open>The secret key of the command line: 128 hexadecimal characters, a seed and a public key.\<close>

definition parse_keypair :: "bytes \<Rightarrow> (bytes \<times> bytes) option" where
  "parse_keypair secret =
     (if secret = [] then None
      else if length secret \<noteq> 128 then None
      else case parse_hexstr_to_binbuff False secret of
        None \<Rightarrow> None
      | Some keypair_binary \<Rightarrow>
          if length keypair_binary \<noteq> 64 then None
          else Some (take 32 keypair_binary, drop 32 keypair_binary))"

definition test_signature ::
    "(bytes \<Rightarrow> bytes \<Rightarrow> bytes option) \<Rightarrow> (bytes \<Rightarrow> bytes \<Rightarrow> bytes \<Rightarrow> bool) \<Rightarrow> bytes \<Rightarrow> bytes \<Rightarrow> bool" where
  "test_signature sign verify seckey pubkey =
     (let test_hash = cn_fast_hash (str ''temporary_consensus_test'') in
      case sign seckey test_hash of
        None \<Rightarrow> False
      | Some sig \<Rightarrow> verify sig test_hash pubkey)"

text \<open>The leader branch of the constructor; \<open>seed_keypair\<close> returns the public and the secret key.\<close>

definition leader_setup ::
    "(bytes \<Rightarrow> (bytes \<times> bytes) option) \<Rightarrow> (bytes \<Rightarrow> bytes \<Rightarrow> bytes option) \<Rightarrow> (bytes \<Rightarrow> bytes \<Rightarrow> bytes \<Rightarrow> bool)
     \<Rightarrow> bytes \<Rightarrow> bytes \<Rightarrow> account_public_address \<Rightarrow> leader_config option" where
  "leader_setup seed_keypair sign verify address secret info =
     (case parse_keypair secret of
        None \<Rightarrow> None
      | Some (seed, expected_pubkey) \<Rightarrow>
          (case seed_keypair seed of
             None \<Rightarrow> None
           | Some (derived_pubkey, seckey) \<Rightarrow>
               if derived_pubkey \<noteq> expected_pubkey then None
               else if \<not> pubkey_matches address (pod_to_hex derived_pubkey) then None
               else if \<not> test_signature sign verify seckey derived_pubkey then None
               else Some \<lparr>leader_id = address, leader_pubkey = derived_pubkey,
                 leader_ed25519_pubkey = expected_pubkey, leader_seckey = seed,
                 libsodium_seckey = seckey, miner_address = info, enable_pow = False,
                 slot_duration_seconds = 30\<rparr>))"

text \<open>\<open>parse_address\<close> is \<open>get_account_address_from_str\<close> for the network of the command line.\<close>

definition new_temp_consensus ::
    "(bytes \<Rightarrow> account_public_address option) \<Rightarrow> (bytes \<Rightarrow> (bytes \<times> bytes) option)
     \<Rightarrow> (bytes \<Rightarrow> bytes \<Rightarrow> bytes option) \<Rightarrow> (bytes \<Rightarrow> bytes \<Rightarrow> bytes \<Rightarrow> bool) \<Rightarrow> daemon_args \<Rightarrow> t_temp_consensus" where
  "new_temp_consensus parse_address seed_keypair sign verify args =
     (if \<not> arg_temp_consensus_enabled args then
        \<lparr>d_enabled = False, d_is_leader = False, d_config_error = False, d_leader_service = None, d_validator = None\<rparr>
      else
        let is_leader = arg_temp_consensus_leader args;
            address = arg_delegates_public_address args;
            secret = arg_delegates_secret_key args in
        if address = [] then config_error is_leader
        else if seed_index address authorized_seeds = None then config_error is_leader
        else (case parse_address address of
          None \<Rightarrow> config_error is_leader
        | Some info \<Rightarrow>
            if \<not> is_leader then with_validator is_leader None (m_spend_public_key info)
            else (case leader_setup seed_keypair sign verify address secret info of
              None \<Rightarrow> config_error is_leader
            | Some cfg \<Rightarrow> with_validator is_leader (Some (new_leader_service cfg)) (leader_pubkey cfg))))"

definition temp_consensus_run :: "t_temp_consensus \<Rightarrow> bool \<times> t_temp_consensus" where
  "temp_consensus_run d =
     (if d_config_error d then (False, d)
      else if \<not> d_enabled d then (True, d)
      else (case d_leader_service d of
        Some svc \<Rightarrow>
          if d_is_leader d then
            (case service_start svc of (ok, svc') \<Rightarrow> (ok, d\<lparr>d_leader_service := Some svc'\<rparr>))
          else (True, d)
      | None \<Rightarrow> (True, d)))"

definition temp_consensus_stop :: "t_temp_consensus \<Rightarrow> t_temp_consensus" where
  "temp_consensus_stop d =
     (if \<not> d_enabled d then d
      else d\<lparr>d_leader_service := map_option service_stop (d_leader_service d),
             d_validator := map_option (set_enabled False) (d_validator d)\<rparr>)"

subsection \<open>Slot arithmetic\<close>

lemma unat_next_slot:
  assumes "0 < slot_duration_seconds cfg" "unat now + unat (slot_duration_seconds cfg) < 2 ^ 64"
  shows "unat (next_slot_timestamp cfg now) =
    (let r = unat now mod unat (slot_duration_seconds cfg) in
     if r = 0 then unat now else unat now + (unat (slot_duration_seconds cfg) - r))"
proof -
  let ?d = "slot_duration_seconds cfg" and ?r = "now mod slot_duration_seconds cfg"
  have d: "0 < unat ?d" using assms(1) by (simp add: word_less_nat_alt)
  have r: "unat ?r = unat now mod unat ?d" by (simp add: unat_mod)
  then have le: "unat ?r < unat ?d" using d by simp
  have "unat (?d - ?r) = unat ?d - unat ?r" using le by (simp add: unat_sub word_le_nat_alt)
  moreover have "unat now + (unat ?d - unat ?r) < 2 ^ LENGTH(64)" using assms(2) by simp
  ultimately have "unat (now + (?d - ?r)) = unat now + (unat ?d - unat ?r)"
    by (simp add: unat_word_ariths(1))
  moreover have "?r = 0 \<longleftrightarrow> unat now mod unat ?d = 0"
    using r by (simp add: unat_eq_zero [symmetric])
  ultimately show ?thesis using r by (simp add: next_slot_timestamp_def Let_def)
qed

lemma boundary_unat: "is_slot_boundary cfg t \<longleftrightarrow> unat t mod unat (slot_duration_seconds cfg) = 0"
  unfolding is_slot_boundary_def by (metis unat_eq_zero unat_mod)

lemma round_up:
  fixes n d :: nat
  assumes "0 < d"
  defines "s \<equiv> (if n mod d = 0 then n else n + (d - n mod d))"
  shows "s mod d = 0" "n \<le> s" "s < n + d"
proof -
  have "n + (d - n mod d) = n div d * d + d" using assms(1) by (simp add: minus_mod_eq_div_mult [symmetric] less_imp_le)
  then show "s mod d = 0" by (simp add: s_def)
  have "n mod d < d" using assms(1) by simp
  then show "n \<le> s" "s < n + d" using assms(1) unfolding s_def by (simp_all del: add_diff_assoc)
qed

lemma next_slot:
  assumes "0 < slot_duration_seconds cfg" "unat now + unat (slot_duration_seconds cfg) < 2 ^ 64"
  shows "is_slot_boundary cfg (next_slot_timestamp cfg now)"
    and "now \<le> next_slot_timestamp cfg now"
    and "unat (next_slot_timestamp cfg now) < unat now + unat (slot_duration_seconds cfg)"
proof -
  have d: "0 < unat (slot_duration_seconds cfg)" using assms(1) by (simp add: word_less_nat_alt)
  note r = round_up [OF d, of "unat now"]
  show "is_slot_boundary cfg (next_slot_timestamp cfg now)"
    using r by (simp add: boundary_unat unat_next_slot [OF assms] Let_def)
  show "now \<le> next_slot_timestamp cfg now"
    using r by (simp add: word_le_nat_alt unat_next_slot [OF assms] Let_def)
  show "unat (next_slot_timestamp cfg now) < unat now + unat (slot_duration_seconds cfg)"
    using r by (simp add: unat_next_slot [OF assms] Let_def)
qed

definition good_duration :: "leader_config \<Rightarrow> bool" where
  "good_duration cfg \<longleftrightarrow> 0 < slot_duration_seconds cfg \<and> slot_duration_seconds cfg < 2 ^ 63"

lemma clock_fits:
  "good_duration cfg \<Longrightarrow> now \<le> max_clock \<Longrightarrow> unat now + unat (slot_duration_seconds cfg) < 2 ^ 64"
  by (simp add: good_duration_def max_clock_def word_le_nat_alt word_less_nat_alt)

lemmas next_slot_clock = next_slot [OF _ clock_fits]

subsection \<open>Runs\<close>

lemma generated_append [simp]: "generated (xs @ ys) = generated xs @ generated ys"
  by (induction xs rule: generated.induct) auto

lemma service_turn_config: "service_turn s now st gen = (t, s') \<Longrightarrow> m_config s' = m_config s"
  by (auto simp: service_turn_def Let_def split: if_splits)

lemma run_config: "service_run s ts s' \<Longrightarrow> m_config s' = m_config s"
  by (induction rule: service_run.induct) (auto dest: service_turn_config)

text \<open>The invariant of the loop: the slots so far, and the last one remembered.\<close>

definition slots_ok :: "leader_config \<Rightarrow> u64 list \<Rightarrow> u64 \<Rightarrow> bool" where
  "slots_ok cfg slots l \<longleftrightarrow> sorted_wrt (<) slots \<and> (\<forall>x \<in> set slots. is_slot_boundary cfg x \<and> x \<le> l)
     \<and> l = (if slots = [] then 0 else last slots)"

lemma slots_ok_snoc:
  "slots_ok cfg slots l \<Longrightarrow> l < x \<Longrightarrow> is_slot_boundary cfg x \<Longrightarrow> slots_ok cfg (slots @ [x]) x"
  by (fastforce simp: slots_ok_def sorted_wrt_append)

lemma run_slots_ok:
  assumes "service_run (new_leader_service cfg) ts s" "good_duration cfg"
  shows "slots_ok cfg (generated ts) (m_last_generated_slot s)"
  using assms
proof (induction rule: service_run.induct)
  case run_start
  then show ?case by (simp add: slots_ok_def new_leader_service_def)
next
  case (run_turn ts s' now st gen t s'')
  have cfg: "m_config s' = cfg" using run_config [OF run_turn.hyps(1)] by (simp add: new_leader_service_def)
  have "is_slot_boundary cfg (next_slot_timestamp cfg now)"
    using next_slot_clock(1) run_turn.hyps(3) run_turn.prems by (simp add: good_duration_def)
  with run_turn.IH [OF run_turn.prems] run_turn.hyps(4) cfg show ?case
    by (auto simp: service_turn_def Let_def not_le slots_ok_snoc split: if_splits)
qed simp

text \<open>
  C3: No slot gets two blocks. In every run of the leader's loop, from a fresh service and
  whatever the clock does and whichever generations fail, the slots for which blocks were
  generated are strictly increasing multiples of the slot duration, and the service
  remembers the last of them.
\<close>
theorem generated_slots_increasing:
  assumes "service_run (new_leader_service cfg) ts s" "good_duration cfg"
  shows "sorted_wrt (<) (generated ts) \<and> distinct (generated ts)
    \<and> list_all (is_slot_boundary cfg) (generated ts)
    \<and> m_last_generated_slot s = (if generated ts = [] then 0 else last (generated ts))"
  using run_slots_ok [OF assms] by (auto simp: slots_ok_def list_all_iff strict_sorted_iff)

lemma sample_run:
  "service_run (new_leader_service sample_leader) [Generated 60, Waiting, Failed 120]
     (new_leader_service sample_leader\<lparr>m_last_generated_slot := 60\<rparr>)"
proof -
  let ?s = "new_leader_service sample_leader" and ?s' = "new_leader_service sample_leader\<lparr>m_last_generated_slot := 60\<rparr>"
  have 1: "service_run ?s ([] @ [Generated 60]) ?s'"
    by (rule run_turn [OF run_start, where now = 31 and stopped = False and gen = "\<lambda>_. True"])
      (simp_all add: new_leader_service_def sample_leader_def service_turn_def next_slot_timestamp_def max_clock_def)
  have 2: "service_run ?s (([] @ [Generated 60]) @ [Waiting]) ?s'"
    by (rule run_turn [OF 1, where now = 42])
      (simp_all add: new_leader_service_def sample_leader_def service_turn_def next_slot_timestamp_def max_clock_def)
  have "service_run ?s ((([] @ [Generated 60]) @ [Waiting]) @ [Failed 120]) ?s'"
    by (rule run_turn [OF 2, where now = 119 and stopped = False and gen = "\<lambda>_. False"])
      (simp_all add: new_leader_service_def sample_leader_def service_turn_def next_slot_timestamp_def max_clock_def)
  then show ?thesis by simp
qed

lemma sample_duration: "good_duration sample_leader"
  by (simp add: good_duration_def sample_leader_def)

theorem generated_slots_increasing_witness:
  "sorted_wrt (<) (generated [Generated 60, Waiting, Failed 120]) \<and> distinct (generated [Generated 60, Waiting, Failed 120])
    \<and> list_all (is_slot_boundary sample_leader) (generated [Generated 60, Waiting, Failed 120])
    \<and> m_last_generated_slot (new_leader_service sample_leader\<lparr>m_last_generated_slot := 60\<rparr>)
      = (if generated [Generated 60, Waiting, Failed 120] = [] then 0 else last (generated [Generated 60, Waiting, Failed 120]))"
  by (rule generated_slots_increasing [OF sample_run sample_duration])

text \<open>
  C9: The loop makes progress. From any state that a run reaches with the stop flag down, once
  the clock has passed the last generated slot, a turn whose generation succeeds and that is
  not stopped extends the run by a block for a slot boundary less than one slot duration
  after the clock, and not before it.
\<close>
theorem leader_progress:
  assumes "service_run (new_leader_service cfg) ts s" "good_duration cfg" "\<not> m_stop_requested s"
    and "m_last_generated_slot s < now" "now \<le> max_clock" "gen (next_slot_timestamp cfg now)"
  shows "\<exists>s' slot. service_turn s now False gen = (Generated slot, s')
    \<and> service_run (new_leader_service cfg) (ts @ [Generated slot]) s' \<and> m_last_generated_slot s' = slot
    \<and> is_slot_boundary cfg slot \<and> now \<le> slot \<and> unat slot < unat now + unat (slot_duration_seconds cfg)"
proof -
  let ?slot = "next_slot_timestamp cfg now"
  have cfg: "m_config s = cfg" using run_config [OF assms(1)] by (simp add: new_leader_service_def)
  have "0 < slot_duration_seconds cfg" using assms(2) by (simp add: good_duration_def)
  note slot = next_slot_clock [OF this assms(2,5)]
  have turn: "service_turn s now False gen = (Generated ?slot, s\<lparr>m_last_generated_slot := ?slot\<rparr>)"
    using assms(4,6) slot(2) cfg by (auto simp: service_turn_def Let_def)
  show ?thesis
    using turn run_turn [OF assms(1,3,5) turn] slot
    by (intro exI [of _ "s\<lparr>m_last_generated_slot := ?slot\<rparr>"] exI [of _ ?slot]) simp
qed

theorem leader_progress_witness:
  "\<exists>s' slot. service_turn (new_leader_service sample_leader\<lparr>m_last_generated_slot := 60\<rparr>) 61 False (\<lambda>_. True) = (Generated slot, s')
    \<and> service_run (new_leader_service sample_leader) ([Generated 60, Waiting, Failed 120] @ [Generated slot]) s'
    \<and> m_last_generated_slot s' = slot
    \<and> is_slot_boundary sample_leader slot \<and> 61 \<le> slot \<and> unat slot < unat (61 :: u64) + unat (slot_duration_seconds sample_leader)"
  by (rule leader_progress [OF sample_run sample_duration]) (simp_all add: new_leader_service_def max_clock_def)

subsection \<open>A configured leader\<close>

lemma pubkey_matches_seed:
  assumes "pubkey_matches address (pod_to_hex pk)"
  obtains i where "i < 4" "address = authorized_seeds ! i" "pk = seed_pubkey i"
proof -
  from assms obtain i where i: "seed_index address authorized_seeds = Some i"
    by (auto simp: pubkey_matches_def split: option.splits)
  then have "i < 4" "address = authorized_seeds ! i" using seed_index_Some [OF i] by simp_all
  moreover have "pk = seed_pubkey i"
    using assms i seed_key_parses(1,3) [OF \<open>i < 4\<close>] parse_write_hex [of False pk]
    by (simp add: pubkey_matches_def pod_to_hex_def to_hex_string_def)
  ultimately show ?thesis by (rule that)
qed

lemma configured_leader:
  assumes "d_leader_service (new_temp_consensus parse_address seed_keypair sign verify args) = Some svc"
  obtains i info where "i < 4" "m_config svc = \<lparr>leader_id = authorized_seeds ! i, leader_pubkey = seed_pubkey i,
      leader_ed25519_pubkey = seed_pubkey i, leader_seckey = leader_seckey (m_config svc),
      libsodium_seckey = libsodium_seckey (m_config svc), miner_address = info, enable_pow = False,
      slot_duration_seconds = 30\<rparr>"
    "seed_keypair (leader_seckey (m_config svc)) = Some (seed_pubkey i, libsodium_seckey (m_config svc))"
    "parse_address (authorized_seeds ! i) = Some info" "svc = new_leader_service (m_config svc)"
  using assms
  by (auto simp: new_temp_consensus_def leader_setup_def Let_def config_error_def with_validator_def
      new_leader_service_def split: if_splits option.splits elim!: pubkey_matches_seed)

text \<open>
  C1: A daemon that comes up as leader produces blocks that the network accepts. Suppose libsodium
  keeps its contract (a key pair derived from a seed signs every message, with 64 bytes that
  verify under its public key) and the core's template carries a transaction key and the
  reserved nonce. If the constructor accepts the command line and creates a leader service,
  then that service, in every slot, hands the core a block stamped with the slot (unless the
  size check refuses it), and every enabled validator accepts the block at every height.
\<close>
theorem configured_leader_accepted:
  assumes daemon: "d_leader_service (new_temp_consensus parse_address seed_keypair sign verify args) = Some svc"
    and libsodium: "\<And>seed pk sk m. seed_keypair seed = Some (pk, sk) \<Longrightarrow>
        \<exists>sig. sign sk m = Some sig \<and> length sig = 64 \<and> verify sig m pk"
    and template: "get_block_template (replicate LEADER_INFO_RESERVED_SIZE 0) = Some bl" "wf_block bl"
      "extra (miner_tx bl) = template_extra pk k" "length pk = 32" "pk \<noteq> null_pkey" "k \<le> 4993"
    and "v_enabled v"
  shows "\<exists>b. generate_block sign (m_config svc) get_block_template size_ok submit slot
        = (if size_ok (block_to_blob b) then (submit b, Some b) else (False, None))
      \<and> timestamp b = slot \<and> validate_leader_block verify v b height"
proof -
  obtain i info where i: "i < 4" and cfg: "m_config svc = \<lparr>leader_id = authorized_seeds ! i,
      leader_pubkey = seed_pubkey i, leader_ed25519_pubkey = seed_pubkey i,
      leader_seckey = leader_seckey (m_config svc), libsodium_seckey = libsodium_seckey (m_config svc),
      miner_address = info, enable_pow = False, slot_duration_seconds = 30\<rparr>"
    and key: "seed_keypair (leader_seckey (m_config svc)) = Some (seed_pubkey i, libsodium_seckey (m_config svc))"
    using configured_leader [OF daemon] by metis
  have "leader_id (m_config svc) = authorized_seeds ! i" by (subst cfg) simp
  then show ?thesis
    by (rule leader_block_accepted [where get_block_template = get_block_template, OF template i])
      (use libsodium [OF key] \<open>v_enabled v\<close> in auto)
qed

definition sample_keypair :: "bytes \<Rightarrow> (bytes \<times> bytes) option" where
  "sample_keypair seed = Some (seed_pubkey 2, seed_pubkey 2)"

definition sample_args :: daemon_args where
  "sample_args = \<lparr>arg_temp_consensus_enabled = True, arg_temp_consensus_leader = True,
     arg_delegates_public_address = authorized_seeds ! 2,
     arg_delegates_secret_key = to_hex_string (replicate 32 0 @ seed_pubkey 2)\<rparr>"

definition sample_address :: account_public_address where
  "sample_address = \<lparr>m_spend_public_key = replicate 32 4, m_view_public_key = replicate 32 5\<rparr>"

definition sample_daemon :: t_temp_consensus where
  "sample_daemon = new_temp_consensus (\<lambda>_. Some sample_address) sample_keypair sample_sign sample_verify sample_args"

lemma sample_daemon_service:
  "d_leader_service sample_daemon = Some (new_leader_service \<lparr>leader_id = authorized_seeds ! 2,
     leader_pubkey = seed_pubkey 2, leader_ed25519_pubkey = seed_pubkey 2, leader_seckey = replicate 32 0,
     libsodium_seckey = seed_pubkey 2, miner_address = sample_address, enable_pow = False, slot_duration_seconds = 30\<rparr>)"
proof -
  have "authorized_seeds ! 2 \<noteq> []" using length_seed [of 2] by auto
  moreover have "pubkey_matches (authorized_seeds ! 2) (pod_to_hex (seed_pubkey 2))"
    by code_simp
  moreover have "write_hex (replicate 32 0 @ seed_pubkey 2) \<noteq> []"
    using length_write_hex [of "replicate 32 0 @ seed_pubkey 2"] by force
  ultimately show ?thesis
    by (simp add: sample_daemon_def new_temp_consensus_def leader_setup_def parse_keypair_def test_signature_def
        sample_args_def to_hex_string_def parse_write_hex seed_index_seed seed_key_parses sample_keypair_def sample_sign_def sample_verify_def with_validator_def Let_def)
qed

theorem configured_leader_accepted_witness:
  "\<exists>svc b. d_leader_service sample_daemon = Some svc
      \<and> generate_block sample_sign (m_config svc) (\<lambda>_. Some sample_template) (\<lambda>_. True) (\<lambda>_. True) 1700000010
        = (if True then (True, Some b) else (False, None))
      \<and> timestamp b = 1700000010 \<and> validate_leader_block sample_verify sample_validator b 2000000"
proof -
  obtain svc where svc: "d_leader_service sample_daemon = Some svc" using sample_daemon_service by blast
  have "\<exists>b. generate_block sample_sign (m_config svc) (\<lambda>_. Some sample_template) (\<lambda>_. True) (\<lambda>_. True) 1700000010
        = (if True then (True, Some b) else (False, None))
      \<and> timestamp b = 1700000010 \<and> validate_leader_block sample_verify sample_validator b 2000000"
    by (rule configured_leader_accepted [OF svc [unfolded sample_daemon_def], where size_ok = "\<lambda>_. True" and submit = "\<lambda>_. True"
          and get_block_template = "\<lambda>_. Some sample_template"])
      (auto simp: sample_template_wf sample_template_extra null_pkey_def sample_keypair_def sample_sign_def
        sample_verify_def seed_key_parses)
  with svc show ?thesis by blast
qed

lemma new_temp_consensus_cases:
  assumes "\<not> arg_temp_consensus_enabled args \<Longrightarrow> P \<lparr>d_enabled = False, d_is_leader = False, d_config_error = False,
      d_leader_service = None, d_validator = None\<rparr>"
    and "\<And>l. arg_temp_consensus_enabled args \<Longrightarrow> P (config_error l)"
    and "\<And>cfg pk. arg_temp_consensus_enabled args \<Longrightarrow> arg_temp_consensus_leader args \<Longrightarrow>
      P (with_validator True (Some (new_leader_service cfg)) pk)"
    and "\<And>pk. arg_temp_consensus_enabled args \<Longrightarrow> \<not> arg_temp_consensus_leader args \<Longrightarrow> P (with_validator False None pk)"
  shows "P (new_temp_consensus parse_address seed_keypair sign verify args)"
  using assms by (simp add: new_temp_consensus_def Let_def split: option.split prod.split)

text \<open>
  C34: Life cycle of the daemon's component. A configuration error makes \<open>run\<close> fail and leaves
  everything off; a disabled component runs and stops without effect; a fresh leader starts
  exactly once (a second \<open>run\<close> fails because the service is running); after \<open>stop\<close> an enabled
  component has no running service and its validator rejects every block.
\<close>
theorem daemon_lifecycle:
  fixes parse_address seed_keypair sign verify args
  defines "d \<equiv> new_temp_consensus parse_address seed_keypair sign verify args"
  shows "if d_config_error d then \<not> fst (temp_consensus_run d) \<and> d_leader_service d = None \<and> d_validator d = None
    else if \<not> arg_temp_consensus_enabled args then temp_consensus_run d = (True, d) \<and> temp_consensus_stop d = d
    else fst (temp_consensus_run d)
      \<and> (fst (temp_consensus_run (snd (temp_consensus_run d))) \<longleftrightarrow> \<not> arg_temp_consensus_leader args)
      \<and> (case d_leader_service (temp_consensus_stop (snd (temp_consensus_run d))) of
           None \<Rightarrow> \<not> arg_temp_consensus_leader args | Some svc \<Rightarrow> \<not> m_running svc \<and> m_stop_requested svc)
      \<and> (case d_validator (temp_consensus_stop (snd (temp_consensus_run d))) of
           None \<Rightarrow> False | Some v \<Rightarrow> (\<forall>b height. \<not> validate_leader_block verify v b height))"
proof -
  show ?thesis
    unfolding d_def
    by (rule new_temp_consensus_cases)
      (simp_all add: config_error_def with_validator_def temp_consensus_run_def temp_consensus_stop_def service_start_def
        service_stop_def new_leader_service_def set_enabled_def new_validator_def validate_leader_block_def)
qed

end
