(* ===== verification/Hard_Fork.thy ===== *)
theory Hard_Fork
  imports Tx_Hash
begin

text \<open>
  Hard fork voting, \<^verbatim>\<open>src/src/cryptonote_basic/hardfork.cpp\<close>: the table of forks, the sliding window of
  votes, and the current fork. Block heights and the window size are natural numbers (with
  the 64-bit wrap of the threshold written out), votes are 32-bit words as in the code; the
  lock and the batch transactions of the database are left out.

  Of the database the component uses the chain of blocks and the version recorded for each
  height; reading a version that is not there throws in the code and is \<open>None\<close> here.

  Shown here: the invariant of the window and its counters, which index the vote elects, that
  a block is only added with the current version and the current fork never goes back, and
  that restarting a node restores exactly the state it had.
\<close>

subsection \<open>State\<close>

record fork_params =
  f_version :: u8
  f_threshold :: u8
  f_height :: nat
  f_time :: int

record HardFork =
  original_version :: u8
  original_version_till_height :: nat
  forked_time :: int
  update_time :: int
  window_size :: nat
  default_threshold_percent :: u8
  heights :: "fork_params list"
  versions :: "u8 list"
  last_versions :: "u8 \<Rightarrow> u32"
  current_fork_index :: nat

text \<open>The part of the database that the component uses.\<close>

record hf_db =
  db_blocks :: "block list"
  db_versions :: "nat \<Rightarrow> u8 option"

abbreviation db_height :: "hf_db \<Rightarrow> nat" where
  "db_height db \<equiv> length (db_blocks db)"

definition set_hard_fork_version :: "hf_db \<Rightarrow> nat \<Rightarrow> u8 \<Rightarrow> hf_db" where
  "set_hard_fork_version db height v = db\<lparr>db_versions := (db_versions db)(height \<mapsto> v)\<rparr>"

definition get_hard_fork_version :: "hf_db \<Rightarrow> nat \<Rightarrow> u8 option" where
  "get_hard_fork_version db height = db_versions db height"

subsection \<open>Construction\<close>

definition get_block_vote :: "block \<Rightarrow> u8" where
  "get_block_vote b = (if minor_version b = 0 then 1 else minor_version b)"

definition get_block_version :: "block \<Rightarrow> u8" where
  "get_block_version b = major_version b"

text \<open>\<open>None\<close> where the constructor throws.\<close>

definition new_HardFork :: "u8 \<Rightarrow> nat \<Rightarrow> int \<Rightarrow> int \<Rightarrow> nat \<Rightarrow> u8 \<Rightarrow> HardFork option" where
  "new_HardFork orig till forked update window threshold =
     (if window = 0 then None
      else if threshold > 100 then None
      else Some \<lparr>original_version = orig, original_version_till_height = till, forked_time = forked,
        update_time = update, window_size = window, default_threshold_percent = threshold,
        heights = [], versions = [], last_versions = (\<lambda>_. 0), current_fork_index = 0\<rparr>)"

definition add_fork :: "HardFork \<Rightarrow> u8 \<Rightarrow> nat \<Rightarrow> u8 \<Rightarrow> int \<Rightarrow> bool \<times> HardFork" where
  "add_fork hf v h thr t =
     (if v = 0 then (False, hf)
      else if heights hf \<noteq> [] \<and> v \<le> f_version (last (heights hf)) then (False, hf)
      else if heights hf \<noteq> [] \<and> h \<le> f_height (last (heights hf)) then (False, hf)
      else if heights hf \<noteq> [] \<and> t \<le> f_time (last (heights hf)) then (False, hf)
      else if thr > 100 then (False, hf)
      else (True, hf\<lparr>heights := heights hf @ [\<lparr>f_version = v, f_threshold = thr, f_height = h, f_time = t\<rparr>]\<rparr>))"

definition add_fork_default :: "HardFork \<Rightarrow> u8 \<Rightarrow> nat \<Rightarrow> int \<Rightarrow> bool \<times> HardFork" where
  "add_fork_default hf v h t = add_fork hf v h (default_threshold_percent hf) t"

definition get_effective_version :: "HardFork \<Rightarrow> u8 \<Rightarrow> u8" where
  "get_effective_version hf voting_version =
     (if heights hf \<noteq> [] \<and> voting_version > f_version (last (heights hf))
      then f_version (last (heights hf)) else voting_version)"

subsection \<open>Voting\<close>

text \<open>The loop over the forks from the last one down to the one after the current one.\<close>

fun voted_loop :: "HardFork \<Rightarrow> nat \<Rightarrow> nat \<Rightarrow> u32 \<Rightarrow> nat" where
  "voted_loop hf height n accumulated_votes =
     (if n \<le> current_fork_index hf then current_fork_index hf
      else
        let p = heights hf ! n;
            accumulated_votes = accumulated_votes + last_versions hf (f_version p);
            threshold = of_nat ((window_size hf * unat (f_threshold p) + 99) mod 2 ^ 64 div 100) in
        if height \<ge> f_height p \<and> accumulated_votes \<ge> threshold then n
        else voted_loop hf height (n - 1) accumulated_votes)"

declare voted_loop.simps [simp del]

definition get_voted_fork_index :: "HardFork \<Rightarrow> nat \<Rightarrow> nat" where
  "get_voted_fork_index hf height = voted_loop hf height (length (heights hf) - 1) 0"

definition do_check :: "HardFork \<Rightarrow> u8 \<Rightarrow> u8 \<Rightarrow> bool" where
  "do_check hf block_version voting_version \<longleftrightarrow>
     block_version = f_version (heights hf ! current_fork_index hf) \<and>
     voting_version \<ge> f_version (heights hf ! current_fork_index hf)"

definition check :: "HardFork \<Rightarrow> block \<Rightarrow> bool" where
  "check hf b = do_check hf (get_block_version b) (get_block_vote b)"

definition do_check_for_height :: "HardFork \<Rightarrow> u8 \<Rightarrow> u8 \<Rightarrow> nat \<Rightarrow> bool" where
  "do_check_for_height hf block_version voting_version height =
     (let fork_index = get_voted_fork_index hf height in
      block_version = f_version (heights hf ! fork_index) \<and>
      voting_version \<ge> f_version (heights hf ! fork_index))"

definition check_for_height :: "HardFork \<Rightarrow> block \<Rightarrow> nat \<Rightarrow> bool" where
  "check_for_height hf b height = do_check_for_height hf (get_block_version b) (get_block_vote b) height"

text \<open>Dropping the oldest votes until there is room for one more.\<close>

fun pop_votes :: "nat \<Rightarrow> u8 list \<Rightarrow> (u8 \<Rightarrow> u32) \<Rightarrow> u8 list \<times> (u8 \<Rightarrow> u32)" where
  "pop_votes window [] lv = ([], lv)"
| "pop_votes window (v # vs) lv =
     (if length (v # vs) \<ge> window then pop_votes window vs (lv(v := lv v - 1)) else (v # vs, lv))"

definition push_vote :: "HardFork \<Rightarrow> u8 \<Rightarrow> HardFork" where
  "push_vote hf v = hf\<lparr>last_versions := (last_versions hf)(v := last_versions hf v + 1), versions := versions hf @ [v]\<rparr>"

text \<open>The elected index goes through an 8-bit variable.\<close>

definition advance :: "HardFork \<Rightarrow> nat \<Rightarrow> HardFork" where
  "advance hf height =
     (let voted = get_voted_fork_index hf height mod 256 in
      if voted > current_fork_index hf then hf\<lparr>current_fork_index := voted\<rparr> else hf)"

definition add_versions :: "HardFork \<Rightarrow> hf_db \<Rightarrow> u8 \<Rightarrow> u8 \<Rightarrow> nat \<Rightarrow> bool \<times> HardFork \<times> hf_db" where
  "add_versions hf db block_version voting_version height =
     (if \<not> do_check hf block_version voting_version then (False, hf, db)
      else
        let db = set_hard_fork_version db height (f_version (heights hf ! current_fork_index hf));
            voting_version = get_effective_version hf voting_version;
            (vs, lv) = pop_votes (window_size hf) (versions hf) (last_versions hf);
            hf = push_vote (hf\<lparr>versions := vs, last_versions := lv\<rparr>) voting_version in
        (True, advance hf (height + 1), db))"

definition add :: "HardFork \<Rightarrow> hf_db \<Rightarrow> block \<Rightarrow> nat \<Rightarrow> bool \<times> HardFork \<times> hf_db" where
  "add hf db b height = add_versions hf db (get_block_version b) (get_block_vote b) height"

subsection \<open>Rebuilding the state from the database\<close>

definition clear_votes :: "HardFork \<Rightarrow> HardFork" where
  "clear_votes hf = hf\<lparr>versions := [], last_versions := (\<lambda>_. 0)\<rparr>"

text \<open>The votes of the blocks from a height on, up to and excluding another.\<close>

definition scan_votes :: "HardFork \<Rightarrow> hf_db \<Rightarrow> nat \<Rightarrow> nat \<Rightarrow> HardFork" where
  "scan_votes hf db from till =
     foldl (\<lambda>hf h. push_vote hf (get_effective_version hf (get_block_vote (db_blocks db ! h)))) hf [from..<till]"

fun lower_index :: "HardFork \<Rightarrow> u8 \<Rightarrow> nat \<Rightarrow> nat" where
  "lower_index hf start_version 0 = 0"
| "lower_index hf start_version (Suc i) =
     (if f_version (heights hf ! Suc i) > start_version then lower_index hf start_version i else Suc i)"

definition replay :: "HardFork \<Rightarrow> hf_db \<Rightarrow> nat \<Rightarrow> HardFork \<times> hf_db" where
  "replay hf db from =
     foldl (\<lambda>(hf, db) h. snd (add hf db (db_blocks db ! h) h)) (hf, db) [from..<db_height db]"

definition reorganize_from_block_height :: "HardFork \<Rightarrow> hf_db \<Rightarrow> nat \<Rightarrow> (bool \<times> HardFork \<times> hf_db) option" where
  "reorganize_from_block_height hf db height =
     (if height \<ge> db_height db then Some (False, hf, db)
      else do {
        let hf = clear_votes hf;
        let rescan_height = (if height \<ge> window_size hf - 1 then height - (window_size hf - 1) else 0);
        start_version \<leftarrow> (if height = 0 then Some (original_version hf) else get_hard_fork_version db height);
        let hf = hf\<lparr>current_fork_index := lower_index hf start_version (current_fork_index hf)\<rparr>;
        let hf = scan_votes hf db rescan_height (height + 1);
        let hf = advance hf (height + 1);
        let (hf, db) = replay hf db (height + 1);
        Some (True, hf, db) })"

definition reorganize_from_chain_height :: "HardFork \<Rightarrow> hf_db \<Rightarrow> nat \<Rightarrow> (bool \<times> HardFork \<times> hf_db) option" where
  "reorganize_from_chain_height hf db height =
     (if height = 0 then Some (False, hf, db) else reorganize_from_block_height hf db (height - 1))"

text \<open>The first fork with the version of the last block, or the last fork.\<close>

fun find_index :: "fork_params list \<Rightarrow> u8 \<Rightarrow> nat" where
  "find_index [] lastv = 0"
| "find_index [p] lastv = 0"
| "find_index (p # q # ps) lastv = (if f_version p \<noteq> lastv then Suc (find_index (q # ps) lastv) else 0)"

definition rescan_from_block_height :: "HardFork \<Rightarrow> hf_db \<Rightarrow> nat \<Rightarrow> (bool \<times> HardFork) option" where
  "rescan_from_block_height hf db height =
     (if height \<ge> db_height db then Some (False, hf)
      else do {
        let hf = clear_votes hf;
        let hf = scan_votes hf db height (db_height db);
        lastv \<leftarrow> get_hard_fork_version db (db_height db - 1);
        let hf = hf\<lparr>current_fork_index := find_index (heights hf) lastv\<rparr>;
        Some (True, advance hf (db_height db)) })"

definition rescan_from_chain_height :: "HardFork \<Rightarrow> hf_db \<Rightarrow> nat \<Rightarrow> (bool \<times> HardFork) option" where
  "rescan_from_chain_height hf db height =
     (if height = 0 then Some (False, hf) else rescan_from_block_height hf db (height - 1))"

definition init :: "HardFork \<Rightarrow> hf_db \<Rightarrow> (HardFork \<times> hf_db) option" where
  "init hf db =
     (let hf = (if heights hf = [] then hf\<lparr>heights := [\<lparr>f_version = original_version hf, f_threshold = 0, f_height = 0, f_time = 0\<rparr>]\<rparr> else hf);
          hf = clear_votes hf\<lparr>current_fork_index := 0\<rparr>;
          height = (if db_height db > window_size hf then db_height db - (window_size hf - 1) else 1);
          populate = (get_hard_fork_version db 0 = None);
          height = (if populate then 1 else height) in
      if populate then do {
        (r, hf, db) \<leftarrow> reorganize_from_chain_height hf db height;
        Some (hf, set_hard_fork_version db 0 (original_version hf)) }
      else do {
        (r, hf) \<leftarrow> rescan_from_chain_height hf db height;
        Some (hf, db) })"

subsection \<open>Queries\<close>

definition get_current_version :: "HardFork \<Rightarrow> u8" where
  "get_current_version hf = f_version (heights hf ! current_fork_index hf)"

text \<open>\<open>None\<close> where the database throws.\<close>

definition get :: "HardFork \<Rightarrow> hf_db \<Rightarrow> nat \<Rightarrow> u8 option" where
  "get hf db height =
     (if height > db_height db then Some 255
      else if height = db_height db then Some (get_current_version hf)
      else get_hard_fork_version db height)"

definition get_ideal_version :: "HardFork \<Rightarrow> u8" where
  "get_ideal_version hf = f_version (last (heights hf))"

definition get_ideal_version_at :: "HardFork \<Rightarrow> nat \<Rightarrow> u8" where
  "get_ideal_version_at hf height =
     (case filter (\<lambda>p. height \<ge> f_height p) (rev (tl (heights hf))) of
        p # _ \<Rightarrow> f_version p | [] \<Rightarrow> original_version hf)"

text \<open>Without any fork of the version the result is the largest 64-bit number.\<close>

definition get_earliest_ideal_height_for_version :: "HardFork \<Rightarrow> u8 \<Rightarrow> nat" where
  "get_earliest_ideal_height_for_version hf v =
     (case rev (takeWhile (\<lambda>p. f_version p \<ge> v) (rev (heights hf))) of
        p # _ \<Rightarrow> f_height p | [] \<Rightarrow> 2 ^ 64 - 1)"

fun next_version_loop :: "nat \<Rightarrow> fork_params option \<Rightarrow> fork_params list \<Rightarrow> u8 option" where
  "next_version_loop height later [] = None"
| "next_version_loop height later (p # ps) =
     (if height \<ge> f_height p then Some (f_version (case later of None \<Rightarrow> p | Some q \<Rightarrow> q))
      else next_version_loop height (Some p) ps)"

definition get_next_version :: "HardFork \<Rightarrow> hf_db \<Rightarrow> u8" where
  "get_next_version hf db =
     (case next_version_loop (db_height db) None (rev (heights hf)) of Some v \<Rightarrow> v | None \<Rightarrow> original_version hf)"

record voting_info =
  vi_enabled :: bool
  vi_window :: u32
  vi_votes :: u32
  vi_threshold :: u32
  vi_earliest_height :: nat
  vi_voting :: u8

definition get_voting_info :: "HardFork \<Rightarrow> u8 \<Rightarrow> voting_info" where
  "get_voting_info hf v =
     (let window = of_nat (length (versions hf)) in
      \<lparr>vi_enabled = get_current_version hf \<ge> v,
       vi_window = window,
       vi_votes = sum_list (map (\<lambda>n. last_versions hf (of_nat n)) [unat v..<256]),
       vi_threshold = (window * ucast (f_threshold (heights hf ! current_fork_index hf)) + 99) div 100,
       vi_earliest_height = get_earliest_ideal_height_for_version hf v,
       vi_voting = f_version (last (heights hf))\<rparr>)"

definition get_block_version_at :: "HardFork \<Rightarrow> hf_db \<Rightarrow> nat \<Rightarrow> u8 option" where
  "get_block_version_at hf db height =
     (if height \<le> original_version_till_height hf then Some (original_version hf)
      else if height < db_height db then Some (get_block_version (db_blocks db ! height)) else None)"

datatype hf_state = LikelyForked | UpdateNeeded | Ready

definition get_state :: "HardFork \<Rightarrow> int \<Rightarrow> hf_state" where
  "get_state hf t = Ready"

subsection \<open>The fork table\<close>

definition later :: "fork_params \<Rightarrow> fork_params \<Rightarrow> bool" where
  "later p q \<longleftrightarrow> f_version p < f_version q \<and> f_height p < f_height q \<and> f_time p < f_time q"

definition wf_forks :: "fork_params list \<Rightarrow> bool" where
  "wf_forks ps \<longleftrightarrow> sorted_wrt later ps \<and> list_all (\<lambda>p. f_version p \<noteq> 0 \<and> f_threshold p \<le> 100) ps"

lemma wf_forks_snoc:
  assumes "wf_forks ps" "ps \<noteq> [] \<Longrightarrow> later (last ps) p" "f_version p \<noteq> 0" "f_threshold p \<le> 100"
  shows "wf_forks (ps @ [p])"
proof (cases "ps = []")
  case False
  have "later q p" if "q \<in> set ps" for q
  proof -
    obtain qs where ps: "ps = qs @ [last ps]" using False append_butlast_last_id by metis
    have "sorted_wrt later (qs @ [last ps])" "q \<in> set (qs @ [last ps])"
      using that assms(1) ps by (simp_all add: wf_forks_def)
    then have "q = last ps \<or> later q (last ps)" by (auto simp: sorted_wrt_append)
    with assms(2) [OF False] show ?thesis by (auto simp: later_def)
  qed
  with assms show ?thesis by (simp add: wf_forks_def sorted_wrt_append)
qed (use assms in \<open>simp add: wf_forks_def\<close>)

lemma add_fork_wf: "wf_forks (heights hf) \<Longrightarrow> add_fork hf v h thr t = (r, hf') \<Longrightarrow> wf_forks (heights hf')"
proof -
  assume wf: "wf_forks (heights hf)" and a: "add_fork hf v h thr t = (r, hf')"
  let ?p = "\<lparr>f_version = v, f_threshold = thr, f_height = h, f_time = t\<rparr>"
  from a have "hf' = hf \<or> hf' = hf\<lparr>heights := heights hf @ [?p]\<rparr> \<and> (heights hf \<noteq> [] \<longrightarrow> later (last (heights hf)) ?p)
      \<and> v \<noteq> 0 \<and> thr \<le> 100"
    by (auto simp: add_fork_def later_def not_le not_less split: if_splits)
  with wf wf_forks_snoc [of "heights hf" ?p] show ?thesis by auto
qed

lemma wf_forks_versions: "wf_forks ps \<Longrightarrow> sorted_wrt (<) (map f_version ps)"
  unfolding wf_forks_def sorted_wrt_map by (auto simp: later_def elim: sorted_wrt_mono_rel [rotated])

lemma length_forks: "wf_forks ps \<Longrightarrow> length ps \<le> 256"
proof -
  assume "wf_forks ps"
  then have "distinct (map f_version ps)" using wf_forks_versions strict_sorted_iff by blast
  from distinct_card [OF this] have "length ps = card (set (map f_version ps))" by simp
  also have "\<dots> \<le> card (UNIV :: u8 set)" by (rule card_mono) simp_all
  finally show ?thesis by (simp add: card_word)
qed

lemma version_inj:
  "wf_forks ps \<Longrightarrow> i < length ps \<Longrightarrow> j < length ps \<Longrightarrow> f_version (ps ! i) = f_version (ps ! j) \<Longrightarrow> i = j"
  using wf_forks_versions [of ps] nth_eq_iff_index_eq [of "map f_version ps" i j] by (simp add: strict_sorted_iff)

lemma find_index:
  "wf_forks ps \<Longrightarrow> i < length ps \<Longrightarrow> find_index ps (f_version (ps ! i)) = i"
proof (induction ps "f_version (ps ! i)" arbitrary: i rule: find_index.induct)
  case (3 p q ps)
  have wf: "wf_forks (q # ps)" using 3(2) by (simp add: wf_forks_def)
  show ?case
  proof (cases i)
    case (Suc j)
    then have "f_version p \<noteq> f_version ((q # ps) ! j)"
      using version_inj [OF 3(2), of 0 i] 3(3) by auto
    with Suc wf 3 show ?thesis by auto
  qed simp
qed simp_all

subsection \<open>The elected fork\<close>

lemma voted_loop_bounds:
  "current_fork_index hf \<le> n \<Longrightarrow> current_fork_index hf \<le> voted_loop hf h n a \<and> voted_loop hf h n a \<le> n"
proof (induction n arbitrary: a)
  case (Suc n)
  let ?a = "a + last_versions hf (f_version (heights hf ! Suc n))"
  show ?case
    using Suc.IH [of ?a] Suc.prems unfolding voted_loop.simps [of hf h "Suc n" a] Let_def diff_Suc_1
    by (auto simp: le_Suc_eq)
qed (simp add: voted_loop.simps)

lemma get_voted_bounds:
  assumes "current_fork_index hf < length (heights hf)"
  shows "current_fork_index hf \<le> get_voted_fork_index hf h" "get_voted_fork_index hf h < length (heights hf)"
proof -
  have "current_fork_index hf \<le> length (heights hf) - 1" "0 < length (heights hf)" using assms by auto
  then show "current_fork_index hf \<le> get_voted_fork_index hf h" "get_voted_fork_index hf h < length (heights hf)"
    using voted_loop_bounds [of hf "length (heights hf) - 1" h 0] unfolding get_voted_fork_index_def by linarith+
qed

lemma advance_eq:
  assumes "wf_forks (heights hf)" "current_fork_index hf < length (heights hf)"
  shows "advance hf h = hf\<lparr>current_fork_index := get_voted_fork_index hf h\<rparr>"
proof -
  have "get_voted_fork_index hf h < 256"
    using get_voted_bounds(2) [OF assms(2), of h] length_forks [OF assms(1)] by simp
  then show ?thesis
    using get_voted_bounds(1) [OF assms(2), of h] by (cases hf) (auto simp: advance_def Let_def)
qed

subsection \<open>The window of votes\<close>

definition counted :: "u8 list \<Rightarrow> u8 \<Rightarrow> u32" where
  "counted vs = (\<lambda>v. of_nat (count_list vs v))"

lemma pop_votes:
  assumes "0 < w"
  shows "pop_votes w vs (counted vs) = (let vs' = drop (Suc (length vs) - w) vs in (vs', counted vs'))"
proof (induction vs)
  case (Cons v vs)
  have "(counted (v # vs))(v := counted (v # vs) v - 1) = counted vs"
    by (rule ext) (simp add: counted_def)
  with Cons show ?case by (auto simp: Let_def Suc_diff_le)
qed (use assms in simp)

lemma push_votes:
  "foldl push_vote (hf\<lparr>versions := vs, last_versions := counted vs\<rparr>) ws
     = hf\<lparr>versions := vs @ ws, last_versions := counted (vs @ ws)\<rparr>"
proof (induction ws arbitrary: vs)
  case (Cons w ws)
  have "push_vote (hf\<lparr>versions := vs, last_versions := counted vs\<rparr>) w
      = hf\<lparr>versions := vs @ [w], last_versions := counted (vs @ [w])\<rparr>"
  proof -
    have "(counted vs)(w := counted vs w + 1) = counted (vs @ [w])"
      by (rule ext) (simp add: counted_def)
    then show ?thesis by (simp add: push_vote_def)
  qed
  with Cons [of "vs @ [w]"] show ?case by simp
qed simp

lemma effective_fields [simp]:
  "get_effective_version (hf\<lparr>versions := vs\<rparr>) = get_effective_version hf"
  "get_effective_version (hf\<lparr>last_versions := lv\<rparr>) = get_effective_version hf"
  "get_effective_version (hf\<lparr>current_fork_index := i\<rparr>) = get_effective_version hf"
  "get_effective_version (push_vote hf v) = get_effective_version hf"
  by (auto simp: get_effective_version_def push_vote_def)

text \<open>The votes of the stored blocks from a height on.\<close>

definition votes :: "HardFork \<Rightarrow> block list \<Rightarrow> u8 list" where
  "votes hf bs = map (\<lambda>b. get_effective_version hf (get_block_vote b)) bs"

lemma scan_votes_fold:
  "scan_votes hf db a b = foldl push_vote hf (map (\<lambda>h. get_effective_version hf (get_block_vote (db_blocks db ! h))) [a..<b])"
proof -
  have "foldl (\<lambda>hf h. push_vote hf (get_effective_version hf (get_block_vote (db_blocks db ! h)))) hf xs
      = foldl push_vote hf (map (\<lambda>h. get_effective_version hf (get_block_vote (db_blocks db ! h))) xs)" for xs
    by (induction xs arbitrary: hf) simp_all
  then show ?thesis by (simp add: scan_votes_def)
qed

lemma scan_votes_clear:
  assumes "b \<le> db_height db"
  shows "scan_votes (clear_votes hf) db a b = hf\<lparr>versions := votes hf (drop a (take b (db_blocks db))),
    last_versions := counted (votes hf (drop a (take b (db_blocks db))))\<rparr>"
proof -
  have "map (\<lambda>h. get_effective_version hf (get_block_vote (db_blocks db ! h))) [a..<b] = votes hf (drop a (take b (db_blocks db)))"
    unfolding votes_def by (rule nth_equalityI) (use assms in auto)
  moreover have "clear_votes hf = hf\<lparr>versions := [], last_versions := counted []\<rparr>"
    by (simp add: clear_votes_def counted_def)
  ultimately show ?thesis by (simp add: scan_votes_fold push_votes)
qed

subsection \<open>Running and restarting\<close>

text \<open>
  The states of a running node: a table of forks is set up on an empty database and
  initialised, then blocks arrive. As in \<open>BlockchainDB::add_block\<close> the block is in the database
  when it is added here, at the height the chain had before.
\<close>

definition store_block :: "hf_db \<Rightarrow> block \<Rightarrow> hf_db" where
  "store_block db b = db\<lparr>db_blocks := db_blocks db @ [b]\<rparr>"

definition empty_db :: hf_db where
  "empty_db = \<lparr>db_blocks = [], db_versions = (\<lambda>_. None)\<rparr>"

inductive hf_running :: "HardFork \<Rightarrow> HardFork \<Rightarrow> hf_db \<Rightarrow> bool" for hf0 where
  run_init: "init hf0 empty_db = Some (hf, db) \<Longrightarrow> hf_running hf0 hf db"
| run_block: "hf_running hf0 hf db \<Longrightarrow> add hf (store_block db b) b (db_height db) = (True, hf', db') \<Longrightarrow>
    hf_running hf0 hf' db'"

text \<open>What a running node knows: the window holds the votes of the last blocks, and the current fork is
  elected from the fork under which the last block was recorded.\<close>

definition synced :: "HardFork \<Rightarrow> hf_db \<Rightarrow> bool" where
  "synced hf db \<longleftrightarrow> wf_forks (heights hf) \<and> 0 < window_size hf \<and> current_fork_index hf < length (heights hf) \<and>
     versions hf = votes hf (drop (db_height db - window_size hf) (db_blocks db)) \<and>
     last_versions hf = counted (versions hf) \<and> get_hard_fork_version db 0 \<noteq> None \<and>
     (db_blocks db \<noteq> [] \<longrightarrow> (\<exists>i < length (heights hf).
        get_hard_fork_version db (db_height db - 1) = Some (f_version (heights hf ! i)) \<and>
        current_fork_index hf = get_voted_fork_index (hf\<lparr>current_fork_index := i\<rparr>) (db_height db)))"

definition fork_table :: "HardFork \<Rightarrow> bool" where
  "fork_table hf \<longleftrightarrow> 0 < window_size hf \<and> heights hf \<noteq> [] \<and> wf_forks (heights hf)"

lemma init_empty:
  assumes "fork_table hf0" "init hf0 empty_db = Some (hf, db)"
  shows "synced hf db" "heights hf = heights hf0" "db_blocks db = []"
  using assms
  by (auto simp: init_def Let_def empty_db_def fork_table_def get_hard_fork_version_def set_hard_fork_version_def
      reorganize_from_chain_height_def reorganize_from_block_height_def clear_votes_def synced_def votes_def counted_def)

lemma add_eq:
  assumes "synced hf db" "add hf (store_block db b) b (db_height db) = (True, hf', db')"
  defines "vs \<equiv> votes hf (drop (Suc (db_height db) - window_size hf) (db_blocks db @ [b]))"
  defines "hf1 \<equiv> hf\<lparr>versions := vs, last_versions := counted vs\<rparr>"
  shows "hf' = hf1\<lparr>current_fork_index := get_voted_fork_index hf1 (Suc (db_height db))\<rparr>"
    "db' = set_hard_fork_version (store_block db b) (db_height db) (get_current_version hf)"
    "get_block_version b = get_current_version hf"
proof -
  let ?v = "get_effective_version hf (get_block_vote b)" and ?w = "window_size hf"
  from assms(1) have s: "wf_forks (heights hf)" "0 < ?w" "current_fork_index hf < length (heights hf)"
      "versions hf = votes hf (drop (db_height db - ?w) (db_blocks db))" "last_versions hf = counted (versions hf)"
    by (auto simp: synced_def)
  let ?vs = "drop (Suc (length (versions hf)) - ?w) (versions hf)"
  have "Suc n - (n - ?w + ?w) + (n - ?w) = Suc n - ?w" for n
    using s(2) by (cases "?w \<le> n") auto
  then have vs: "?vs @ [?v] = vs"
    using s(2) by (simp add: vs_def s(4) votes_def drop_map)
  have "push_vote (hf\<lparr>versions := ?vs, last_versions := counted ?vs\<rparr>) ?v = hf1"
    using push_votes [where hf = hf and vs = ?vs and ws = "[?v]"] by (simp add: vs hf1_def)
  moreover have "advance hf1 h = hf1\<lparr>current_fork_index := get_voted_fork_index hf1 h\<rparr>" for h
    by (rule advance_eq) (use s in \<open>simp_all add: hf1_def\<close>)
  ultimately show "hf' = hf1\<lparr>current_fork_index := get_voted_fork_index hf1 (Suc (db_height db))\<rparr>"
    "db' = set_hard_fork_version (store_block db b) (db_height db) (get_current_version hf)"
    "get_block_version b = get_current_version hf"
    using assms(2) pop_votes [OF s(2), of "versions hf"]
    by (auto simp: add_def add_versions_def do_check_def get_current_version_def Let_def s(5) split: if_splits prod.splits)
qed

lemma synced_add:
  assumes "synced hf db" "add hf (store_block db b) b (db_height db) = (True, hf', db')"
  shows "synced hf' db'"
proof -
  note eq = add_eq [OF assms]
  define vs where "vs = votes hf (drop (Suc (db_height db) - window_size hf) (db_blocks db @ [b]))"
  define hf1 where "hf1 = hf\<lparr>versions := vs, last_versions := counted vs\<rparr>"
  from eq(1) have hf': "hf' = hf1\<lparr>current_fork_index := get_voted_fork_index hf1 (Suc (db_height db))\<rparr>"
    by (simp add: hf1_def vs_def)
  have blocks: "db_blocks db' = db_blocks db @ [b]"
    by (simp add: eq(2) set_hard_fork_version_def store_block_def)
  have votes: "votes hf' = votes hf" by (simp add: hf' hf1_def votes_def fun_eq_iff)
  have cur: "current_fork_index hf < length (heights hf)" using assms(1) by (simp add: synced_def)
  have "hf'\<lparr>current_fork_index := current_fork_index hf\<rparr> = hf1" by (simp add: hf' hf1_def)
  then have elected: "current_fork_index hf' = get_voted_fork_index (hf'\<lparr>current_fork_index := current_fork_index hf\<rparr>) (db_height db')"
    by (simp add: hf' blocks)
  have recorded: "get_hard_fork_version db' (db_height db' - 1) = Some (f_version (heights hf ! current_fork_index hf))"
    by (simp add: eq(2) get_hard_fork_version_def set_hard_fork_version_def store_block_def get_current_version_def)
  have "get_hard_fork_version db' 0 \<noteq> None"
    using assms(1) by (auto simp: synced_def eq(2) get_hard_fork_version_def set_hard_fork_version_def store_block_def)
  moreover have "current_fork_index hf' < length (heights hf)"
    using get_voted_bounds(2) [of hf1] cur by (simp add: hf' hf1_def)
  moreover have fields: "heights hf' = heights hf" "window_size hf' = window_size hf" "versions hf' = vs"
      "last_versions hf' = counted vs" and "wf_forks (heights hf)" "0 < window_size hf"
    using assms(1) by (simp_all add: hf' hf1_def synced_def)
  moreover have "vs = votes hf (drop (db_height db' - window_size hf) (db_blocks db'))" by (simp add: vs_def blocks)
  moreover have "\<exists>i < length (heights hf). get_hard_fork_version db' (db_height db' - 1) = Some (f_version (heights hf ! i)) \<and>
      current_fork_index hf' = get_voted_fork_index (hf'\<lparr>current_fork_index := i\<rparr>) (db_height db')"
    using cur elected recorded by blast
  ultimately show ?thesis unfolding synced_def votes fields by blast
qed

lemma hf_running_synced:
  "hf_running hf0 hf db \<Longrightarrow> fork_table hf0 \<Longrightarrow> synced hf db \<and> heights hf = heights hf0"
proof (induction rule: hf_running.induct)
  case (run_block hf db b hf' db')
  from run_block.IH [OF run_block.prems] have s: "synced hf db" and hs: "heights hf = heights hf0" by blast+
  have "heights hf' = heights hf" by (subst add_eq(1) [OF s run_block.hyps(2)]) simp
  then show ?case using synced_add [OF s run_block.hyps(2)] hs by (simp only:)
next
  case (run_init hf db)
  then show ?case using init_empty(1,2) by blast
qed

lemma init_rescan:
  assumes "heights hf \<noteq> []" "get_hard_fork_version db 0 \<noteq> None"
  shows "init hf db = rescan_from_chain_height (clear_votes hf\<lparr>current_fork_index := 0\<rparr>) db
      (if db_height db > window_size hf then db_height db - (window_size hf - 1) else 1) \<bind> (\<lambda>(r, hf). Some (hf, db))"
proof -
  have "window_size (clear_votes hf\<lparr>current_fork_index := 0\<rparr>) = window_size hf" by (simp add: clear_votes_def)
  moreover obtain v where "get_hard_fork_version db 0 = Some v" using assms(2) by blast
  ultimately show ?thesis
    using assms(1) unfolding init_def Let_def by simp
qed

text \<open>
  C4: Restarting a node restores its state. Let a node set up a table of forks (versions, heights and times
  increasing) on an empty database and receive any number of blocks, at least one. Then
  initialising it again from the stored blocks and versions changes nothing: the same votes
  in the window, the same counters, the same current fork, and the database as it was.
\<close>
theorem hardfork_restart:
  assumes "fork_table hf0" "hf_running hf0 hf db" "db_blocks db \<noteq> []"
  shows "init hf db = Some (hf, db)"
proof -
  from hf_running_synced [OF assms(2,1)] assms(1) have s: "synced hf db" and ne: "heights hf \<noteq> []"
    by (auto simp: fork_table_def)
  from s assms(3) obtain i where i: "i < length (heights hf)"
      "get_hard_fork_version db (db_height db - 1) = Some (f_version (heights hf ! i))"
      "current_fork_index hf = get_voted_fork_index (hf\<lparr>current_fork_index := i\<rparr>) (db_height db)"
    by (auto simp: synced_def)
  let ?a = "db_height db - window_size hf" and ?clear = "clear_votes (hf\<lparr>current_fork_index := 0\<rparr>)"
  have w: "0 < window_size hf" "wf_forks (heights hf)" using s by (simp_all add: synced_def)
  let ?h = "if db_height db > window_size hf then db_height db - (window_size hf - 1) else 1"
  have "scan_votes ?clear db ?a (db_height db) = hf\<lparr>current_fork_index := 0\<rparr>"
    using s by (simp add: scan_votes_clear synced_def votes_def)
  moreover have "find_index (heights hf) (f_version (heights hf ! i)) = i" by (rule find_index [OF w(2) i(1)])
  moreover have "advance (hf\<lparr>current_fork_index := i\<rparr>) (db_height db) = hf"
    by (subst advance_eq) (use w i in \<open>simp_all flip: i(3)\<close>)
  moreover have "0 < db_height db" using assms(3) by simp
  then have "\<not> db_height db \<le> ?a" using w(1) by linarith
  moreover have "clear_votes ?clear = ?clear" by (simp add: clear_votes_def)
  ultimately have "rescan_from_block_height ?clear db ?a = Some (True, hf)"
    using i(2) by (simp add: rescan_from_block_height_def)
  moreover have "?h - 1 = ?a" "?h \<noteq> 0" using w(1) by auto
  ultimately have "rescan_from_chain_height ?clear db ?h = Some (True, hf)"
    unfolding rescan_from_chain_height_def by simp
  moreover have "clear_votes hf\<lparr>current_fork_index := 0\<rparr> = ?clear" by (simp add: clear_votes_def)
  moreover have nz: "get_hard_fork_version db 0 \<noteq> None" using s by (simp add: synced_def)
  ultimately show ?thesis by (simp only: init_rescan [OF ne nz] Option.bind.simps prod.case)
qed

subsection \<open>What the vote elects\<close>

text \<open>The votes in the window for a fork or a later one, and whether they elect it at a height.\<close>

definition support :: "HardFork \<Rightarrow> nat \<Rightarrow> nat" where
  "support hf n = length (filter (\<lambda>v. v \<in> set (map f_version (drop n (heights hf)))) (versions hf))"

definition elects :: "HardFork \<Rightarrow> nat \<Rightarrow> nat \<Rightarrow> bool" where
  "elects hf h n \<longleftrightarrow> f_height (heights hf ! n) \<le> h \<and> (window_size hf * unat (f_threshold (heights hf ! n)) + 99) div 100 \<le> support hf n"

lemma length_filter_insert:
  "v \<notin> S \<Longrightarrow> length (filter (\<lambda>x. x = v \<or> x \<in> S) xs) = count_list xs v + length (filter (\<lambda>x. x \<in> S) xs)"
  by (induction xs) auto

lemma support_step:
  assumes "wf_forks (heights hf)" "n < length (heights hf)"
  shows "support hf n = count_list (versions hf) (f_version (heights hf ! n)) + support hf (Suc n)"
proof -
  have d: "drop n (heights hf) = heights hf ! n # drop (Suc n) (heights hf)" using assms(2) by (simp add: Cons_nth_drop_Suc)
  have "distinct (map f_version (drop n (heights hf)))"
    using wf_forks_versions [OF assms(1)] by (simp add: strict_sorted_iff drop_map [symmetric])
  then have "f_version (heights hf ! n) \<notin> set (map f_version (drop (Suc n) (heights hf)))" by (simp add: d)
  from length_filter_insert [OF this] show ?thesis by (simp add: support_def d)
qed

lemma threshold_test:
  assumes "wf_forks (heights hf)" "n < length (heights hf)" "window_size hf < 2 ^ 32" "length (versions hf) \<le> window_size hf"
  shows "of_nat ((window_size hf * unat (f_threshold (heights hf ! n)) + 99) mod 2 ^ 64 div 100) \<le> (of_nat (support hf n) :: u32)
    \<longleftrightarrow> (window_size hf * unat (f_threshold (heights hf ! n)) + 99) div 100 \<le> support hf n"
proof -
  define X where "X = window_size hf * unat (f_threshold (heights hf ! n))"
  have "f_threshold (heights hf ! n) \<le> 100"
    using assms(1,2) by (auto simp: wf_forks_def list_all_length)
  then have "X \<le> window_size hf * 100" unfolding X_def by (intro mult_le_mono2) (simp add: word_le_nat_alt)
  then have "X < 2 ^ 32 * 100" using assms(3) by linarith
  then have "(X + 99) mod 2 ^ 64 = X + 99" "(X + 99) div 100 < 2 ^ 32 + 1" by simp_all
  moreover have "(X + 99) div 100 \<le> window_size hf" using \<open>X \<le> window_size hf * 100\<close> by linarith
  moreover have "support hf n < 2 ^ 32"
    using length_filter_le [of _ "versions hf"] assms(3,4) unfolding support_def by (meson le_less_trans le_trans)
  ultimately show ?thesis
    using assms(3) unfolding X_def [symmetric] by (simp add: word_le_nat_alt unat_of_nat)
qed

lemma voted_loop_spec:
  fixes h :: nat
  assumes "wf_forks (heights hf)" "window_size hf < 2 ^ 32" "length (versions hf) \<le> window_size hf"
    "last_versions hf = counted (versions hf)"
    and "n < length (heights hf)" "current_fork_index hf \<le> n"
  defines "r \<equiv> voted_loop hf h n (of_nat (support hf (Suc n)))"
  shows "(r = current_fork_index hf \<or> elects hf h r) \<and> current_fork_index hf \<le> r \<and> r \<le> n \<and> (\<forall>m. r < m \<and> m \<le> n \<longrightarrow> \<not> elects hf h m)"
  using assms(5,6) unfolding r_def
proof (induction n)
  case (Suc n)
  let ?c = "current_fork_index hf"
  show ?case
  proof (cases "Suc n = ?c")
    case False
    have acc: "of_nat (support hf (Suc (Suc n))) + last_versions hf (f_version (heights hf ! Suc n)) = (of_nat (support hf (Suc n)) :: u32)"
      using support_step [OF assms(1) Suc.prems(1)] by (simp add: assms(4) counted_def add.commute)
    have eq: "voted_loop hf h (Suc n) (of_nat (support hf (Suc (Suc n))))
        = (if elects hf h (Suc n) then Suc n else voted_loop hf h n (of_nat (support hf (Suc n))))"
      unfolding voted_loop.simps [of hf h "Suc n"] Let_def acc threshold_test [OF assms(1) Suc.prems(1) assms(2,3)] elects_def
      using Suc.prems False by simp
    show ?thesis
    proof (cases "elects hf h (Suc n)")
      case no: False
      have "(voted_loop hf h n (of_nat (support hf (Suc n))) = ?c \<or> elects hf h (voted_loop hf h n (of_nat (support hf (Suc n)))))
        \<and> ?c \<le> voted_loop hf h n (of_nat (support hf (Suc n))) \<and> voted_loop hf h n (of_nat (support hf (Suc n))) \<le> n
        \<and> (\<forall>m. voted_loop hf h n (of_nat (support hf (Suc n))) < m \<and> m \<le> n \<longrightarrow> \<not> elects hf h m)"
        by (rule Suc.IH) (use Suc.prems False in simp_all)
      with no show ?thesis unfolding eq by (auto simp: le_Suc_eq)
    qed (use eq Suc.prems in auto)
  qed (auto simp: voted_loop.simps)
qed (auto simp: voted_loop.simps)

lemma support_all: "length (heights hf) \<le> n \<Longrightarrow> support hf n = 0"
  by (simp add: support_def)

lemma voted_fork_spec:
  assumes "wf_forks (heights hf)" "window_size hf < 2 ^ 32" "length (versions hf) \<le> window_size hf"
    "last_versions hf = counted (versions hf)" "current_fork_index hf < length (heights hf)"
  shows "let r = get_voted_fork_index hf h in
    (r = current_fork_index hf \<or> elects hf h r) \<and> current_fork_index hf \<le> r \<and> r < length (heights hf)
    \<and> (\<forall>m. r < m \<and> m < length (heights hf) \<longrightarrow> \<not> elects hf h m)"
proof -
  let ?n = "length (heights hf) - 1"
  have n: "?n < length (heights hf)" "current_fork_index hf \<le> ?n" "Suc ?n = length (heights hf)" using assms(5) by auto
  have z: "of_nat (support hf (Suc ?n)) = (0 :: u32)" unfolding n(3) by (simp add: support_all)
  show ?thesis
    using voted_loop_spec [OF assms(1-4) n(1,2), of h] n
    unfolding z get_voted_fork_index_def [symmetric] Let_def by (auto simp: less_Suc_eq_le [symmetric])
qed

text \<open>
  C27: The election. With the counters in step with the window of votes, the elected fork is the current one
  or a later one that the vote elects: its height is reached and the votes for it or for
  later forks are at least the rounded-up percentage of the window. No fork after the elected
  one is elected by the vote.
\<close>
theorem voted_fork_elected:
  assumes "wf_forks (heights hf)" "window_size hf < 2 ^ 32" "length (versions hf) \<le> window_size hf"
    "last_versions hf = counted (versions hf)" "current_fork_index hf < length (heights hf)"
  shows "let r = get_voted_fork_index hf h in
    (r = current_fork_index hf \<or> elects hf h r) \<and> current_fork_index hf \<le> r \<and> r < length (heights hf)
    \<and> (\<forall>m. r < m \<and> m < length (heights hf) \<longrightarrow> \<not> elects hf h m)"
  by (rule voted_fork_spec [OF assms])

subsection \<open>The main network\<close>

definition HF_BLOCK_HEIGHT_PROOF_OF_STAKE :: nat where
  "HF_BLOCK_HEIGHT_PROOF_OF_STAKE = 800000"

definition mainnet_hard_forks :: "(u8 \<times> nat \<times> u8 \<times> int) list" where
  "mainnet_hard_forks = [
     (1, 0, 0, 1531875600), (7, 1, 0, 1531962000), (8, 95085, 0, 1538524800), (9, 106000, 0, 1539550195),
     (10, 136000, 0, 1540145330), (11, 137000, 0, 1540146330), (12, 281000, 0, 1549310115),
     (13, HF_BLOCK_HEIGHT_PROOF_OF_STAKE, 0, 1561310115)]"

text \<open>The table is set up fork by fork, as \<open>Blockchain::init\<close> does, with the default window and threshold.\<close>

definition add_forks :: "HardFork \<Rightarrow> (u8 \<times> nat \<times> u8 \<times> int) list \<Rightarrow> HardFork" where
  "add_forks hf ps = foldl (\<lambda>hf (v, h, thr, t). snd (add_fork hf v h thr t)) hf ps"

definition DEFAULT_WINDOW_SIZE :: nat where "DEFAULT_WINDOW_SIZE = 10080"
definition DEFAULT_THRESHOLD_PERCENT :: u8 where "DEFAULT_THRESHOLD_PERCENT = 80"
definition DEFAULT_FORKED_TIME :: int where "DEFAULT_FORKED_TIME = 31557600"
definition DEFAULT_UPDATE_TIME :: int where "DEFAULT_UPDATE_TIME = 31557600 div 2"

definition mainnet_hardfork :: "HardFork option" where
  "mainnet_hardfork = map_option (\<lambda>hf. add_forks hf mainnet_hard_forks)
     (new_HardFork 1 1 DEFAULT_FORKED_TIME DEFAULT_UPDATE_TIME DEFAULT_WINDOW_SIZE DEFAULT_THRESHOLD_PERCENT)"

definition mk_fork :: "u8 \<times> nat \<times> u8 \<times> int \<Rightarrow> fork_params" where
  "mk_fork = (\<lambda>(v, h, thr, t). \<lparr>f_version = v, f_threshold = thr, f_height = h, f_time = t\<rparr>)"

lemma add_fork_ok:
  assumes "wf_forks (heights hf @ [mk_fork (v, h, thr, t)])"
  shows "add_fork hf v h thr t = (True, hf\<lparr>heights := heights hf @ [mk_fork (v, h, thr, t)]\<rparr>)"
proof -
  have "later (last (heights hf)) (mk_fork (v, h, thr, t))" if "heights hf \<noteq> []"
    using assms that by (simp add: wf_forks_def sorted_wrt_append)
  then show ?thesis
    using assms by (auto simp: add_fork_def later_def mk_fork_def wf_forks_def)
qed

lemma add_forks_ok:
  "wf_forks (heights hf @ map mk_fork ps) \<Longrightarrow> add_forks hf ps = hf\<lparr>heights := heights hf @ map mk_fork ps\<rparr>"
proof (induction ps arbitrary: hf)
  case (Cons p ps)
  obtain v h thr t where p: "p = (v, h, thr, t)" by (cases p)
  have "wf_forks (heights hf @ [mk_fork p])"
    using Cons.prems by (auto simp: wf_forks_def sorted_wrt_append)
  then have "add_fork hf v h thr t = (True, hf\<lparr>heights := heights hf @ [mk_fork p]\<rparr>)" unfolding p by (rule add_fork_ok)
  with Cons.IH [of "hf\<lparr>heights := heights hf @ [mk_fork p]\<rparr>"] Cons.prems show ?case
    by (simp add: add_forks_def p)
qed (simp add: add_forks_def)

lemma mainnet_table_wf: "wf_forks (map mk_fork mainnet_hard_forks)"
  by (simp add: wf_forks_def mainnet_hard_forks_def mk_fork_def later_def HF_BLOCK_HEIGHT_PROOF_OF_STAKE_def)

lemma mainnet_table:
  assumes "mainnet_hardfork = Some hf"
  shows "heights hf = map mk_fork mainnet_hard_forks" "window_size hf = 10080" "fork_table hf"
proof -
  from assms obtain hf0 where "new_HardFork 1 1 DEFAULT_FORKED_TIME DEFAULT_UPDATE_TIME DEFAULT_WINDOW_SIZE DEFAULT_THRESHOLD_PERCENT = Some hf0"
    and hf: "hf = add_forks hf0 mainnet_hard_forks"
    by (auto simp: mainnet_hardfork_def)
  then have hf0: "heights hf0 = []" "window_size hf0 = 10080"
    by (auto simp: new_HardFork_def DEFAULT_WINDOW_SIZE_def split: if_splits)
  have "hf = hf0\<lparr>heights := map mk_fork mainnet_hard_forks\<rparr>"
    unfolding hf using add_forks_ok [of hf0 mainnet_hard_forks] mainnet_table_wf hf0 by simp
  then show "heights hf = map mk_fork mainnet_hard_forks" "window_size hf = 10080" "fork_table hf"
    using hf0 mainnet_table_wf by (simp_all add: fork_table_def mainnet_hard_forks_def)
qed

lemma elects_zero: "f_threshold (heights hf ! n) = 0 \<Longrightarrow> elects hf h n \<longleftrightarrow> f_height (heights hf ! n) \<le> h"
  by (simp add: elects_def)

text \<open>When no fork needs votes, the current fork depends on the height alone.\<close>

lemma running_by_height:
  assumes "fork_table hf0" "window_size hf0 < 2 ^ 32" "f_height (heights hf0 ! 0) = 0"
    and zero: "list_all (\<lambda>p. f_threshold p = 0) (heights hf0)"
  shows "hf_running hf0 hf db \<Longrightarrow> window_size hf = window_size hf0 \<and> f_height (heights hf0 ! current_fork_index hf) \<le> db_height db
    \<and> (\<forall>m. current_fork_index hf < m \<and> m < length (heights hf0) \<longrightarrow> db_height db < f_height (heights hf0 ! m))"
proof (induction rule: hf_running.induct)
  case (run_init hf db)
  have "current_fork_index hf = 0" "db_blocks db = []" "window_size hf = window_size hf0"
    using run_init assms(1) by (auto simp: init_def Let_def empty_db_def fork_table_def get_hard_fork_version_def
        set_hard_fork_version_def reorganize_from_chain_height_def reorganize_from_block_height_def clear_votes_def)
  moreover have "0 < f_height (heights hf0 ! m)" if "0 < m" "m < length (heights hf0)" for m
  proof -
    have "later (heights hf0 ! 0) (heights hf0 ! m)"
      using assms(1) that by (intro sorted_wrt_nth_less) (auto simp: fork_table_def wf_forks_def)
    then show ?thesis by (auto simp: later_def)
  qed
  ultimately show ?case using assms(3) by simp
next
  case (run_block hf db b hf' db')
  from hf_running_synced [OF run_block.hyps(1) assms(1)] have s: "synced hf db" and hs: "heights hf = heights hf0" by blast+
  note eq = add_eq(1,2) [OF s run_block.hyps(2)]
  let ?vs = "votes hf (drop (Suc (db_height db) - window_size hf) (db_blocks db @ [b]))"
  let ?hf1 = "hf\<lparr>versions := ?vs, last_versions := counted ?vs\<rparr>" and ?h = "Suc (db_height db)"
  have "let r = get_voted_fork_index ?hf1 ?h in
    (r = current_fork_index ?hf1 \<or> elects ?hf1 ?h r) \<and> current_fork_index ?hf1 \<le> r \<and> r < length (heights ?hf1)
    \<and> (\<forall>m. r < m \<and> m < length (heights ?hf1) \<longrightarrow> \<not> elects ?hf1 ?h m)"
    by (rule voted_fork_spec) (use s assms(2) run_block.IH in \<open>auto simp: synced_def votes_def\<close>)
  moreover have "elects ?hf1 ?h m \<longleftrightarrow> f_height (heights hf0 ! m) \<le> ?h" if "m < length (heights hf0)" for m
    using that zero hs by (subst elects_zero) (auto simp: list_all_length)
  moreover have "db_height db' = ?h" by (simp add: eq(2) set_hard_fork_version_def store_block_def)
  ultimately show ?case
    using run_block.IH unfolding eq(1) by (auto simp: Let_def hs not_le)
qed

lemma filter_sorted_prefix:
  assumes "sorted_wrt (<) (map g xs)" "r < length xs" "g (xs ! r) \<le> (H :: nat)"
    and "\<And>m. r < m \<Longrightarrow> m < length xs \<Longrightarrow> H < g (xs ! m)"
  shows "filter (\<lambda>x. g x \<le> H) xs = take (Suc r) xs"
proof -
  have "g (xs ! m) \<le> H" if "m \<le> r" for m
    using sorted_wrt_nth_less [OF assms(1), of m r] that assms(2,3) by (cases "m = r") auto
  then have "filter (\<lambda>x. g x \<le> H) (take (Suc r) xs) = take (Suc r) xs"
    by (auto simp: filter_id_conv in_set_conv_nth)
  moreover have "filter (\<lambda>x. g x \<le> H) (drop (Suc r) xs) = []"
    using assms(4) by (auto simp: filter_empty_conv in_set_conv_nth not_le)
  ultimately show ?thesis by (metis append_Nil2 append_take_drop_id filter_append)
qed

text \<open>
  C14: On the main network the version goes by height alone. In every state of a node running with the main
  network's table, the current version is that of the last fork whose height the chain has
  reached, and the block the node accepts next must carry exactly this version.
\<close>
theorem mainnet_version_by_height:
  assumes "mainnet_hardfork = Some hf0" "hf_running hf0 hf db"
  shows "get_current_version hf = fst (last (filter (\<lambda>p. fst (snd p) \<le> db_height db) mainnet_hard_forks))
    \<and> (fst (add hf (store_block db b) b (db_height db)) \<longrightarrow> get_block_version b = get_current_version hf)"
proof
  note table = mainnet_table [OF assms(1)]
  let ?r = "current_fork_index hf" and ?g = "\<lambda>p :: u8 \<times> nat \<times> u8 \<times> int. fst (snd p)"
  have hs: "heights hf = map mk_fork mainnet_hard_forks" and cur: "?r < length mainnet_hard_forks"
    using hf_running_synced [OF assms(2) table(3)] table(1) by (auto simp: synced_def)
  have g: "f_height (map mk_fork mainnet_hard_forks ! m) = ?g (mainnet_hard_forks ! m)" if "m < length mainnet_hard_forks" for m
    using that by (simp add: mk_fork_def split: prod.splits)
  have "f_height (heights hf0 ! ?r) \<le> db_height db
    \<and> (\<forall>m. ?r < m \<and> m < length (heights hf0) \<longrightarrow> db_height db < f_height (heights hf0 ! m))"
    using running_by_height [OF table(3) _ _ _ assms(2)]
    by (simp add: table(1,2) mainnet_hard_forks_def mk_fork_def HF_BLOCK_HEIGHT_PROOF_OF_STAKE_def)
  then have b: "?g (mainnet_hard_forks ! ?r) \<le> db_height db"
    "\<And>m. ?r < m \<Longrightarrow> m < length mainnet_hard_forks \<Longrightarrow> db_height db < ?g (mainnet_hard_forks ! m)"
    using cur g unfolding table(1) by auto
  have "filter (\<lambda>x. ?g x \<le> db_height db) mainnet_hard_forks = take (Suc ?r) mainnet_hard_forks"
    by (rule filter_sorted_prefix [where g = ?g, OF _ cur b])
      (simp add: mainnet_hard_forks_def HF_BLOCK_HEIGHT_PROOF_OF_STAKE_def)
  then show "get_current_version hf = fst (last (filter (\<lambda>p. fst (snd p) \<le> db_height db) mainnet_hard_forks))"
    using cur by (simp add: get_current_version_def hs take_Suc_conv_app_nth mk_fork_def split: prod.splits)
  show "fst (add hf (store_block db b) b (db_height db)) \<longrightarrow> get_block_version b = get_current_version hf"
    by (auto simp: add_def add_versions_def do_check_def get_current_version_def)
qed

definition sample_hf :: HardFork where
  "sample_hf = \<lparr>original_version = 1, original_version_till_height = 1, forked_time = 0, update_time = 0, window_size = 2,
     default_threshold_percent = 80, heights = [mk_fork (1, 0, 0, 0), mk_fork (7, 1, 50, 1)], versions = [],
     last_versions = counted [], current_fork_index = 0\<rparr>"

definition sample_genesis :: block where
  "sample_genesis = sample_block\<lparr>major_version := 1, minor_version := 7\<rparr>"

lemma sample_table: "fork_table sample_hf"
  by (simp add: fork_table_def sample_hf_def wf_forks_def mk_fork_def later_def)

lemma genesis_runs:
  assumes "fork_table hf0" "f_version (heights hf0 ! 0) = 1"
  shows "\<exists>hf db. hf_running hf0 hf db \<and> db_blocks db = [sample_genesis]"
proof -
  let ?hf = "clear_votes hf0\<lparr>current_fork_index := 0\<rparr>" and ?db = "set_hard_fork_version empty_db 0 (original_version hf0)"
  have "init hf0 empty_db = Some (?hf, ?db)"
    using assms(1) by (auto simp: init_def Let_def empty_db_def fork_table_def get_hard_fork_version_def
        reorganize_from_chain_height_def reorganize_from_block_height_def clear_votes_def)
  then have "hf_running hf0 ?hf ?db" by (rule run_init)
  moreover have "do_check ?hf (get_block_version sample_genesis) (get_block_vote sample_genesis)"
    using assms(2) by (simp add: do_check_def clear_votes_def get_block_version_def get_block_vote_def sample_genesis_def sample_block_def)
  then obtain hf' db' where "add ?hf (store_block ?db sample_genesis) sample_genesis (db_height ?db) = (True, hf', db')"
      and "db_blocks db' = [sample_genesis]"
    by (auto simp: add_def add_versions_def Let_def case_prod_beta set_hard_fork_version_def store_block_def empty_db_def)
  ultimately show ?thesis by (blast intro: run_block)
qed

theorem hardfork_restart_witness:
  "\<exists>hf db. hf_running sample_hf hf db \<and> db_blocks db = [sample_genesis] \<and> init hf db = Some (hf, db)"
proof -
  obtain hf db where r: "hf_running sample_hf hf db" "db_blocks db = [sample_genesis]"
    using genesis_runs [OF sample_table] by (auto simp: sample_hf_def mk_fork_def)
  then show ?thesis using hardfork_restart [OF sample_table r(1)] by auto
qed

definition sample_voters :: HardFork where
  "sample_voters = sample_hf\<lparr>versions := [1, 7], last_versions := counted [1, 7]\<rparr>"

theorem voted_fork_elected_witness:
  "let r = get_voted_fork_index sample_voters 5 in
    (r = current_fork_index sample_voters \<or> elects sample_voters 5 r) \<and> current_fork_index sample_voters \<le> r
    \<and> r < length (heights sample_voters) \<and> (\<forall>m. r < m \<and> m < length (heights sample_voters) \<longrightarrow> \<not> elects sample_voters 5 m)"
  by (rule voted_fork_elected) (use sample_table in \<open>simp_all add: sample_voters_def sample_hf_def fork_table_def\<close>)

theorem mainnet_version_by_height_witness:
  "\<exists>hf0 hf db. mainnet_hardfork = Some hf0 \<and> hf_running hf0 hf db \<and> db_height db = 1 \<and> get_current_version hf = 7"
proof -
  obtain hf0 where m: "mainnet_hardfork = Some hf0"
    by (auto simp: mainnet_hardfork_def new_HardFork_def DEFAULT_WINDOW_SIZE_def DEFAULT_THRESHOLD_PERCENT_def)
  note table = mainnet_table [OF m]
  obtain hf db where r: "hf_running hf0 hf db" "db_blocks db = [sample_genesis]"
    using genesis_runs [OF table(3)] table(1) by (auto simp: mainnet_hard_forks_def mk_fork_def)
  have "get_current_version hf = 7"
    using mainnet_version_by_height [OF m r(1), of sample_genesis] r(2)
    by (simp add: mainnet_hard_forks_def HF_BLOCK_HEIGHT_PROOF_OF_STAKE_def)
  moreover have "db_height db = 1" using r(2) by simp
  ultimately show ?thesis using m r(1) by blast
qed

end
