(* ===== verification/Difficulty.thy ===== *)
theory Difficulty
  imports Xcash_Prelude "HOL-Library.Signed_Division"
begin

text \<open>
  Proof-of-work difficulty, \<^verbatim>\<open>src/src/cryptonote_basic/difficulty.cpp\<close>: the 64 by 64 bit
  multiplication (\<open>mul128\<close> of \<^verbatim>\<open>src/src/common/int-util.h\<close> and the portable \<open>mul\<close>), the check of
  a hash against a difficulty, and the integer difficulty rules \<open>next_difficulty\<close>,
  \<open>next_difficulty_V8\<close> and \<open>next_difficulty_V13\<close>. The rules of versions 9, 10 and 12 compute with
  floating-point numbers and are not modelled.

  Unsigned integers are words and wrap. Signed 64-bit arithmetic is \<open>int\<close> with every result
  checked to be in range: \<open>None\<close> stands for undefined behaviour of the source, a signed
  overflow, a division by zero or a vector index out of range.

  Shown here: both multiplications compute the 128-bit product; a hash passes exactly when
  hash times difficulty fits in 256 bits; the rules return what their formulas say, within
  their bounds, and where version 8 divides by zero.
\<close>

unbundle bit_operations_syntax

subsection \<open>Multiplication\<close>

definition hi_dword :: "u64 \<Rightarrow> u64" where
  "hi_dword val = drop_bit 32 val"

definition lo_dword :: "u64 \<Rightarrow> u64" where
  "lo_dword val = val AND 0xFFFFFFFF"

definition mul128 :: "u64 \<Rightarrow> u64 \<Rightarrow> u64 \<times> u64" where
  "mul128 multiplier multiplicand =
     (let a = hi_dword multiplier; b = lo_dword multiplier;
          c = hi_dword multiplicand; d = lo_dword multiplicand;
          ac = a * c; ad = a * d; bc = b * c; bd = b * d;
          adbc = ad + bc;
          adbc_carry = (if adbc < ad then 1 else 0);
          product_lo = bd + push_bit 32 adbc;
          product_lo_carry = (if product_lo < bd then 1 else 0);
          product_hi = ac + drop_bit 32 adbc + push_bit 32 adbc_carry + product_lo_carry in
      (product_lo, product_hi))"

text \<open>The portable version, for other processors.\<close>

definition mul_portable :: "u64 \<Rightarrow> u64 \<Rightarrow> u64 \<times> u64" where
  "mul_portable a b =
     (let aLow = a AND 0xFFFFFFFF; aHigh = drop_bit 32 a;
          bLow = b AND 0xFFFFFFFF; bHigh = drop_bit 32 b;
          res = aLow * bLow;
          lowRes1 = res AND 0xFFFFFFFF; carry = drop_bit 32 res;
          res = aHigh * bLow + carry;
          highResHigh1 = drop_bit 32 res; highResLow1 = res AND 0xFFFFFFFF;
          res = aLow * bHigh;
          lowRes2 = res AND 0xFFFFFFFF; carry = drop_bit 32 res;
          res = aHigh * bHigh + carry;
          highResHigh2 = drop_bit 32 res; highResLow2 = res AND 0xFFFFFFFF;
          r = highResLow1 + lowRes2;
          carry = drop_bit 32 r;
          low = push_bit 32 r OR lowRes1;
          r = highResHigh1 + highResLow2 + carry;
          d3 = r AND 0xFFFFFFFF;
          carry = drop_bit 32 r;
          r = highResHigh2 + carry;
          high = d3 OR push_bit 32 r in
      (low, high))"

definition cadd :: "u64 \<Rightarrow> u64 \<Rightarrow> bool" where
  "cadd a b \<longleftrightarrow> a + b < a"

definition cadc :: "u64 \<Rightarrow> u64 \<Rightarrow> bool \<Rightarrow> bool" where
  "cadc a b c \<longleftrightarrow> a + b < a \<or> (c \<and> a + b = -1)"

text \<open>A 64-bit little-endian word of a hash.\<close>

definition hash_word :: "bytes \<Rightarrow> nat \<Rightarrow> u64" where
  "hash_word h i = foldr (\<lambda>b acc. push_bit 8 acc OR ucast b) (take 8 (drop (8 * i) h)) 0"

definition check_hash :: "bytes \<Rightarrow> u64 \<Rightarrow> bool" where
  "check_hash h difficulty =
     (let (top, high) = mul128 (hash_word h 3) difficulty in
      if high \<noteq> 0 then False
      else
        let (low, cur) = mul128 (hash_word h 0) difficulty;
            (low, high) = mul128 (hash_word h 1) difficulty;
            carry = cadd cur low;
            cur = high;
            (low, high) = mul128 (hash_word h 2) difficulty;
            carry = cadc cur low carry;
            carry = cadc high top carry in
        \<not> carry)"

subsection \<open>The first rule\<close>

definition DIFFICULTY_WINDOW :: nat where "DIFFICULTY_WINDOW = 720"
definition DIFFICULTY_CUT :: nat where "DIFFICULTY_CUT = 60"

definition resize :: "nat \<Rightarrow> u64 list \<Rightarrow> u64 list" where
  "resize n xs = take n xs @ replicate (n - length xs) 0"

definition at :: "'a list \<Rightarrow> nat \<Rightarrow> 'a option" where
  "at xs i = (if i < length xs then Some (xs ! i) else None)"

text \<open>The range of the sorted timestamps that is kept.\<close>

definition cut_window :: "nat \<Rightarrow> nat \<times> nat" where
  "cut_window len =
     (if len \<le> DIFFICULTY_WINDOW - 2 * DIFFICULTY_CUT then (0, len)
      else let cut_begin = (len - (DIFFICULTY_WINDOW - 2 * DIFFICULTY_CUT) + 1) div 2 in
        (cut_begin, cut_begin + (DIFFICULTY_WINDOW - 2 * DIFFICULTY_CUT)))"

definition next_difficulty :: "u64 list \<Rightarrow> u64 list \<Rightarrow> u64 \<Rightarrow> u64 option" where
  "next_difficulty timestamps cumulative_difficulties target_seconds =
     (let (timestamps, cumulative_difficulties) =
            (if length timestamps > DIFFICULTY_WINDOW
             then (resize DIFFICULTY_WINDOW timestamps, resize DIFFICULTY_WINDOW cumulative_difficulties)
             else (timestamps, cumulative_difficulties));
          len = length timestamps in
      if len \<le> 1 then Some 1
      else
        let timestamps = sort timestamps;
            (cut_begin, cut_end) = cut_window len in
        do {
          last \<leftarrow> at timestamps (cut_end - 1);
          first \<leftarrow> at timestamps cut_begin;
          let time_span = (if last - first = 0 then 1 else last - first);
          work_end \<leftarrow> at cumulative_difficulties (cut_end - 1);
          work_begin \<leftarrow> at cumulative_difficulties cut_begin;
          let (low, high) = mul128 (work_end - work_begin) target_seconds;
          if high \<noteq> 0 \<or> low + time_span - 1 < low then Some 0
          else Some ((low + time_span - 1) div time_span)
        })"

subsection \<open>Versions 8 and 13\<close>

definition DIFFICULTY_TARGET_V8 :: int where "DIFFICULTY_TARGET_V8 = 60"
definition DIFFICULTY_WINDOW_V8 :: nat where "DIFFICULTY_WINDOW_V8 = 120"
definition HF_VERSION_LWMA_DIFFICULTY_BLOCK_HEIGHT :: u64 where "HF_VERSION_LWMA_DIFFICULTY_BLOCK_HEIGHT = 95085"
definition HF_VERSION_LWMA_STARTING_DIFFICULTY :: u64 where "HF_VERSION_LWMA_STARTING_DIFFICULTY = 30000000"

definition chk :: "int \<Rightarrow> int option" where
  "chk x = (if - (2 ^ 63) \<le> x \<and> x < 2 ^ 63 then Some x else None)"

text \<open>The loop over the solve times, for the remaining indices: the weighted sum and the sum of the last three.\<close>

fun v8_loop :: "u64 list \<Rightarrow> nat \<Rightarrow> nat list \<Rightarrow> int \<Rightarrow> int \<Rightarrow> (int \<times> int) option" where
  "v8_loop timestamps N [] L sum_3_ST = Some (L, sum_3_ST)"
| "v8_loop timestamps N (i # is) L sum_3_ST = do {
     t1 \<leftarrow> at timestamps i;
     t0 \<leftarrow> at timestamps (i - 1);
     ST \<leftarrow> chk (sint t1 - sint t0);
     let ST = max (-5 * DIFFICULTY_TARGET_V8) (min ST (6 * DIFFICULTY_TARGET_V8));
     v8_loop timestamps N is (L + ST * int i) (if int i > int N - 3 then sum_3_ST + ST else sum_3_ST) }"

definition next_difficulty_V8 :: "u64 list \<Rightarrow> u64 list \<Rightarrow> u64 \<Rightarrow> u64 option" where
  "next_difficulty_V8 timestamps cumulative_difficulties block_height =
     (let T = DIFFICULTY_TARGET_V8; N = DIFFICULTY_WINDOW_V8;
          difficulty_guess = HF_VERSION_LWMA_STARTING_DIFFICULTY in
      if length timestamps \<le> 10 then Some difficulty_guess
      else if block_height \<le> HF_VERSION_LWMA_DIFFICULTY_BLOCK_HEIGHT + of_nat (N + 1) then Some difficulty_guess
      else
        let N = (if length timestamps < N + 1 then length timestamps - 1 else N) in
        do {
          (L, sum_3_ST) \<leftarrow> v8_loop timestamps N [1..<N + 1] 0 0;
          cN \<leftarrow> at cumulative_difficulties N;
          c0 \<leftarrow> at cumulative_difficulties 0;
          p \<leftarrow> chk (sint (cN - c0) * T);
          p \<leftarrow> chk (p * int (N + 1));
          p \<leftarrow> chk (p * 99);
          next_D \<leftarrow> (if 100 * 2 * L = 0 then None else Some (p sdiv (100 * 2 * L)));
          c1 \<leftarrow> at cumulative_difficulties (N - 1);
          let prev_D = sint (cN - c1);
          lower \<leftarrow> chk (prev_D * 67);
          upper \<leftarrow> chk (prev_D * 150);
          let next_D = max (lower sdiv 100) (min next_D (upper sdiv 100));
          next_D \<leftarrow> (if sum_3_ST < (8 * T) sdiv 10
            then (case chk (prev_D * 108) of None \<Rightarrow> None | Some x \<Rightarrow> Some (max next_D (x sdiv 100)))
            else Some next_D);
          Some (of_int next_D)
        })"

text \<open>
  Version 13 overwrites what it computes with 1. The floating-point computation before that, with a
  conversion to an integer that is undefined for results of \<open>2\<^sup>6\<^sup>4\<close> and more, is left out.
\<close>

definition next_difficulty_V13 :: "u64 list \<Rightarrow> u64 list \<Rightarrow> u64 \<Rightarrow> u64" where
  "next_difficulty_V13 timestamps cumulative_difficulties target_seconds = 1"

subsection \<open>The product\<close>

lemma unat_hi: "unat (drop_bit 32 x :: u64) = unat x div 2 ^ 32"
  by (simp add: drop_bit_eq_div unat_div)

lemma unat_lo: "unat (x AND 0xFFFFFFFF :: u64) = unat x mod 2 ^ 32"
proof -
  have "x AND 0xFFFFFFFF = take_bit 32 x"
    by (simp add: take_bit_eq_mask mask_eq_exp_minus_1)
  then show ?thesis by (simp add: take_bit_eq_mod unat_mod)
qed

lemma unat_push32: "unat (push_bit 32 x :: u64) = unat x mod 2 ^ 32 * 2 ^ 32"
  by (simp add: push_bit_eq_mult unat_word_ariths(2) mult_mod_left)

lemma or_disjoint:
  "unat (push_bit 32 x OR (y AND 0xFFFFFFFF) :: u64) = unat x mod 2 ^ 32 * 2 ^ 32 + unat y mod 2 ^ 32"
proof -
  have eq: "y AND 0xFFFFFFFF = take_bit 32 y" by (simp add: take_bit_eq_mask mask_eq_exp_minus_1)
  have "push_bit 32 x AND take_bit 32 y = 0"
    by (rule bit_word_eqI) (simp add: bit_simps)
  then have "push_bit 32 x OR take_bit 32 y = push_bit 32 x + take_bit 32 y"
    by (simp add: disjunctive_add bit_simps)
  moreover have "unat (push_bit 32 x) + unat (take_bit 32 y) < 2 ^ LENGTH(64)"
    using mod_less_divisor [of "2 ^ 32" "unat x"] mod_less_divisor [of "2 ^ 32" "unat y"]
    by (simp add: unat_push32 take_bit_eq_mod unat_mod)
  ultimately show ?thesis
    by (simp add: eq unat_word_ariths(1) unat_push32 take_bit_eq_mod unat_mod)
qed

lemma unat_add_carry:
  fixes x y :: u64
  shows "unat x + unat y = unat (x + y) + (if x + y < x then 2 ^ 64 else 0)"
proof -
  have "unat x < 2 ^ 64" "unat y < 2 ^ 64" by (rule unat_lt_u64)+
  then show ?thesis
    by (auto simp: unat_word_ariths(1) word_less_nat_alt mod_if le_mod_geq)
qed

lemma unat_mult_small: "unat (x :: u64) * unat y < 2 ^ 64 \<Longrightarrow> unat (x * y) = unat x * unat y"
  by (simp add: unat_word_ariths(2))

lemma half_products:
  fixes m n :: nat
  assumes "m < 2 ^ 32" "n < 2 ^ 32"
  shows "m * n \<le> (2 ^ 32 - 1) * (2 ^ 32 - 1)"
  using assms by (intro mult_le_mono) simp_all

lemma mul_carries:
  fixes A B C D m lo c1 c2 :: nat
  assumes "A * D + B * C = m + c1 * 2 ^ 64" "B * D + m mod 2 ^ 32 * 2 ^ 32 = lo + c2 * 2 ^ 64"
  shows "(A * C + m div 2 ^ 32 + c1 * 2 ^ 32 + c2) * 2 ^ 64 + lo = (A * 2 ^ 32 + B) * (C * 2 ^ 32 + D)"
proof -
  define q r where qr: "q = m div 2 ^ 32" "r = m mod 2 ^ 32"
  have m: "m = q * 2 ^ 32 + r" unfolding qr by (rule div_mult_mod_eq [symmetric])
  have "(A * C + q + c1 * 2 ^ 32 + c2) * 2 ^ 64 + lo
      = A * C * 2 ^ 64 + (q * 2 ^ 32) * 2 ^ 32 + c1 * 2 ^ 64 * 2 ^ 32 + (lo + c2 * 2 ^ 64)"
    by (simp add: algebra_simps)
  also have "\<dots> = A * C * 2 ^ 64 + (q * 2 ^ 32 + r + c1 * 2 ^ 64) * 2 ^ 32 + B * D"
    unfolding assms(2) [symmetric] qr(2) [symmetric] by (simp add: algebra_simps)
  also have "\<dots> = A * C * 2 ^ 64 + (A * D + B * C) * 2 ^ 32 + B * D"
    unfolding assms(1) m ..
  also have "\<dots> = (A * 2 ^ 32 + B) * (C * 2 ^ 32 + D)" by (simp add: algebra_simps)
  finally show ?thesis unfolding qr .
qed

lemma high_fits:
  assumes "h * 2 ^ 64 + l = unat (x :: u64) * unat (y :: u64)"
  shows "h < 2 ^ 64"
proof -
  have "h * 2 ^ 64 \<le> unat x * unat y" unfolding assms [symmetric] by (rule le_add1)
  also have "\<dots> < 2 ^ 64 * 2 ^ 64"
    using unat_lt_u64 [of x] unat_lt_u64 [of y] by (intro mult_strict_mono) simp_all
  finally show ?thesis by (rule mult_less_cancel2 [THEN iffD1, THEN conjunct2])
qed

lemma mul128_correct:
  assumes "mul128 x y = (lo, hi)"
  shows "unat hi * 2 ^ 64 + unat lo = unat x * unat y"
proof -
  define a b c d where w: "a = hi_dword x" "b = lo_dword x" "c = hi_dword y" "d = lo_dword y"
  define adbc where "adbc = a * d + b * c"
  have lt: "unat a < 2 ^ 32" "unat b < 2 ^ 32" "unat c < 2 ^ 32" "unat d < 2 ^ 32"
    using unat_lt_u64 [of x] unat_lt_u64 [of y]
    by (simp_all add: w hi_dword_def lo_dword_def unat_hi unat_lo less_mult_imp_div_less)
  have prods: "unat (a * c) = unat a * unat c" "unat (a * d) = unat a * unat d"
      "unat (b * c) = unat b * unat c" "unat (b * d) = unat b * unat d"
    using half_products [OF lt(1,3)] half_products [OF lt(1,4)] half_products [OF lt(2,3)] half_products [OF lt(2,4)]
    by (simp_all add: unat_mult_small)
  have xy: "unat x = unat a * 2 ^ 32 + unat b" "unat y = unat c * 2 ^ 32 + unat d"
    by (simp_all only: w hi_dword_def lo_dword_def unat_hi unat_lo div_mult_mod_eq)
  define c1 where "c1 = (if adbc < a * d then 1 else 0 :: nat)"
  define c2 where "c2 = (if b * d + push_bit 32 adbc < b * d then 1 else 0 :: nat)"
  have lo: "lo = b * d + push_bit 32 adbc"
    using assms by (simp add: mul128_def Let_def w adbc_def)
  have 1: "unat a * unat d + unat b * unat c = unat adbc + c1 * 2 ^ 64"
    using unat_add_carry [of "a * d" "b * c"] by (simp add: prods adbc_def c1_def)
  have 2: "unat b * unat d + unat adbc mod 2 ^ 32 * 2 ^ 32 = unat lo + c2 * 2 ^ 64"
    using unat_add_carry [of "b * d" "push_bit 32 adbc"] by (simp add: prods lo c2_def unat_push32)
  let ?h = "unat a * unat c + unat adbc div 2 ^ 32 + c1 * 2 ^ 32 + c2"
  have tot: "?h * 2 ^ 64 + unat lo = unat x * unat y"
    unfolding xy by (rule mul_carries [OF 1 2])
  from tot have "?h < 2 ^ 64" by (rule high_fits)
  moreover have "hi = a * c + drop_bit 32 adbc + push_bit 32 (if adbc < a * d then 1 else 0)
      + (if b * d + push_bit 32 adbc < b * d then 1 else 0)"
    using assms unfolding mul128_def Let_def w [symmetric] adbc_def [symmetric] prod.inject by (rule conjunct2 [THEN sym])
  moreover have "unat (push_bit 32 (if adbc < a * d then 1 else 0) :: u64) = c1 * 2 ^ 32"
    "unat (if b * d + push_bit 32 adbc < b * d then 1 else 0 :: u64) = c2"
    by (simp_all add: c1_def c2_def unat_push32)
  ultimately have "unat hi = ?h"
    by (simp add: unat_word_ariths(1) prods unat_hi mod_simps)
  with tot show ?thesis by simp
qed

text \<open>The same for the portable version, first over natural numbers with base \<open>K\<close>.\<close>

lemma portable_nat:
  fixes A B C D K ph pl qh ql sh sl th tl uh ul vh vl :: nat
  assumes p: "B * D = ph * K + pl" and q: "A * D + ph = qh * K + ql" and s: "B * C = sh * K + sl"
    and t: "A * C + sh = th * K + tl" and u: "ql + sl = uh * K + ul" and v: "qh + tl + uh = vh * K + vl"
  shows "(vl + (th + vh) * K) * (K * K) + (ul * K + pl) = (A * K + B) * (C * K + D)"
proof -
  have "(vl + (th + vh) * K) * (K * K) + (ul * K + pl) = (vh * K + vl) * (K * K) + th * K * (K * K) + ul * K + pl"
    by (simp add: algebra_simps)
  also have "\<dots> = qh * K * K + (th * K + tl) * (K * K) + (uh * K + ul) * K + pl"
    unfolding v [symmetric] by (simp add: algebra_simps)
  also have "\<dots> = A * C * (K * K) + (sh * K + sl) * K + (qh * K + ql) * K + pl"
    unfolding t [symmetric] u [symmetric] by (simp add: algebra_simps)
  also have "\<dots> = A * C * (K * K) + B * C * K + A * D * K + (ph * K + pl)"
    unfolding s [symmetric] q [symmetric] by (simp add: algebra_simps)
  also have "\<dots> = (A * K + B) * (C * K + D)" unfolding p [symmetric] by (simp add: algebra_simps)
  finally show ?thesis .
qed

lemma mul_portable_correct:
  assumes "mul_portable x y = (lo, hi)"
  shows "unat hi * 2 ^ 64 + unat lo = unat x * unat y"
proof -
  let ?K = "2 ^ 32 :: nat" and ?lo = "\<lambda>w :: u64. w AND 0xFFFFFFFF" and ?hi = "\<lambda>w :: u64. drop_bit 32 w"
  have KK: "?K * ?K = 2 ^ 64" by simp
  define p where "p = ?lo x * ?lo y"
  define q where "q = ?hi x * ?lo y + ?hi p"
  define s where "s = ?lo x * ?hi y"
  define t where "t = ?hi x * ?hi y + ?hi s"
  define u where "u = ?lo q + ?lo s"
  define v where "v = ?hi q + ?lo t + ?hi u"
  have split: "unat w = unat (?hi w) * ?K + unat (?lo w)" for w
    by (simp only: unat_hi unat_lo div_mult_mod_eq)
  have lt: "unat (?hi w) < ?K" "unat (?lo w) < ?K" for w
    using unat_lt_u64 [of w] by (simp_all add: unat_hi unat_lo less_mult_imp_div_less)
  have mul: "unat (a * b) = unat a * unat b" if "unat a < ?K" "unat b < ?K" for a b :: u64
    using half_products [OF that] by (simp add: unat_mult_small)
  have mul_add: "unat (a * b + c) = unat a * unat b + unat c" if "unat a < ?K" "unat b < ?K" "unat c < ?K" for a b c :: u64
    using half_products [OF that(1,2)] that(3) by (simp add: unat_word_ariths(1) mul [OF that(1,2)])
  have add: "unat (a + b) = unat a + unat b" if "unat a < ?K" "unat b < ?K" for a b :: u64
    using that by (simp add: unat_word_ariths(1))
  have add3: "unat (a + b + c) = unat a + unat b + unat c" if "unat a < ?K" "unat b < ?K" "unat c < ?K" for a b c :: u64
    using that by (simp add: unat_word_ariths(1))
  have "(unat (?lo v) + (unat (?hi t) + unat (?hi v)) * ?K) * (?K * ?K) + (unat (?lo u) * ?K + unat (?lo p))
      = (unat (?hi x) * ?K + unat (?lo x)) * (unat (?hi y) * ?K + unat (?lo y))"
  proof (rule portable_nat)
    show "unat (?lo x) * unat (?lo y) = unat (?hi p) * ?K + unat (?lo p)"
      unfolding split [of p, symmetric] unfolding p_def by (rule mul [symmetric]) (rule lt)+
    show "unat (?hi x) * unat (?lo y) + unat (?hi p) = unat (?hi q) * ?K + unat (?lo q)"
      unfolding split [of q, symmetric] unfolding q_def by (rule mul_add [symmetric]) (rule lt)+
    show "unat (?lo x) * unat (?hi y) = unat (?hi s) * ?K + unat (?lo s)"
      unfolding split [of s, symmetric] unfolding s_def by (rule mul [symmetric]) (rule lt)+
    show "unat (?hi x) * unat (?hi y) + unat (?hi s) = unat (?hi t) * ?K + unat (?lo t)"
      unfolding split [of t, symmetric] unfolding t_def by (rule mul_add [symmetric]) (rule lt)+
    show "unat (?lo q) + unat (?lo s) = unat (?hi u) * ?K + unat (?lo u)"
      unfolding split [of u, symmetric] unfolding u_def by (rule add [symmetric]) (rule lt)+
    show "unat (?hi q) + unat (?lo t) + unat (?hi u) = unat (?hi v) * ?K + unat (?lo v)"
      unfolding split [of v, symmetric] unfolding v_def by (rule add3 [symmetric]) (rule lt)+
  qed
  then have tot: "(unat (?lo v) + (unat (?hi t) + unat (?hi v)) * ?K) * 2 ^ 64 + (unat (?lo u) * ?K + unat (?lo p))
      = unat x * unat y" unfolding split [of x, symmetric] split [of y, symmetric] KK .
  from tot have "unat (?lo v) + (unat (?hi t) + unat (?hi v)) * ?K < 2 ^ 64" by (rule high_fits)
  then have "(unat (?hi t) + unat (?hi v)) * ?K < ?K * ?K" unfolding KK by linarith
  then have th: "unat (?hi t) + unat (?hi v) < ?K"
    by (rule mult_less_cancel2 [THEN iffD1, THEN conjunct2])
  have "(lo, hi) = (push_bit 32 u OR ?lo p, ?lo v OR push_bit 32 (?hi t + ?hi v))"
    using assms unfolding mul_portable_def Let_def p_def [symmetric] q_def [symmetric] s_def [symmetric]
      t_def [symmetric] u_def [symmetric] v_def [symmetric] by (rule sym)
  then have "lo = push_bit 32 u OR ?lo p" "hi = push_bit 32 (?hi t + ?hi v) OR ?lo v"
    by (simp_all add: or.commute)
  then have "unat lo = unat (?lo u) * ?K + unat (?lo p)"
    "unat hi = (unat (?hi t) + unat (?hi v)) * ?K + unat (?lo v)"
    using th add [OF lt(1) lt(1), of t v] by (simp_all add: or_disjoint unat_lo)
  with tot show ?thesis by (simp add: add.commute)
qed

text \<open>
  Both multiplications, the one for x86-64 and the portable one, return the low and the high
  word of the exact 128-bit product, and so agree on all inputs.
\<close>
theorem mul_correct:
  "(case mul128 x y of (lo, hi) \<Rightarrow> unat hi * 2 ^ 64 + unat lo = unat x * unat y) \<and> mul_portable x y = mul128 x y"
proof -
  obtain lo hi lo' hi' where m: "mul128 x y = (lo, hi)" "mul_portable x y = (lo', hi')"
    by (cases "mul128 x y", cases "mul_portable x y")
  have eq: "unat hi' * 2 ^ 64 + unat lo' = unat hi * 2 ^ 64 + unat lo"
    using mul128_correct [OF m(1)] mul_portable_correct [OF m(2)] by simp
  have "unat hi' = (unat hi' * 2 ^ 64 + unat lo') div 2 ^ 64" "unat lo' = (unat hi' * 2 ^ 64 + unat lo') mod 2 ^ 64"
    "unat hi = (unat hi * 2 ^ 64 + unat lo) div 2 ^ 64" "unat lo = (unat hi * 2 ^ 64 + unat lo) mod 2 ^ 64"
    using unat_lt_u64 [of lo] unat_lt_u64 [of lo'] by simp_all
  then have "hi' = hi" "lo' = lo" unfolding word_unat_eq_iff eq by metis+
  then show ?thesis using m mul128_correct [OF m(1)] by simp
qed

subsection \<open>Checking a hash\<close>

text \<open>A hash as a 256-bit little-endian number.\<close>

definition hash_value :: "bytes \<Rightarrow> nat" where
  "hash_value h = foldr (\<lambda>b acc. 256 * acc + unat b) h 0"

lemma cadd_carry: "cadd a b \<longleftrightarrow> 2 ^ 64 \<le> unat a + unat b"
  using unat_add_carry [of a b] unat_lt_u64 [of "a + b"] by (auto simp: cadd_def split: if_splits)

lemma cadc_carry: "cadc a b c \<longleftrightarrow> 2 ^ 64 \<le> unat a + unat b + (if c then 1 else 0)"
proof -
  have "a + b = -1 \<longleftrightarrow> unat (a + b) = 2 ^ 64 - 1"
    by (simp add: word_unat_eq_iff unsigned_minus_1_eq_mask mask_eq_exp_minus_1)
  then show ?thesis
    using unat_add_carry [of a b] unat_lt_u64 [of "a + b"] by (auto simp: cadc_def split: if_splits)
qed

lemma unat_le_word:
  "length bs \<le> 8 \<Longrightarrow> unat (foldr (\<lambda>b acc. push_bit 8 acc OR ucast b) bs 0 :: u64) = hash_value bs
     \<and> hash_value bs < 256 ^ length bs"
proof (induction bs)
  case (Cons b bs)
  define acc where "acc = (foldr (\<lambda>b acc. push_bit 8 acc OR ucast b) bs 0 :: u64)"
  from Cons have IH: "unat acc = hash_value bs" "hash_value bs < 256 ^ length bs" by (simp_all add: acc_def)
  have "(256 :: nat) ^ length bs \<le> 256 ^ 7" using Cons.prems by (intro power_increasing) auto
  with IH have lt: "unat acc < 2 ^ 56" by simp
  have "push_bit 8 acc OR ucast b = push_bit 8 acc + ucast b"
    by (rule disjunctive_add [symmetric]) (auto simp: bit_simps dest: bit_imp_le_length)
  moreover have "unat (push_bit 8 acc) = 256 * unat acc"
    using lt by (simp add: push_bit_eq_mult unat_word_ariths(2) mult.commute)
  moreover have "unat (ucast b :: u64) = unat b" by (simp add: unsigned_ucast_eq take_bit_nat_eq_self unat_lt_256 [THEN less_trans])
  ultimately have "unat (push_bit 8 acc OR ucast b) = 256 * unat acc + unat b"
    using lt unat_lt_256 [of b] by (simp add: unat_word_ariths(1))
  moreover have "256 * hash_value bs + unat b < 256 * 256 ^ length bs"
    using IH(2) unat_lt_256 [of b] by linarith
  ultimately show ?case using IH by (simp add: acc_def [symmetric] hash_value_def)
qed (simp add: hash_value_def)

lemma hash_value_append: "hash_value (xs @ ys) = hash_value xs + 256 ^ length xs * hash_value ys"
  by (induction xs) (simp_all add: hash_value_def algebra_simps)

lemma hash_value_words:
  assumes "length h = 32"
  shows "hash_value h = unat (hash_word h 0) + 2 ^ 64 * unat (hash_word h 1)
    + 2 ^ 128 * unat (hash_word h 2) + 2 ^ 192 * unat (hash_word h 3)"
proof -
  have w: "unat (hash_word h i) = hash_value (take 8 (drop (8 * i) h))" for i
    unfolding hash_word_def using unat_le_word by simp
  have step: "hash_value (drop n h) = hash_value (take 8 (drop n h)) + 2 ^ 64 * hash_value (drop (n + 8) h)"
    if "n + 8 \<le> 32" for n
    using hash_value_append [of "take 8 (drop n h)" "drop 8 (drop n h)"] assms that
    by (simp only: append_take_drop_id) (simp add: add.commute min_absorb2)
  have "hash_value (drop 32 h) = 0" using assms by (simp add: hash_value_def)
  then show ?thesis
    using step [of 0] step [of 8] step [of 16] step [of 24] by (simp add: w)
qed

text \<open>
  C12: A hash passes the difficulty check exactly when the hash, read as a 256-bit little-endian
  number, times the difficulty is less than \<open>2^256\<close>.
\<close>
theorem check_hash_correct:
  assumes "length h = 32"
  shows "check_hash h d \<longleftrightarrow> hash_value h * unat d < 2 ^ 256"
proof -
  obtain l0 h0 l1 h1 l2 h2 l3 h3 where
    m: "mul128 (hash_word h 0) d = (l0, h0)" "mul128 (hash_word h 1) d = (l1, h1)"
       "mul128 (hash_word h 2) d = (l2, h2)" "mul128 (hash_word h 3) d = (l3, h3)"
    by (metis surj_pair)
  note p = mul128_correct [OF m(1), symmetric] mul128_correct [OF m(2), symmetric]
    mul128_correct [OF m(3), symmetric] mul128_correct [OF m(4), symmetric]
  have "hash_value h * unat d = unat (hash_word h 0) * unat d + 2 ^ 64 * (unat (hash_word h 1) * unat d)
      + 2 ^ 128 * (unat (hash_word h 2) * unat d) + 2 ^ 192 * (unat (hash_word h 3) * unat d)"
    unfolding hash_value_words [OF assms] by (simp add: algebra_simps)
  then have v: "hash_value h * unat d = (unat h0 * 2 ^ 64 + unat l0) + 2 ^ 64 * (unat h1 * 2 ^ 64 + unat l1)
      + 2 ^ 128 * (unat h2 * 2 ^ 64 + unat l2) + 2 ^ 192 * (unat h3 * 2 ^ 64 + unat l3)"
    unfolding p .
  have c: "check_hash h d \<longleftrightarrow> h3 = 0 \<and> \<not> cadc h2 l3 (cadc h1 l2 (cadd h0 l1))"
    unfolding check_hash_def m prod.case Let_def by simp
  have lt: "unat l0 < 2 ^ 64" "unat l1 < 2 ^ 64" "unat l2 < 2 ^ 64" "unat l3 < 2 ^ 64"
    "unat h0 < 2 ^ 64" "unat h1 < 2 ^ 64" "unat h2 < 2 ^ 64" by (rule unat_lt_u64)+
  have "h3 = 0 \<longleftrightarrow> unat h3 = 0" by (simp add: unat_eq_zero)
  then show ?thesis
    unfolding c v cadc_carry cadd_carry using lt by (cases "unat h3") (auto split: if_splits)
qed

theorem check_hash_correct_witness:
  "check_hash (replicate 31 0 @ [1]) 255 \<longleftrightarrow> hash_value (replicate 31 0 @ [1]) * unat (255 :: u64) < 2 ^ 256"
  by (rule check_hash_correct) simp

subsection \<open>The first rule\<close>

lemma cut_window_bounds:
  assumes "cut_window n = (b, e)" "2 \<le> n" "n \<le> DIFFICULTY_WINDOW"
  shows "b + 2 \<le> e" "e \<le> n"
proof -
  have "b + 2 \<le> e \<and> e \<le> n"
  proof (cases "n \<le> 600")
    case False
    then have "b = (n - 599) div 2" "e = b + 600"
      using assms by (auto simp: cut_window_def DIFFICULTY_WINDOW_def DIFFICULTY_CUT_def Let_def)
    then show ?thesis using False assms(3) by (simp add: DIFFICULTY_WINDOW_def)
  qed (use assms in \<open>simp add: cut_window_def DIFFICULTY_WINDOW_def DIFFICULTY_CUT_def\<close>)
  then show "b + 2 \<le> e" "e \<le> n" by simp_all
qed

lemma ceil_div_word:
  assumes "mul128 w t = (low, high)" "0 < span"
  shows "(if high \<noteq> 0 \<or> low + span - 1 < low then 0 else (low + span - 1) div span) =
    (let n = unat w * unat t + unat span - 1 in if n < 2 ^ 64 then of_nat (n div unat span) else 0)"
proof -
  have prod: "unat w * unat t = unat high * 2 ^ 64 + unat low" using mul128_correct [OF assms(1)] by simp
  have span: "0 < unat span" using assms(2) by (simp add: word_less_nat_alt)
  have s1: "unat (span - 1) = unat span - 1" using assms(2) by (simp add: unat_sub word_less_nat_alt word_le_nat_alt)
  have eq: "low + span - 1 = low + (span - 1)" by simp
  show ?thesis
  proof (cases "high = 0")
    case True
    have c: "unat low + (unat span - 1) = unat (low + (span - 1)) + (if low + (span - 1) < low then 2 ^ 64 else 0)"
      using unat_add_carry [of low "span - 1"] s1 by simp
    show ?thesis
    proof (cases "low + (span - 1) < low")
      case True
      with c span \<open>high = 0\<close> prod have "\<not> unat w * unat t + unat span - 1 < 2 ^ 64" by simp
      with True show ?thesis unfolding eq by simp
    next
      case False
      with c span \<open>high = 0\<close> prod have n: "unat (low + (span - 1)) = unat w * unat t + unat span - 1" by simp
      then have "unat w * unat t + unat span - 1 < 2 ^ 64" using unat_lt_u64 [of "low + (span - 1)"] by simp
      moreover have "(low + (span - 1)) div span = of_nat (unat (low + (span - 1)) div unat span)"
        by (simp flip: unat_div)
      ultimately show ?thesis using False True n unfolding eq by simp
    qed
  next
    case False
    then have "0 < unat high" by (simp add: unat_gt_0)
    then have "2 ^ 64 \<le> unat high * 2 ^ 64" by simp
    then have "\<not> unat w * unat t + unat span - 1 < 2 ^ 64" using prod span by linarith
    with False show ?thesis by simp
  qed
qed

lemma truncate_window:
  assumes "length ts = length cds"
  shows "(if length ts > DIFFICULTY_WINDOW then (resize DIFFICULTY_WINDOW ts, resize DIFFICULTY_WINDOW cds) else (ts, cds))
    = (take DIFFICULTY_WINDOW ts, take DIFFICULTY_WINDOW cds)"
  using assms by (simp add: resize_def)

text \<open>
  C31: The first difficulty rule computes its formula. On vectors of equal length, of which the first
  720 entries count, the kept range of the sorted timestamps lies inside the vectors, so
  nothing is read out of bounds. The result is the work of the range times the target,
  divided by its time span (at least one second) and rounded up, or 0 when this does not fit
  in 64 bits.
\<close>
theorem next_difficulty_formula:
  assumes "length ts = length cds" "2 \<le> length ts"
  defines "ts' \<equiv> sort (take DIFFICULTY_WINDOW ts)" and "cds' \<equiv> take DIFFICULTY_WINDOW cds"
  shows "case cut_window (length ts') of (b, e) \<Rightarrow>
    let span = max 1 (unat (ts' ! (e - 1)) - unat (ts' ! b));
        n = unat (cds' ! (e - 1) - cds' ! b) * unat t + span - 1 in
    b + 2 \<le> e \<and> e \<le> length ts' \<and> next_difficulty ts cds t = Some (if n < 2 ^ 64 then of_nat (n div span) else 0)"
proof -
  have len: "length ts' = min (length ts) DIFFICULTY_WINDOW" "length cds' = length ts'"
    using assms(1) by (simp_all add: ts'_def cds'_def)
  obtain b e where be: "cut_window (length ts') = (b, e)" by fastforce
  have bnd: "b + 2 \<le> e" "e \<le> length ts'"
    using cut_window_bounds [OF be] len(1) assms(2) by (simp_all add: DIFFICULTY_WINDOW_def)
  let ?d = "ts' ! (e - 1) - ts' ! b" and ?span = "max 1 (unat (ts' ! (e - 1)) - unat (ts' ! b))"
  have "ts' ! b \<le> ts' ! (e - 1)" using bnd by (intro sorted_nth_mono) (auto simp: ts'_def)
  then have span: "unat (if ?d = 0 then 1 else ?d) = ?span" "0 < (if ?d = 0 then 1 else ?d)"
    by (auto simp: unat_sub_le word_less_nat_alt word_le_nat_alt word_unat_eq_iff)
  have l: "length (take DIFFICULTY_WINDOW ts) = length ts'" by (simp add: ts'_def)
  have two: "\<not> length ts' \<le> 1" and at: "at ts' (e - 1) = Some (ts' ! (e - 1))" "at ts' b = Some (ts' ! b)"
      "at cds' (e - 1) = Some (cds' ! (e - 1))" "at cds' b = Some (cds' ! b)"
    using bnd len(2) by (auto simp: at_def)
  obtain low high where m: "mul128 (cds' ! (e - 1) - cds' ! b) t = (low, high)" by fastforce
  have "next_difficulty ts cds t = Some (if high \<noteq> 0 \<or> low + (if ?d = 0 then 1 else ?d) - 1 < low then 0
      else (low + (if ?d = 0 then 1 else ?d) - 1) div (if ?d = 0 then 1 else ?d))"
    unfolding next_difficulty_def truncate_window [OF assms(1)] Let_def prod.case ts'_def [symmetric] cds'_def [symmetric]
      l be if_not_P [OF two] at by (simp add: m [unfolded One_nat_def])
  then show ?thesis
    unfolding ceil_div_word [OF m span(2)] span(1) using be bnd by (simp add: Let_def)
qed

theorem next_difficulty_formula_witness:
  "case cut_window (length (sort (take DIFFICULTY_WINDOW [100, 160, 130 :: u64]))) of (b, e) \<Rightarrow>
    let span = max 1 (unat (sort (take DIFFICULTY_WINDOW [100, 160, 130 :: u64]) ! (e - 1))
          - unat (sort (take DIFFICULTY_WINDOW [100, 160, 130 :: u64]) ! b));
        n = unat (take DIFFICULTY_WINDOW [7, 9, 1007 :: u64] ! (e - 1) - take DIFFICULTY_WINDOW [7, 9, 1007] ! b)
          * unat (60 :: u64) + span - 1 in
    b + 2 \<le> e \<and> e \<le> length (sort (take DIFFICULTY_WINDOW [100, 160, 130 :: u64])) \<and>
    next_difficulty [100, 160, 130] [7, 9, 1007] 60 = Some (if n < 2 ^ 64 then of_nat (n div span) else 0)"
  by (rule next_difficulty_formula) simp_all

subsection \<open>Version 8\<close>

lemma chk_Some: "- (2 ^ 63) \<le> x \<Longrightarrow> x < 2 ^ 63 \<Longrightarrow> chk x = Some x"
  by (simp add: chk_def)

lemma sint_small:
  assumes "unat (t :: u64) < 2 ^ 63"
  shows "sint t = int (unat t)"
proof -
  have "int (unat t) < int (2 ^ 63)" using assms by (simp only: of_nat_less_iff)
  then have "uint t < 2 ^ 63" by simp
  moreover have "- (2 ^ 63) \<le> uint t" by (rule order_trans [OF _ unsigned_greater_eq]) simp
  ultimately show ?thesis by (simp add: sint_uint signed_take_bit_int_eq_self)
qed

lemma chk_nat: "n < 2 ^ 63 \<Longrightarrow> chk (int n) = Some (int n)"
  by (rule chk_Some) auto

lemma sdiv_pos: "0 \<le> a \<Longrightarrow> 0 \<le> b \<Longrightarrow> a sdiv b = a div (b :: int)"
  by (cases "a = 0"; cases "b = 0") (simp_all add: signed_divide_int_def)

lemma v8_checks:
  assumes "W < 2 ^ 43" "M \<le> 121" "P < 2 ^ 43"
  shows "chk (int W * 60) = Some (int W * 60)" "chk (int W * 60 * int M) = Some (int W * 60 * int M)"
      "chk (int W * 60 * int M * 99) = Some (int W * 60 * int M * 99)"
      "chk (int P * 67) = Some (int P * 67)" "chk (int P * 150) = Some (int P * 150)" "chk (int P * 108) = Some (int P * 108)"
proof -
  have "W * 60 \<le> 2 ^ 43 * 60" "W * 60 * M \<le> 2 ^ 43 * 60 * 121" "W * 60 * M * 99 \<le> 2 ^ 43 * 60 * 121 * 99"
    using assms(1,2) by (intro mult_le_mono; simp)+
  then show "chk (int W * 60) = Some (int W * 60)" "chk (int W * 60 * int M) = Some (int W * 60 * int M)"
      "chk (int W * 60 * int M * 99) = Some (int W * 60 * int M * 99)"
      "chk (int P * 67) = Some (int P * 67)" "chk (int P * 150) = Some (int P * 150)" "chk (int P * 108) = Some (int P * 108)"
    using assms(3) chk_nat [of "W * 60"] chk_nat [of "W * 60 * M"] chk_nat [of "W * 60 * M * 99"]
      chk_nat [of "P * 67"] chk_nat [of "P * 150"] chk_nat [of "P * 108"] by simp_all
qed

text \<open>The solve time of a block, limited to between five targets early and six targets late.\<close>

definition solve_time :: "u64 list \<Rightarrow> nat \<Rightarrow> int" where
  "solve_time ts i = max (- 300) (min (int (unat (ts ! i)) - int (unat (ts ! (i - 1)))) 360)"

lemma v8_loop_sums:
  assumes "\<forall>i\<in>set is. 1 \<le> i \<and> i < length ts" "\<forall>t\<in>set ts. unat t < 2 ^ 63"
  shows "v8_loop ts N is L s = Some (L + (\<Sum>i\<leftarrow>is. solve_time ts i * int i),
    s + (\<Sum>i\<leftarrow>filter (\<lambda>i. N < i + 3) is. solve_time ts i))"
  using assms(1)
proof (induction "is" arbitrary: L s)
  case (Cons i "is")
  have i: "i < length ts" "i - 1 < length ts" using Cons.prems by auto
  have b: "unat (ts ! i) < 2 ^ 63" "unat (ts ! (i - 1)) < 2 ^ 63" using assms(2) i by (metis nth_mem)+
  have "int (unat (ts ! i)) < int (2 ^ 63)" "int (unat (ts ! (i - 1))) < int (2 ^ 63)"
    using b by (simp_all only: of_nat_less_iff)
  moreover have "int (2 ^ 63) = 2 ^ 63" by simp
  ultimately have "chk (sint (ts ! i) - sint (ts ! (i - 1))) = Some (int (unat (ts ! i)) - int (unat (ts ! (i - 1))))"
    unfolding sint_small [OF b(1)] sint_small [OF b(2)] by (intro chk_Some) linarith+
  then have "v8_loop ts N (i # is) L s = v8_loop ts N is (L + solve_time ts i * int i)
      (if int i > int N - 3 then s + solve_time ts i else s)"
    using i by (simp add: at_def solve_time_def DIFFICULTY_TARGET_V8_def Let_def)
  also have "(int i > int N - 3) = (N < i + 3)" by linarith
  finally show ?case using Cons.IH Cons.prems by simp
qed simp

lemma last_three:
  assumes "3 \<le> N"
  shows "filter (\<lambda>i. N < i + 3) [1..<N + 1] = [N - 2, N - 1, N]"
proof -
  obtain n where n: "N = n + 3" using assms by (metis add.commute le_iff_add)
  have "[1..<N + 1] = [1..<n + 1] @ [N - 2, N - 1, N]"
    using upt_add_eq_append [of 1 "n + 1" 3] by (simp add: n numeral_3_eq_3)
  moreover have "filter (\<lambda>i. N < i + 3) [1..<n + 1] = []" by (auto simp: filter_empty_conv n)
  ultimately show ?thesis using assms by simp
qed

lemma v8_loop_value:
  assumes "N < length ts" "3 \<le> N" "\<forall>t\<in>set ts. unat t < 2 ^ 63"
  shows "v8_loop ts N [1..<N + 1] 0 0 = Some (\<Sum>i\<leftarrow>[1..<N + 1]. solve_time ts i * int i,
    solve_time ts (N - 2) + solve_time ts (N - 1) + solve_time ts N)"
  using v8_loop_sums [of "[1..<N + 1]" ts N 0 0] assms last_three [OF assms(2)] by (simp add: add.assoc)

text \<open>The result from the two sums of the loop: the rule, limited, and raised after three fast blocks.\<close>

definition v8_limited :: "nat \<Rightarrow> nat \<Rightarrow> nat \<Rightarrow> int \<Rightarrow> bool \<Rightarrow> int" where
  "v8_limited W P N L fast = max (int ((if fast then P * 108 else P * 67) div 100))
     (max (int (P * 67 div 100)) (min (int W * 60 * int (N + 1) * 99 sdiv (200 * L)) (int (P * 150 div 100))))"

lemma v8_limited_bounds:
  "int (P * 67 div 100) \<le> v8_limited W P N L fast" "v8_limited W P N L fast \<le> int (P * 150 div 100)"
  "fast \<Longrightarrow> int (P * 108 div 100) \<le> v8_limited W P N L fast"
proof -
  have "P * 67 div 100 \<le> P * 150 div 100" "P * 108 div 100 \<le> P * 150 div 100" by (intro div_le_mono mult_le_mono2; simp)+
  then show "v8_limited W P N L fast \<le> int (P * 150 div 100)" unfolding v8_limited_def by (cases fast) simp_all
  show "int (P * 67 div 100) \<le> v8_limited W P N L fast"
    unfolding v8_limited_def by (rule max.coboundedI2, rule max.cobounded1)
  show "int (P * 108 div 100) \<le> v8_limited W P N L fast" if fast
    unfolding v8_limited_def if_P [OF that] by (rule max.cobounded1)
qed

lemma v8_result:
  assumes "10 < length ts" "length cds = length ts" "95206 < height" "N = min (length ts - 1) 120"
    and W: "W = unat (cds ! N - cds ! 0)" "W < 2 ^ 43" and P: "P = unat (cds ! N - cds ! (N - 1))" "P < 2 ^ 43"
    and loop: "v8_loop ts N [1..<N + 1] 0 0 = Some (L, sum3)" "L \<noteq> 0"
  shows "next_difficulty_V8 ts cds height = Some (of_int (v8_limited W P N L (sum3 < 48)))"
proof -
  have N: "(if length ts < 120 + 1 then length ts - 1 else 120) = N" "N < length cds" "N \<le> 120"
    using assms(1,2,4) by auto
  have sW: "sint (cds ! N - cds ! 0) = int W" "sint (cds ! N - cds ! (N - 1)) = int P"
    using W(2) P(2) unfolding W(1) P(1) by (simp_all only: sint_small less_trans [OF _ power_strict_increasing])
  define M where "M = N + 1"
  have "M \<le> 121" using N(3) by (simp add: M_def)
  note chks = v8_checks [OF W(2) this P(2)]
  define lo mid up where bounds: "lo = P * 67 div 100" "mid = P * 108 div 100" "up = P * 150 div 100"
  have sdivs: "int P * 67 sdiv 100 = int lo" "int P * 150 sdiv 100 = int up" "int P * 108 sdiv 100 = int mid"
    by (simp_all only: bounds zdiv_int of_nat_mult of_nat_numeral, simp_all only: sdiv_pos of_nat_0_le_iff mult_nonneg_nonneg zero_le_numeral)
  define D where "D = max (int lo) (min (int W * 60 * int M * 99 sdiv (100 * 2 * L)) (int up))"
  define D' where "D' = (if sum3 < 48 then max D (int mid) else D)"
  have at: "at cds N = Some (cds ! N)" "at cds 0 = Some (cds ! 0)" "at cds (N - 1) = Some (cds ! (N - 1))"
    using N(2) by (auto simp: at_def)
  have h: "\<not> height \<le> 95085 + of_nat (120 + 1)" using assms(3) by (simp add: not_le)
  have L: "100 * 2 * L \<noteq> 0" using loop(2) by simp
  have short: "\<not> length ts \<le> 10" using assms(1) by simp
  have T: "8 * 60 sdiv 10 = (48 :: int)" by (simp add: signed_divide_int_def)
  have "next_difficulty_V8 ts cds height = Some (of_int D')"
    unfolding next_difficulty_V8_def Let_def DIFFICULTY_WINDOW_V8_def DIFFICULTY_TARGET_V8_def N(1)
      HF_VERSION_LWMA_DIFFICULTY_BLOCK_HEIGHT_def loop(1) T
    unfolding M_def [symmetric] if_not_P [OF short] if_not_P [OF h] D'_def D_def
    by (cases "sum3 < 48")
      (simp_all only: at sW chks sdivs Option.bind.simps prod.case option.case if_not_P [OF L] if_True if_False)
  moreover have "D' = v8_limited W P N L (sum3 < 48)"
    by (cases "sum3 < 48") (simp_all add: v8_limited_def D'_def D_def bounds M_def max.commute)
  ultimately show ?thesis by simp
qed

text \<open>
  C32: Version 8 is the linearly weighted rule, within its limits. From height 95207 on, for at least
  eleven blocks with timestamps below \<open>2\<^sup>6\<^sup>3\<close> and work below \<open>2\<^sup>4\<^sup>3\<close>, and when the sum \<open>L\<close> of the
  limited solve times weighted by position is not zero, the rule returns. The result is the
  work times the target over \<open>L\<close>, less one percent, limited to between 67 and 150 percent of
  the last block's difficulty, and raised to at least 108 percent of it exactly when the
  solve times of the last three blocks add up to less than 48 seconds.
\<close>
theorem next_difficulty_V8_bounds:
  fixes ts cds :: "u64 list"
  defines "N \<equiv> min (length ts - 1) 120"
  defines "P \<equiv> unat (cds ! N - cds ! (N - 1))"
  defines "W \<equiv> unat (cds ! N - cds ! 0)"
  defines "L \<equiv> \<Sum>i\<leftarrow>[1..<N + 1]. solve_time ts i * int i"
  defines "fast \<equiv> solve_time ts (N - 2) + solve_time ts (N - 1) + solve_time ts N < 48"
  assumes "10 < length ts" "length cds = length ts" "95206 < height"
    and "W < 2 ^ 43" "P < 2 ^ 43" "\<forall>t\<in>set ts. unat t < 2 ^ 63" "L \<noteq> 0"
  shows "\<exists>d. next_difficulty_V8 ts cds height = Some d
    \<and> int (unat d) = max (int ((if fast then P * 108 else P * 67) div 100))
        (max (int (P * 67 div 100)) (min (int W * 60 * int (N + 1) * 99 sdiv (200 * L)) (int (P * 150 div 100))))
    \<and> P * 67 div 100 \<le> unat d \<and> unat d \<le> P * 150 div 100 \<and> (fast \<longrightarrow> P * 108 div 100 \<le> unat d)"
proof -
  have N: "N < length ts" "3 \<le> N" using assms(6) by (auto simp: N_def)
  define D where "D = v8_limited W P N L fast"
  note lim = v8_limited_bounds [where W = W and P = P and N = N and L = L and fast = fast, folded D_def]
  have res: "next_difficulty_V8 ts cds height = Some (of_int D)"
    using v8_result [OF assms(6,7,8) meta_eq_to_obj_eq [OF N_def] meta_eq_to_obj_eq [OF W_def] assms(9)
        meta_eq_to_obj_eq [OF P_def] assms(10) v8_loop_value [OF N assms(11), folded L_def] assms(12)]
    by (simp only: D_def fast_def)
  have "0 \<le> D" "D < 2 ^ 64" using lim(1,2) assms(10) by (simp_all)
  then have d: "int (unat (of_int D :: u64)) = D" by (simp add: uint_word_of_int_eq take_bit_int_eq_self)
  with lim have "P * 67 div 100 \<le> unat (of_int D :: u64)" "unat (of_int D :: u64) \<le> P * 150 div 100"
    "fast \<Longrightarrow> P * 108 div 100 \<le> unat (of_int D :: u64)" by linarith+
  with res d [unfolded D_def v8_limited_def, folded v8_limited_def D_def] show ?thesis
    unfolding D_def v8_limited_def by blast
qed

definition sample_times :: "u64 list" where
  "sample_times = [0, 60, 120, 180, 240, 300, 360, 420, 430, 440, 450]"

definition sample_work :: "u64 list" where
  "sample_work = [0, 1000, 2000, 3000, 4000, 5000, 6000, 7000, 8000, 9000, 10000]"

lemma sample_window:
  "min (length sample_times - 1) 120 = 10" "(\<Sum>i\<leftarrow>[1..<10 + 1]. solve_time sample_times i * int i) = 1950"
  "solve_time sample_times (10 - 2) + solve_time sample_times (10 - 1) + solve_time sample_times 10 = 30"
  by code_simp+

theorem next_difficulty_V8_bounds_witness:
  "\<exists>d. next_difficulty_V8 sample_times sample_work 100000 = Some d \<and> int (unat d) = 1500"
proof -
  have "10 < length sample_times" "length sample_work = length sample_times" "(95206 :: u64) < 100000"
    "unat (sample_work ! 10 - sample_work ! 0) < 2 ^ 43" "unat (sample_work ! 10 - sample_work ! (10 - 1)) < 2 ^ 43"
    "\<forall>t\<in>set sample_times. unat t < 2 ^ 63"
    by (simp_all add: sample_times_def sample_work_def)
  from next_difficulty_V8_bounds [of sample_times sample_work 100000, unfolded sample_window(1), OF this [unfolded sample_window(1)]]
  have "\<exists>d. next_difficulty_V8 sample_times sample_work 100000 = Some d \<and> int (unat d) = max (int (1000 * 108 div 100))
      (max (int (1000 * 67 div 100)) (min (int 10000 * 60 * int (10 + 1) * 99 sdiv (200 * 1950)) (int (1000 * 150 div 100))))"
    unfolding sample_window by (auto simp: sample_work_def)
  then show ?thesis by (auto simp: signed_divide_int_def)
qed

lemma v8_loop_equal_times:
  assumes "\<forall>i \<in> set is. i < length ts" "\<forall>t \<in> set ts. t = t0"
  shows "v8_loop ts N is L s = Some (L, s)"
  using assms(1)
proof (induction "is" arbitrary: L s)
  case (Cons i "is")
  have "ts ! i = t0" "ts ! (i - 1) = t0"
    using assms(2) Cons.prems by (auto simp: less_imp_diff_less)
  then show ?case
    using Cons by (simp add: at_def Let_def chk_def less_imp_diff_less DIFFICULTY_TARGET_V8_def)
qed simp

text \<open>
  Version 8 divides by zero. When all the timestamps it is given are equal, the weighted sum of the
  solve times is zero, and from height 95207 on the rule has no result.
\<close>
theorem next_difficulty_V8_div_zero:
  assumes "10 < length ts" "95206 < height" "\<forall>t \<in> set ts. t = t0"
  shows "next_difficulty_V8 ts cds height = None"
proof -
  let ?N = "if length ts < 120 + 1 then length ts - 1 else 120"
  have loop: "v8_loop ts ?N [1..<?N + 1] 0 0 = Some (0, 0)"
    by (rule v8_loop_equal_times [OF _ assms(3)]) auto
  have h: "\<not> height \<le> 95085 + of_nat (120 + 1)" using assms(2) by (simp add: not_le)
  have short: "\<not> length ts \<le> 10" using assms(1) by simp
  show ?thesis
    unfolding next_difficulty_V8_def Let_def DIFFICULTY_WINDOW_V8_def DIFFICULTY_TARGET_V8_def
      HF_VERSION_LWMA_DIFFICULTY_BLOCK_HEIGHT_def if_not_P [OF short] if_not_P [OF h] loop
    by simp
qed

theorem next_difficulty_V8_div_zero_witness:
  "next_difficulty_V8 (replicate 20 1535000000) (map of_nat [0..<20]) 100000 = None"
  by (rule next_difficulty_V8_div_zero) simp_all

end
