(* ===== verification/Checkpoints.thy ===== *)
theory Checkpoints
  imports Hex
begin

text \<open>
  Checkpoints, \<^verbatim>\<open>src/src/checkpoints/checkpoints.cpp\<close>, with the agreement on DNS records of
  \<^verbatim>\<open>src/src/common/dns_utils.cpp\<close>. The container is a \<open>std::map\<close>, here a list of pairs sorted by
  key; its interface to the checkpoints is the locale \<open>ordered_map\<close>.

  What comes from outside is a parameter: the contents of the JSON file (\<open>None\<close>: no such file,
  \<open>Some None\<close>: it does not load) and the replies of the DNS servers (records, DNSSEC available,
  DNSSEC valid). A result \<open>None\<close> of an operation on the checkpoints is undefined behaviour:
  \<open>get_max_height\<close> dereferences the end iterator of an empty map.

  Shown here: checkpoints once set never change and stay well formed under all operations;
  which alternative blocks are allowed; DNS records count only if two validated servers
  delivered them; loading a file into the (empty) default checkpoints is undefined.
\<close>

subsection \<open>Ordered maps\<close>

type_synonym points = "(u64 \<times> bytes) list"

fun map_insert :: "u64 \<Rightarrow> bytes \<Rightarrow> points \<Rightarrow> points" where
  "map_insert k v [] = [(k, v)]"
| "map_insert k v ((k', v') # ps) =
     (if k < k' then (k, v) # (k', v') # ps
      else if k = k' then (k, v) # ps
      else (k', v') # map_insert k v ps)"

definition map_find :: "points \<Rightarrow> u64 \<Rightarrow> bytes option" where
  "map_find ps k = map_of ps k"

definition map_last :: "points \<Rightarrow> u64 option" where
  "map_last ps = (if ps = [] then None else Some (fst (last ps)))"

text \<open>The greatest key that is at most the given one: the element before \<open>upper_bound\<close>.\<close>

definition map_floor :: "points \<Rightarrow> u64 \<Rightarrow> u64 option" where
  "map_floor ps k = map_last (takeWhile (\<lambda>(k', v). k' \<le> k) ps)"

definition map_ok :: "points \<Rightarrow> bool" where
  "map_ok ps \<longleftrightarrow> sorted_wrt (<) (map fst ps)"

locale ordered_map =
  fixes invar :: "'m \<Rightarrow> bool"
    and find :: "'m \<Rightarrow> 'k :: linorder \<Rightarrow> 'v option"
    and insert :: "'k \<Rightarrow> 'v \<Rightarrow> 'm \<Rightarrow> 'm"
    and floor :: "'m \<Rightarrow> 'k \<Rightarrow> 'k option"
  assumes invar_insert: "invar m \<Longrightarrow> invar (insert k v m)"
    and find_insert: "invar m \<Longrightarrow> find (insert k v m) = (find m)(k \<mapsto> v)"
    and floor_None: "invar m \<Longrightarrow> floor m k = None \<longleftrightarrow> (\<forall>k' \<le> k. find m k' = None)"
    and floor_Some: "invar m \<Longrightarrow> floor m k = Some c \<longleftrightarrow>
      c \<le> k \<and> find m c \<noteq> None \<and> (\<forall>k'. c < k' \<and> k' \<le> k \<longrightarrow> find m k' = None)"
begin

text \<open>Overwriting an entry only with the value it has keeps everything that was there.\<close>

lemma insert_keeps:
  assumes "invar m" "find m k = None \<or> find m k = Some v"
  shows "find m \<subseteq>\<^sub>m find (insert k v m)"
  using assms by (auto simp: find_insert map_le_def)

text \<open>No entry lies in a range exactly when the floor of its upper end is below its lower end.\<close>

lemma floor_below:
  assumes "invar m"
  shows "(case floor m hi of None \<Rightarrow> True | Some c \<Rightarrow> c < lo) \<longleftrightarrow> (\<forall>k. lo \<le> k \<and> k \<le> hi \<longrightarrow> find m k = None)"
proof (cases "floor m hi")
  case None
  then have "\<forall>k \<le> hi. find m k = None" using floor_None [OF assms] by blast
  with None show ?thesis by simp
next
  case (Some c)
  then have c: "c \<le> hi" "find m c \<noteq> None" "\<And>k. c < k \<Longrightarrow> k \<le> hi \<Longrightarrow> find m k = None"
    using assms by (auto simp: floor_Some)
  show ?thesis
  proof
    assume "case floor m hi of None \<Rightarrow> True | Some c \<Rightarrow> c < lo"
    with Some c(3) show "\<forall>k. lo \<le> k \<and> k \<le> hi \<longrightarrow> find m k = None" by auto
  next
    assume "\<forall>k. lo \<le> k \<and> k \<le> hi \<longrightarrow> find m k = None"
    with Some c show "case floor m hi of None \<Rightarrow> True | Some c \<Rightarrow> c < lo" by (auto simp: not_less [symmetric])
  qed
qed

end

lemma keys_map_insert: "p \<in> set (map_insert k v ps) \<Longrightarrow> p = (k, v) \<or> p \<in> set ps"
  by (induction k v ps rule: map_insert.induct) (auto split: if_splits)

lemma map_insert_ok: "map_ok ps \<Longrightarrow> map_ok (map_insert k v ps)"
  by (induction k v ps rule: map_insert.induct)
    (auto simp: map_ok_def dest: less_trans dest!: keys_map_insert)

lemma find_map_insert: "map_ok ps \<Longrightarrow> map_find (map_insert k v ps) = (map_find ps)(k \<mapsto> v)"
proof (induction k v ps rule: map_insert.induct)
  case (2 k v k' v' ps)
  then have "k \<noteq> k' \<Longrightarrow> \<not> k < k' \<Longrightarrow> map_of (map_insert k v ps) = (map_of ps)(k \<mapsto> v)"
    by (auto simp: map_ok_def map_find_def fun_eq_iff)
  then show ?case by (auto simp: map_find_def fun_eq_iff)
qed (auto simp: map_find_def fun_eq_iff)

lemma floor_cases:
  assumes "map_ok ps"
  shows "case map_floor ps k of
      None \<Rightarrow> \<forall>k' \<le> k. map_find ps k' = None
    | Some c \<Rightarrow> c \<le> k \<and> map_find ps c \<noteq> None \<and> (\<forall>k'. c < k' \<and> k' \<le> k \<longrightarrow> map_find ps k' = None)"
  using assms
proof (induction ps)
  case (Cons p ps)
  obtain k1 v1 where p: "p = (k1, v1)" by (cases p)
  have ok: "map_ok ps" and gt: "\<And>x. x \<in> set ps \<Longrightarrow> k1 < fst x" using Cons.prems by (auto simp: map_ok_def p)
  have none: "map_find ps x = None" if "x \<le> k1" for x
    using gt that by (force simp: map_find_def map_of_eq_None_iff)
  show ?case
  proof (cases "k1 \<le> k")
    case True
    have "map_floor (p # ps) k = Some (case map_floor ps k of None \<Rightarrow> k1 | Some c \<Rightarrow> c)"
      using True by (auto simp: map_floor_def map_last_def p)
    with Cons.IH [OF ok] True none show ?thesis
      by (auto simp: map_find_def p split: option.splits)
  next
    case False
    then have "map_floor (p # ps) k = None" by (simp add: map_floor_def map_last_def p)
    moreover have "map_find (p # ps) k' = None" if "k' \<le> k" for k'
      using none [of k'] that False by (auto simp: map_find_def p)
    ultimately show ?thesis by simp
  qed
qed (simp add: map_floor_def map_last_def map_find_def)

interpretation pts: ordered_map map_ok map_find map_insert map_floor
proof
  fix m k c
  assume ok: "map_ok m"
  show "map_floor m k = None \<longleftrightarrow> (\<forall>k' \<le> k. map_find m k' = None)"
    using floor_cases [OF ok, of k] by (auto split: option.splits)
  show "map_floor m k = Some c \<longleftrightarrow>
      c \<le> k \<and> map_find m c \<noteq> None \<and> (\<forall>k'. c < k' \<and> k' \<le> k \<longrightarrow> map_find m k' = None)"
    using floor_cases [OF ok, of k] by (auto split: option.splits) (metis linorder_neqE option.distinct(1))+
qed (simp_all add: map_insert_ok find_map_insert)

subsection \<open>Checkpoints\<close>

definition add_checkpoint :: "points \<Rightarrow> u64 \<Rightarrow> bytes \<Rightarrow> bool \<times> points" where
  "add_checkpoint m_points height hash_str =
     (case parse_tpod_from_hex_string 32 hash_str of
        None \<Rightarrow> (False, m_points)
      | Some h \<Rightarrow>
          if map_find m_points height \<noteq> None \<and> map_find m_points height \<noteq> Some h then (False, m_points)
          else (True, map_insert height h m_points))"

definition is_in_checkpoint_zone :: "points \<Rightarrow> u64 \<Rightarrow> bool" where
  "is_in_checkpoint_zone m_points height = (case map_last m_points of None \<Rightarrow> False | Some k \<Rightarrow> height \<le> k)"

text \<open>The result and the flag that says whether there is a checkpoint.\<close>

definition check_block :: "points \<Rightarrow> u64 \<Rightarrow> bytes \<Rightarrow> bool \<times> bool" where
  "check_block m_points height h = (case map_find m_points height of
     None \<Rightarrow> (True, False)
   | Some h' \<Rightarrow> (h' = h, True))"

definition is_alternative_block_allowed :: "points \<Rightarrow> u64 \<Rightarrow> u64 \<Rightarrow> bool" where
  "is_alternative_block_allowed m_points blockchain_height block_height =
     (if block_height = 0 then False
      else case map_floor m_points blockchain_height of
        None \<Rightarrow> True
      | Some checkpoint_height \<Rightarrow> checkpoint_height < block_height)"

definition get_max_height :: "points \<Rightarrow> u64 option" where
  "get_max_height m_points = map_last m_points"

definition check_for_conflicts :: "points \<Rightarrow> points \<Rightarrow> bool" where
  "check_for_conflicts m_points other =
     list_all (\<lambda>(k, v). map_find m_points k = None \<or> map_find m_points k = Some v) other"

definition init_default_checkpoints :: "points \<Rightarrow> bool \<times> points" where
  "init_default_checkpoints m_points = (True, m_points)"

record t_hashline =
  hl_height :: u64
  hl_hash :: bytes

fun add_hashlines :: "u64 \<Rightarrow> points \<Rightarrow> t_hashline list \<Rightarrow> bool \<times> points" where
  "add_hashlines prev_max_height m_points [] = (True, m_points)"
| "add_hashlines prev_max_height m_points (l # ls) =
     (if hl_height l \<le> prev_max_height then add_hashlines prev_max_height m_points ls
      else case add_checkpoint m_points (hl_height l) (hl_hash l) of
        (False, m_points) \<Rightarrow> (False, m_points)
      | (True, m_points) \<Rightarrow> add_hashlines prev_max_height m_points ls)"

definition load_checkpoints_from_json :: "t_hashline list option option \<Rightarrow> points \<Rightarrow> (bool \<times> points) option" where
  "load_checkpoints_from_json file m_points = (case file of
     None \<Rightarrow> Some (True, m_points)
   | Some contents \<Rightarrow>
       (case get_max_height m_points of
          None \<Rightarrow> None
        | Some prev_max_height \<Rightarrow>
            (case contents of
               None \<Rightarrow> Some (False, m_points)
             | Some hashlines \<Rightarrow> Some (add_hashlines prev_max_height m_points hashlines))))"

subsection \<open>DNS records\<close>

definition dns_records_match :: "bytes list \<Rightarrow> bytes list \<Rightarrow> bool" where
  "dns_records_match a b =
     (if length a \<noteq> length b then False
      else list_all (\<lambda>record_in_a. list_ex (\<lambda>record_in_b. record_in_a = record_in_b) b) a)"

record dns_reply =
  dr_records :: "bytes list"
  dr_avail :: bool
  dr_valid :: bool

definition cleared :: "dns_reply \<Rightarrow> bytes list" where
  "cleared r = (if \<not> dr_avail r then [] else if \<not> dr_valid r then [] else dr_records r)"

text \<open>The first set of records that a later server confirms.\<close>

fun confirmed :: "bytes list list \<Rightarrow> bytes list option" where
  "confirmed [] = None"
| "confirmed (r # rs) =
     (if r \<noteq> [] \<and> list_ex (dns_records_match r) rs then Some r else confirmed rs)"

definition load_txt_records_from_dns :: "dns_reply list \<Rightarrow> bytes list option" where
  "load_txt_records_from_dns replies =
     (if replies = [] then None
      else
        let records = map cleared replies;
            num_valid_records = length (filter (\<lambda>r. r \<noteq> []) records) in
        if num_valid_records < 2 then None else confirmed records)"

text \<open>
  \<open>stream >> uint64_t\<close>: white space, a sign, decimal digits; what follows is left alone. It
  fails without digits or beyond 64 bits, and a negative number wraps around.
\<close>

definition read_u64 :: "bytes \<Rightarrow> u64 option" where
  "read_u64 s =
     (let s = dropWhile is_space s;
          neg = (s \<noteq> [] \<and> hd s = 0x2d);
          s = (if s \<noteq> [] \<and> (hd s = 0x2d \<or> hd s = 0x2b) then tl s else s);
          n = digits_value 0 s in
      if s = [] \<or> \<not> is_digit (hd s) then None
      else if n \<ge> 2 ^ 64 then None
      else Some (if neg then - of_nat n else of_nat n))"

definition split_record :: "bytes \<Rightarrow> (bytes \<times> bytes) option" where
  "split_record r = (if 0x3a \<in> set r then Some (takeWhile (\<lambda>c. c \<noteq> 0x3a) r, tl (dropWhile (\<lambda>c. c \<noteq> 0x3a) r)) else None)"

fun add_records :: "points \<Rightarrow> bytes list \<Rightarrow> bool \<times> points" where
  "add_records m_points [] = (True, m_points)"
| "add_records m_points (r # rs) = (case split_record r of
     None \<Rightarrow> add_records m_points rs
   | Some (number, hashStr) \<Rightarrow>
       (case read_u64 number of
          None \<Rightarrow> add_records m_points rs
        | Some height \<Rightarrow>
            if parse_tpod_from_hex_string 32 hashStr = None then add_records m_points rs
            else (case add_checkpoint m_points height hashStr of
              (False, m_points) \<Rightarrow> (False, m_points)
            | (True, m_points) \<Rightarrow> add_records m_points rs)))"

definition load_checkpoints_from_dns :: "dns_reply list \<Rightarrow> points \<Rightarrow> bool \<times> points" where
  "load_checkpoints_from_dns replies m_points = (case load_txt_records_from_dns replies of
     None \<Rightarrow> (True, m_points)
   | Some records \<Rightarrow> add_records m_points records)"

definition load_new_checkpoints ::
    "t_hashline list option option \<Rightarrow> dns_reply list \<Rightarrow> bool \<Rightarrow> points \<Rightarrow> (bool \<times> points) option" where
  "load_new_checkpoints file replies dns m_points = (case load_checkpoints_from_json file m_points of
     None \<Rightarrow> None
   | Some (result, m_points) \<Rightarrow>
       if dns then (case load_checkpoints_from_dns replies m_points of (r, m_points) \<Rightarrow> Some (result \<and> r, m_points))
       else Some (result, m_points))"

subsection \<open>Checkpoints never change\<close>

definition wf_points :: "points \<Rightarrow> bool" where
  "wf_points ps \<longleftrightarrow> map_ok ps \<and> list_all (\<lambda>(k, h). length h = 32) ps"

definition extends :: "points \<Rightarrow> points \<Rightarrow> bool" where
  "extends ps ps' \<longleftrightarrow> wf_points ps' \<and> map_find ps \<subseteq>\<^sub>m map_find ps'"

lemma extends_refl [simp]: "wf_points ps \<Longrightarrow> extends ps ps"
  by (simp add: extends_def)

lemma extends_trans [trans]: "extends ps ps' \<Longrightarrow> extends ps' ps'' \<Longrightarrow> extends ps ps''"
  by (auto simp: extends_def intro: map_le_trans)

lemma extends_wf: "extends ps ps' \<Longrightarrow> wf_points ps'"
  by (simp add: extends_def)

lemma add_checkpoint_extends:
  assumes "wf_points ps" "add_checkpoint ps height s = (r, ps')"
  shows "extends ps ps'"
proof -
  consider "ps' = ps" | h where "ps' = map_insert height h ps" "length h = 32" "map_find ps height = None \<or> map_find ps height = Some h"
    using assms(2) by (auto simp: add_checkpoint_def parse_tpod_from_hex_string_def split: option.splits if_splits bind_splits)
  then show ?thesis
  proof cases
    case 2
    have "map_ok ps" using assms(1) by (simp add: wf_points_def)
    moreover have "list_all (\<lambda>(k, h). length h = 32) ps'"
      using assms(1) 2 keys_map_insert by (fastforce simp: wf_points_def list_all_iff)
    ultimately show ?thesis
      using 2 pts.insert_keeps [of ps height h] by (auto simp: extends_def wf_points_def map_insert_ok)
  qed (use assms(1) in simp)
qed

lemma add_hashlines_extends: "wf_points ps \<Longrightarrow> add_hashlines m ps ls = (r, ps') \<Longrightarrow> extends ps ps'"
proof (induction m ps ls rule: add_hashlines.induct)
  case (2 m ps l ls)
  show ?case
  proof (cases "hl_height l \<le> m")
    case False
    obtain ok qs where q: "add_checkpoint ps (hl_height l) (hl_hash l) = (ok, qs)" by fastforce
    note e = add_checkpoint_extends [OF "2.prems"(1) q]
    show ?thesis
    proof (cases ok)
      case True
      with False q "2.prems"(2) have "add_hashlines m qs ls = (r, ps')" by simp
      with "2.IH"(2) [OF False q [symmetric]] e True show ?thesis by (auto intro: extends_trans extends_wf)
    qed (use False q "2.prems"(2) e in simp)
  qed (use 2 in simp)
qed simp

lemma add_records_extends: "wf_points ps \<Longrightarrow> add_records ps rs = (r, ps') \<Longrightarrow> extends ps ps'"
proof (induction rs arbitrary: ps)
  case (Cons x rs)
  consider "add_records ps rs = (r, ps')" | h s ok qs where "add_checkpoint ps h s = (ok, qs)"
      "if ok then add_records qs rs = (r, ps') else ps' = qs"
    using Cons.prems(2) by (auto split: option.splits if_splits prod.splits bool.splits)
  then show ?case
  proof cases
    case 2
    from add_checkpoint_extends [OF Cons.prems(1) 2(1)] Cons.IH [of qs] 2(2) show ?thesis
      by (auto intro: extends_trans extends_wf split: if_splits)
  qed (use Cons in simp)
qed simp

lemma load_dns_extends: "wf_points ps \<Longrightarrow> load_checkpoints_from_dns replies ps = (r, ps') \<Longrightarrow> extends ps ps'"
  by (auto simp: load_checkpoints_from_dns_def add_records_extends split: option.splits)

lemma load_json_extends: "wf_points ps \<Longrightarrow> load_checkpoints_from_json file ps = Some (r, ps') \<Longrightarrow> extends ps ps'"
  by (auto simp: load_checkpoints_from_json_def add_hashlines_extends split: option.splits)

text \<open>
  C15: Checkpoints are well typed and permanent. Starting from strictly ascending heights with 32-byte
  hashes, adding a checkpoint and loading from a file and from DNS, whatever these contain and
  whether or not they succeed, give such a container again, in which every checkpoint that
  was there before is there unchanged.
\<close>
theorem checkpoints_permanent:
  assumes "wf_points ps"
  shows "extends ps (snd (add_checkpoint ps height s)) \<and> extends ps (snd (load_checkpoints_from_dns replies ps))
    \<and> (case load_new_checkpoints file replies dns ps of None \<Rightarrow> True | Some (r, ps') \<Rightarrow> extends ps ps')"
proof (intro conjI)
  show "extends ps (snd (add_checkpoint ps height s))"
    by (rule add_checkpoint_extends [OF assms surjective_pairing])
  show "extends ps (snd (load_checkpoints_from_dns replies ps))"
    by (rule load_dns_extends [OF assms surjective_pairing])
  show "case load_new_checkpoints file replies dns ps of None \<Rightarrow> True | Some (r, ps') \<Rightarrow> extends ps ps'"
  proof (cases "load_checkpoints_from_json file ps")
    case (Some p)
    obtain r qs where p: "p = (r, qs)" by (cases p)
    from load_json_extends [OF assms] Some p have e: "extends ps qs" by blast
    then have "extends ps (snd (load_checkpoints_from_dns replies qs))"
      using load_dns_extends [OF extends_wf [OF e] surjective_pairing] by (rule extends_trans)
    with e show ?thesis by (auto simp: load_new_checkpoints_def Some p case_prod_beta)
  qed (simp add: load_new_checkpoints_def)
qed

text \<open>The container with one checkpoint that the examples use: height 5, a hash of 32 bytes 0x11.\<close>

definition sample_points :: points where
  "sample_points = [(5, replicate 32 0x11)]"

lemma sample_points_wf: "wf_points sample_points"
  by (simp add: sample_points_def wf_points_def map_ok_def)

theorem checkpoints_permanent_witness:
  "wf_points sample_points
   \<and> extends sample_points (snd (add_checkpoint sample_points 5 (replicate 64 0x32)))
   \<and> extends sample_points (snd (load_checkpoints_from_dns [] sample_points))
   \<and> (case load_new_checkpoints (Some (Some [])) [] True sample_points of None \<Rightarrow> True | Some (r, ps') \<Rightarrow> extends sample_points ps')
   \<and> map_find sample_points 5 = Some (replicate 32 0x11)"
  using checkpoints_permanent [OF sample_points_wf, of 5 "replicate 64 0x32" "[]" "Some (Some [])" True] sample_points_wf
  by (simp add: map_find_def sample_points_def)

subsection \<open>Alternative blocks\<close>

text \<open>
  C16: A block of an alternative chain is allowed exactly when it is not the genesis block and no checkpoint
  the main chain has reached lies at or above it, so a reorganisation cannot undo a checkpoint.
\<close>
theorem alternative_block_above_checkpoints:
  assumes "wf_points ps"
  shows "is_alternative_block_allowed ps blockchain_height block_height \<longleftrightarrow>
    block_height \<noteq> 0 \<and> (\<forall>k. block_height \<le> k \<and> k \<le> blockchain_height \<longrightarrow> map_find ps k = None)"
  using pts.floor_below [where m = ps and lo = block_height and hi = blockchain_height] assms
  by (auto simp: is_alternative_block_allowed_def wf_points_def)

theorem alternative_block_above_checkpoints_witness:
  "wf_points sample_points
   \<and> \<not> is_alternative_block_allowed sample_points 9 5
   \<and> is_alternative_block_allowed sample_points 9 6"
  unfolding alternative_block_above_checkpoints [OF sample_points_wf]
  using sample_points_wf by (auto simp: map_find_def sample_points_def)

subsection \<open>Records confirmed by two servers\<close>

lemma dns_records_match_set: "dns_records_match a b \<Longrightarrow> length a = length b \<and> set a \<subseteq> set b"
  by (auto simp: dns_records_match_def list_all_iff list_ex_iff split: if_splits)

lemma confirmed_twice:
  "confirmed rs = Some r \<Longrightarrow> r \<noteq> [] \<and> (\<exists>i j. i < j \<and> j < length rs \<and> rs ! i = r \<and> dns_records_match r (rs ! j))"
proof (induction rs)
  case (Cons x rs)
  show ?case
  proof (cases "x \<noteq> [] \<and> list_ex (dns_records_match x) rs")
    case True
    then obtain j where "j < length rs" "dns_records_match x (rs ! j)" by (auto simp: list_ex_iff in_set_conv_nth)
    with True Cons.prems have "r = x" "0 < Suc j" "Suc j < length (x # rs)" "(x # rs) ! 0 = x" "dns_records_match x ((x # rs) ! Suc j)" by auto
    with True show ?thesis by blast
  next
    case False
    with Cons obtain i j where "r \<noteq> []" "i < j" "j < length rs" "rs ! i = r" "dns_records_match r (rs ! j)" by auto
    then have "Suc i < Suc j" "Suc j < length (x # rs)" "(x # rs) ! Suc i = r" "dns_records_match r ((x # rs) ! Suc j)" by auto
    with \<open>r \<noteq> []\<close> show ?thesis by blast
  qed
qed simp

text \<open>
  C30: One DNS server is never enough. The records that are used were delivered by one server with DNSSEC
  available and valid, and a second such server delivered as many records with each of them among these; without two
  such servers no checkpoint is added.
\<close>
theorem dns_needs_two_servers:
  "case load_txt_records_from_dns replies of
     None \<Rightarrow> load_checkpoints_from_dns replies ps = (True, ps)
   | Some rs \<Rightarrow> rs \<noteq> [] \<and> (\<exists>i j. i < j \<and> j < length replies
       \<and> dr_avail (replies ! i) \<and> dr_valid (replies ! i) \<and> dr_records (replies ! i) = rs
       \<and> dr_avail (replies ! j) \<and> dr_valid (replies ! j)
       \<and> length (dr_records (replies ! j)) = length rs \<and> set rs \<subseteq> set (dr_records (replies ! j)))"
proof (cases "load_txt_records_from_dns replies")
  case (Some rs)
  then have "confirmed (map cleared replies) = Some rs"
    by (simp add: load_txt_records_from_dns_def Let_def split: if_splits)
  from confirmed_twice [OF this] obtain i j where ij: "rs \<noteq> []" "i < j" "j < length replies"
    "cleared (replies ! i) = rs" "dns_records_match rs (cleared (replies ! j))" by auto
  then have "cleared (replies ! j) \<noteq> []" by (auto dest: dns_records_match_set)
  with ij have "dr_avail (replies ! i) \<and> dr_valid (replies ! i) \<and> dr_records (replies ! i) = rs"
    "dr_avail (replies ! j) \<and> dr_valid (replies ! j) \<and> dns_records_match rs (dr_records (replies ! j))"
    by (auto simp: cleared_def split: if_splits)
  with ij(1-3) show ?thesis unfolding Some option.case
    by (intro conjI exI [of _ i] exI [of _ j]) (auto dest: dns_records_match_set)
qed (simp add: load_checkpoints_from_dns_def)

text \<open>
  The checkpoints file cannot be used with the default checkpoints. There are none, so that
  \<^verbatim>\<open>get_max_height\<close> dereferences the end of an empty map: as soon as the file exists, whatever is
  in it, loading it has no defined result.
\<close>
theorem json_undefined_on_defaults:
  "load_checkpoints_from_json (Some contents) (snd (init_default_checkpoints [])) = None
   \<and> load_checkpoints_from_json None (snd (init_default_checkpoints [])) = Some (True, [])"
  by (simp add: load_checkpoints_from_json_def init_default_checkpoints_def get_max_height_def map_last_def)

text \<open>The comparison of the records of two servers counts no duplicates and depends on its order.\<close>

lemma dns_records_match_asymmetric:
  "dns_records_match [str ''a'', str ''a''] [str ''a'', str ''b'']
   \<and> \<not> dns_records_match [str ''a'', str ''b''] [str ''a'', str ''a'']"
  by code_simp

end
