(* ===== verification/Money.thy ===== *)
theory Money
  imports Tx_Hash Hex
begin

text \<open>
  Amounts of money: the functions of \<^verbatim>\<open>src/src/cryptonote_basic/cryptonote_format_utils.cpp\<close> (and
  \<open>decompose_amount_into_digits\<close> of its header) on amounts, fees, weights and output offsets, with
  parsing and printing of amounts. Amounts are 64-bit words and wrap around as in the source.

  The decimal point that can be set at run time is an argument. \<open>None\<close> is the result \<open>false\<close>, for
  \<open>get_transaction_weight\<close> an exception.

  Shown here: the overflow checks decide exactly whether the mathematical sum fits; the
  decomposition of an amount loses nothing; printed amounts parse back; absolute offsets survive
  the conversion to relative ones.
\<close>

subsection \<open>Sums of inputs and outputs\<close>

fun txin_amount :: "txin_v \<Rightarrow> u64 option" where
  "txin_amount (txin_to_key a offsets k_image) = Some a"
| "txin_amount _ = None"

fun inputs_sum :: "u64 \<Rightarrow> txin_v list \<Rightarrow> u64 option" where
  "inputs_sum money [] = Some money"
| "inputs_sum money (i # is) = (case txin_amount i of None \<Rightarrow> None | Some a \<Rightarrow> inputs_sum (money + a) is)"

definition get_inputs_money_amount :: "transaction \<Rightarrow> u64 option" where
  "get_inputs_money_amount tx = inputs_sum 0 (vin tx)"

definition get_outs_money_amount :: "transaction \<Rightarrow> u64" where
  "get_outs_money_amount tx = foldl (\<lambda>outputs_amount o'. outputs_amount + amount o') 0 (vout tx)"

fun no_overflow :: "u64 \<Rightarrow> u64 list \<Rightarrow> bool" where
  "no_overflow money [] = True"
| "no_overflow money (a # as) = (if money > a + money then False else no_overflow (money + a) as)"

fun inputs_no_overflow :: "u64 \<Rightarrow> txin_v list \<Rightarrow> bool" where
  "inputs_no_overflow money [] = True"
| "inputs_no_overflow money (i # is) = (case txin_amount i of
     None \<Rightarrow> False
   | Some a \<Rightarrow> if money > a + money then False else inputs_no_overflow (money + a) is)"

definition check_inputs_overflow :: "transaction \<Rightarrow> bool" where
  "check_inputs_overflow tx = inputs_no_overflow 0 (vin tx)"

definition check_outs_overflow :: "transaction \<Rightarrow> bool" where
  "check_outs_overflow tx = no_overflow 0 (map amount (vout tx))"

definition check_money_overflow :: "transaction \<Rightarrow> bool" where
  "check_money_overflow tx \<longleftrightarrow> check_inputs_overflow tx \<and> check_outs_overflow tx"

definition check_inputs_types_supported :: "transaction \<Rightarrow> bool" where
  "check_inputs_types_supported tx = list_all (\<lambda>i. txin_amount i \<noteq> None) (vin tx)"

text \<open>\<open>check_key\<close>: the key is a point of the curve.\<close>

definition check_outs_valid :: "(bytes \<Rightarrow> bool) \<Rightarrow> transaction \<Rightarrow> bool" where
  "check_outs_valid check_key tx =
     list_all (\<lambda>out.
       if \<not> is_txout_to_key (target out) then False
       else if version tx = 1 \<and> \<not> 0 < amount out then False
       else check_key (txout_key (target out))) (vout tx)"

definition get_tx_fee :: "transaction \<Rightarrow> u64 option" where
  "get_tx_fee tx =
     (if version tx > 1 then Some (txnFee (rct_signatures tx))
      else case inputs_sum 0 (vin tx) of
        None \<Rightarrow> None
      | Some amount_in \<Rightarrow>
          let amount_out = get_outs_money_amount tx in
          if \<not> amount_in \<ge> amount_out then None else Some (amount_in - amount_out))"

definition get_tx_fee_or_0 :: "transaction \<Rightarrow> u64" where
  "get_tx_fee_or_0 tx = (case get_tx_fee tx of None \<Rightarrow> 0 | Some r \<Rightarrow> r)"

subsection \<open>Weights\<close>

definition get_transaction_weight_blob :: "transaction \<Rightarrow> u64 \<Rightarrow> u64 option" where
  "get_transaction_weight_blob tx blob_size =
     (if version tx < 2 then Some blob_size
      else
        let rv = rct_signatures tx in
        if \<not> is_rct_bulletproof (rct_type rv) then Some blob_size
        else if length (vout tx) \<le> 2 then Some blob_size
        else
          let bp_base = 368;
              n_padded_outputs = n_bulletproof_max_amounts (bulletproofs (prunable rv));
              nlr = foldl (\<lambda>nlr bp. nlr + of_nat (length (bp_L bp)) * 2) 0 (bulletproofs (prunable rv));
              bp_size = 32 * (9 + nlr) in
          if \<not> bp_base * n_padded_outputs \<ge> bp_size then None
          else
            let bp_clawback = (bp_base * n_padded_outputs - bp_size) * 4 div 5 in
            if \<not> bp_clawback \<le> - 1 - blob_size then None
            else Some (blob_size + bp_clawback))"

definition get_transaction_weight :: "transaction \<Rightarrow> u64 option" where
  "get_transaction_weight tx = get_transaction_weight_blob tx (of_nat (length (snd (save_transaction tx))))"

subsection \<open>Decomposition into digits\<close>

definition valid_decomposed_outputs :: "u64 list" where
  "valid_decomposed_outputs =
    [1, 2, 3, 4, 5, 6, 7, 8, 9,
     10, 20, 30, 40, 50, 60, 70, 80, 90,
     100, 200, 300, 400, 500, 600, 700, 800, 900,
     1000, 2000, 3000, 4000, 5000, 6000, 7000, 8000, 9000,
     10000, 20000, 30000, 40000, 50000, 60000, 70000, 80000, 90000,
     100000, 200000, 300000, 400000, 500000, 600000, 700000, 800000, 900000,
     1000000, 2000000, 3000000, 4000000, 5000000, 6000000, 7000000, 8000000, 9000000,
     10000000, 20000000, 30000000, 40000000, 50000000, 60000000, 70000000, 80000000, 90000000,
     100000000, 200000000, 300000000, 400000000, 500000000, 600000000, 700000000, 800000000, 900000000,
     1000000000, 2000000000, 3000000000, 4000000000, 5000000000, 6000000000, 7000000000, 8000000000, 9000000000,
     10000000000, 20000000000, 30000000000, 40000000000, 50000000000, 60000000000, 70000000000, 80000000000, 90000000000,
     100000000000, 200000000000, 300000000000, 400000000000, 500000000000, 600000000000, 700000000000, 800000000000, 900000000000,
     1000000000000, 2000000000000, 3000000000000, 4000000000000, 5000000000000, 6000000000000, 7000000000000, 8000000000000, 9000000000000,
     10000000000000, 20000000000000, 30000000000000, 40000000000000, 50000000000000, 60000000000000, 70000000000000, 80000000000000, 90000000000000,
     100000000000000, 200000000000000, 300000000000000, 400000000000000, 500000000000000, 600000000000000, 700000000000000, 800000000000000, 900000000000000,
     1000000000000000, 2000000000000000, 3000000000000000, 4000000000000000, 5000000000000000, 6000000000000000, 7000000000000000, 8000000000000000, 9000000000000000,
     10000000000000000, 20000000000000000, 30000000000000000, 40000000000000000, 50000000000000000, 60000000000000000, 70000000000000000, 80000000000000000, 90000000000000000,
     100000000000000000, 200000000000000000, 300000000000000000, 400000000000000000, 500000000000000000, 600000000000000000, 700000000000000000, 800000000000000000, 900000000000000000,
     1000000000000000000, 2000000000000000000, 3000000000000000000, 4000000000000000000, 5000000000000000000, 6000000000000000000, 7000000000000000000, 8000000000000000000, 9000000000000000000,
     10000000000000000000]"

text \<open>\<open>binary_search\<close> in the sorted table.\<close>

definition is_valid_decomposed_amount :: "u64 \<Rightarrow> bool" where
  "is_valid_decomposed_amount a \<longleftrightarrow> a \<in> set valid_decomposed_outputs"

text \<open>The calls of the two handlers, in order.\<close>

datatype piece = a_chunk (piece_amount: u64) | a_dust (piece_amount: u64)

function decompose_loop :: "u64 \<Rightarrow> bool \<Rightarrow> u64 \<Rightarrow> u64 \<Rightarrow> u64 \<Rightarrow> piece list" where
  "decompose_loop dust_threshold is_dust_handled dust order a =
     (if a = 0 then (if \<not> is_dust_handled \<and> dust \<noteq> 0 then [a_dust dust] else [])
      else
        let chunk = (a mod 10) * order in
        if dust + chunk \<le> dust_threshold
        then decompose_loop dust_threshold is_dust_handled (dust + chunk) (order * 10) (a div 10)
        else
          (if \<not> is_dust_handled \<and> dust \<noteq> 0 then [a_dust dust] else [])
          @ (if chunk \<noteq> 0 then [a_chunk chunk] else [])
          @ decompose_loop dust_threshold (is_dust_handled \<or> dust \<noteq> 0) dust (order * 10) (a div 10))"
  by pat_completeness auto
termination
  by (relation "measure (\<lambda>(t, h, d, order, a). unat a)") (auto simp: unat_div word_less_nat_alt unat_gt_0)

declare decompose_loop.simps [simp del]

definition decompose_amount_into_digits :: "u64 \<Rightarrow> u64 \<Rightarrow> piece list" where
  "decompose_amount_into_digits a dust_threshold =
     (if a = 0 then [] else decompose_loop dust_threshold False 0 1 a)"

subsection \<open>Printing and parsing\<close>

fun power_loop :: "u64 \<Rightarrow> u64 \<Rightarrow> nat \<Rightarrow> u64" where
  "power_loop a tot 0 = tot"
| "power_loop a tot (Suc n) = power_loop a (tot * a) n"

definition power_integral :: "u64 \<Rightarrow> u64 \<Rightarrow> u64" where
  "power_integral a b = (if b = 0 then 1 else power_loop a a (unat b - 1))"

text \<open>The trailing zeros that \<open>parse_amount\<close> removes from a too long fraction.\<close>

fun strip_zeros :: "nat \<Rightarrow> nat \<Rightarrow> bytes \<Rightarrow> nat \<times> bytes" where
  "strip_zeros decimal_point 0 s = (0, s)"
| "strip_zeros decimal_point (Suc n) s =
     (if decimal_point < Suc n \<and> s \<noteq> [] \<and> last s = 0x30 then strip_zeros decimal_point n (butlast s) else (Suc n, s))"

definition parse_amount :: "nat \<Rightarrow> bytes \<Rightarrow> u64 option" where
  "parse_amount default_decimal_point str_amount =
     (let s = trim str_amount;
          point_index = length (takeWhile (\<lambda>c. c \<noteq> 0x2e) s) in
      do {
        (fraction_size, s) \<leftarrow>
          (if point_index < length s then
             let (fraction_size, s) = strip_zeros default_decimal_point (length s - point_index - 1) s in
             if default_decimal_point < fraction_size then None
             else Some (fraction_size, take point_index s @ drop (point_index + 1) s)
           else Some (0, s));
        if s = [] then None
        else get_xtype_from_string
          (if fraction_size < default_decimal_point
           then s @ replicate (default_decimal_point - fraction_size) 0x30 else s) })"

definition print_money :: "nat \<Rightarrow> u32 \<Rightarrow> u64 \<Rightarrow> bytes" where
  "print_money default_decimal_point decimal_point a =
     (let dp = (if decimal_point = - 1 then default_decimal_point else unat decimal_point);
          s = decimal (unat a);
          s = (if length s < dp + 1 then replicate (dp + 1 - length s) 0x30 @ s else s) in
      if dp > 0 then take (length s - dp) s @ [0x2e] @ drop (length s - dp) s else s)"

definition set_default_decimal_point :: "nat \<Rightarrow> nat option" where
  "set_default_decimal_point decimal_point = (if decimal_point = 6 \<or> decimal_point = 0 then Some decimal_point else None)"

definition get_unit :: "nat \<Rightarrow> u32 \<Rightarrow> bytes option" where
  "get_unit default_decimal_point decimal_point =
     (if default_decimal_point = 6 then Some (str ''xcash'')
      else if default_decimal_point = 0 then Some (str ''zachy'')
      else None)"

subsection \<open>Output offsets\<close>

fun add_up :: "u64 \<Rightarrow> u64 list \<Rightarrow> u64 list" where
  "add_up prev [] = []"
| "add_up prev (x # xs) = (x + prev) # add_up (x + prev) xs"

definition relative_output_offsets_to_absolute :: "u64 list \<Rightarrow> u64 list" where
  "relative_output_offsets_to_absolute off = (case off of [] \<Rightarrow> [] | x # xs \<Rightarrow> x # add_up x xs)"

text \<open>The loop runs downwards, so every difference is taken with the original predecessor.\<close>

fun subtract_down :: "nat \<Rightarrow> u64 list \<Rightarrow> u64 list" where
  "subtract_down 0 res = res"
| "subtract_down (Suc i) res = subtract_down i (res[Suc i := res ! Suc i - res ! i])"

definition absolute_output_offsets_to_relative :: "u64 list \<Rightarrow> u64 list" where
  "absolute_output_offsets_to_relative off =
     (let res = sort off in if off = [] then res else subtract_down (length res - 1) res)"

subsection \<open>Overflow checks are exact\<close>

abbreviation nat_sum :: "u64 list \<Rightarrow> nat" where
  "nat_sum as \<equiv> sum_list (map unat as)"

lemma no_overflow_iff: "no_overflow m as \<longleftrightarrow> unat m + nat_sum as < 2 ^ 64"
proof (induction m as rule: no_overflow.induct)
  case (2 m a as)
  show ?case
  proof (cases "unat m + unat a < 2 ^ 64")
    case True
    with 2 show ?thesis by (simp add: add_overflows unat_add_fits add.assoc)
  qed (simp add: add_overflows)
qed (simp add: unat_bound)

lemma foldl_sum: "unat m + nat_sum (map f xs) < 2 ^ 64 \<Longrightarrow> unat (foldl (\<lambda>m x. m + f x) m xs) = unat m + nat_sum (map f xs)"
proof (induction xs arbitrary: m)
  case (Cons x xs)
  then have "unat (m + f x) = unat m + unat (f x)" by (intro unat_add_fits) simp
  with Cons show ?case by (simp add: add.assoc)
qed simp

lemma outs_money:
  "check_outs_overflow tx \<longleftrightarrow> nat_sum (map amount (vout tx)) < 2 ^ 64"
  "check_outs_overflow tx \<Longrightarrow> unat (get_outs_money_amount tx) = nat_sum (map amount (vout tx))"
  using foldl_sum [of 0 amount "vout tx"]
  by (simp_all add: check_outs_overflow_def no_overflow_iff get_outs_money_amount_def)

definition input_amounts :: "transaction \<Rightarrow> u64 list" where
  "input_amounts tx = List.map_filter txin_amount (vin tx)"

lemma inputs_no_overflow_iff:
  "inputs_no_overflow m is \<longleftrightarrow> list_all (\<lambda>i. txin_amount i \<noteq> None) is \<and> unat m + nat_sum (List.map_filter txin_amount is) < 2 ^ 64"
proof (induction m "is" rule: inputs_no_overflow.induct)
  case (2 m i "is")
  show ?case
  proof (cases "txin_amount i")
    case (Some a)
    show ?thesis
    proof (cases "unat m + unat a < 2 ^ 64")
      case True
      with 2 [OF Some] Some show ?thesis by (simp add: add_overflows unat_add_fits add.assoc map_filter_simps)
    qed (simp add: add_overflows Some map_filter_simps)
  qed simp
qed (simp add: map_filter_simps unat_bound)

lemma inputs_sum_exact:
  "list_all (\<lambda>i. txin_amount i \<noteq> None) is \<Longrightarrow> unat m + nat_sum (List.map_filter txin_amount is) < 2 ^ 64 \<Longrightarrow>
    \<exists>s. inputs_sum m is = Some s \<and> unat s = unat m + nat_sum (List.map_filter txin_amount is)"
proof (induction m "is" rule: inputs_sum.induct)
  case (2 m i "is")
  then obtain a where a: "txin_amount i = Some a" by auto
  have "unat (m + a) = unat m + unat a" using "2.prems" a by (intro unat_add_fits) (simp add: map_filter_simps)
  with 2(1) [OF a] "2.prems" a show ?case by (simp add: add.assoc map_filter_simps)
qed (simp add: map_filter_simps)

text \<open>
  C13: The overflow checks are exact, and behind them the money of a transaction balances. They pass exactly when
  all inputs spend keys and the true sums of inputs and of outputs fit in 64 bits. Then for a transaction
  of version 1 the fee is computed exactly when the outputs do not exceed the inputs, and
  inputs equal outputs plus fee without wrap-around.
\<close>
theorem money_balances:
  "(check_money_overflow tx \<longleftrightarrow> list_all (\<lambda>i. txin_amount i \<noteq> None) (vin tx)
      \<and> nat_sum (input_amounts tx) < 2 ^ 64 \<and> nat_sum (map amount (vout tx)) < 2 ^ 64)
   \<and> (check_money_overflow tx \<and> version tx = 1 \<longrightarrow>
        (case get_tx_fee tx of
           None \<Rightarrow> nat_sum (input_amounts tx) < nat_sum (map amount (vout tx))
         | Some fee \<Rightarrow> nat_sum (input_amounts tx) = nat_sum (map amount (vout tx)) + unat fee))"
proof (intro conjI impI)
  show iff: "check_money_overflow tx \<longleftrightarrow> list_all (\<lambda>i. txin_amount i \<noteq> None) (vin tx)
      \<and> nat_sum (input_amounts tx) < 2 ^ 64 \<and> nat_sum (map amount (vout tx)) < 2 ^ 64"
    by (auto simp: check_money_overflow_def check_inputs_overflow_def inputs_no_overflow_iff outs_money(1) input_amounts_def)
  assume a: "check_money_overflow tx \<and> version tx = 1"
  with iff obtain s where s: "inputs_sum 0 (vin tx) = Some s" "unat s = nat_sum (input_amounts tx)"
    using inputs_sum_exact [of "vin tx" 0] by (auto simp: input_amounts_def)
  have "unat (get_outs_money_amount tx) = nat_sum (map amount (vout tx))"
    using a by (intro outs_money(2)) (simp add: check_money_overflow_def)
  moreover have "version tx = 1" using a by simp
  ultimately show "case get_tx_fee tx of
           None \<Rightarrow> nat_sum (input_amounts tx) < nat_sum (map amount (vout tx))
         | Some fee \<Rightarrow> nat_sum (input_amounts tx) = nat_sum (map amount (vout tx)) + unat fee"
    using s unat_sub_le [of "get_outs_money_amount tx" s] by (simp add: get_tx_fee_def Let_def word_le_nat_alt)
qed

definition sample_spend :: transaction where
  "sample_spend = new_transaction\<lparr>vin := [txin_to_key 10 [1] zero_key, txin_to_key 5 [2] zero_key],
     vout := [\<lparr>amount = 12, target = txout_to_key zero_key\<rparr>]\<rparr>"

theorem money_balances_witness:
  "check_money_overflow sample_spend \<and> get_tx_fee sample_spend = Some 3
   \<and> nat_sum (input_amounts sample_spend) = nat_sum (map amount (vout sample_spend)) + 3"
proof -
  have c: "check_money_overflow sample_spend" "version sample_spend = 1" "get_tx_fee sample_spend = Some 3"
    by code_simp+
  with money_balances [of sample_spend] show ?thesis by simp
qed

subsection \<open>Decomposition loses nothing\<close>

text \<open>The table holds the products of a digit and a power of ten that fit in 64 bits.\<close>

lemma valid_decomposed_outputs_digits:
  "valid_decomposed_outputs = concat (map (\<lambda>k. map (\<lambda>d. d * 10 ^ k) [1, 2, 3, 4, 5, 6, 7, 8, 9]) [0..<19]) @ [10 ^ 19]"
  unfolding valid_decomposed_outputs_def by (simp add: upt_conv_Cons)

lemma digit_cases:
  assumes "0 < d" "d < (10 :: nat)"
  shows "of_nat d \<in> set [1, 2, 3, 4, 5, 6, 7, 8, 9 :: u64]"
proof -
  have "d = 1 \<or> d = 2 \<or> d = 3 \<or> d = 4 \<or> d = 5 \<or> d = 6 \<or> d = 7 \<or> d = 8 \<or> d = 9" using assms by arith
  then show ?thesis by (elim disjE) simp_all
qed

lemma digit_times_power_valid:
  assumes "0 < d" "d < 10" "d * 10 ^ k < 2 ^ 64"
  shows "is_valid_decomposed_amount (of_nat (d * 10 ^ k))"
proof -
  have "(10 :: nat) ^ k \<le> d * 10 ^ k" using assms(1) by simp
  also note assms(3)
  also have "(2 :: nat) ^ 64 < 10 ^ 20" by simp
  finally have "(10 :: nat) ^ k < 10 ^ 20" .
  then have k: "k < 20" by (rule power_less_imp_less_exp [rotated]) simp
  show ?thesis
  proof (cases "k = 19")
    case True
    with assms have "d = 1" by auto
    with True show ?thesis by (simp add: is_valid_decomposed_amount_def valid_decomposed_outputs_digits)
  next
    case False
    with k have "k \<in> set [0..<19]" by simp
    moreover have "of_nat (d * 10 ^ k) \<in> set (map (\<lambda>d. d * 10 ^ k) [1, 2, 3, 4, 5, 6, 7, 8, 9 :: u64])"
      using digit_cases [OF assms(1,2)] by (simp only: set_map of_nat_mult of_nat_power of_nat_numeral) (rule imageI)
    ultimately show ?thesis
      unfolding is_valid_decomposed_amount_def valid_decomposed_outputs_digits by (auto simp del: upt_Suc)
  qed
qed

definition pieces_sum :: "piece list \<Rightarrow> nat" where
  "pieces_sum ps = nat_sum (map piece_amount ps)"

lemma pieces_sum_simps [simp]:
  "pieces_sum [] = 0" "pieces_sum (p # ps) = unat (piece_amount p) + pieces_sum ps" "pieces_sum (ps @ qs) = pieces_sum ps + pieces_sum qs"
  by (simp_all add: pieces_sum_def)

fun piece_ok :: "u64 \<Rightarrow> piece \<Rightarrow> bool" where
  "piece_ok dust_threshold (a_chunk c) = is_valid_decomposed_amount c"
| "piece_ok dust_threshold (a_dust d) \<longleftrightarrow> 0 < d \<and> d \<le> dust_threshold"

text \<open>The words of one turn of the loop, as numbers.\<close>

lemma decompose_turn:
  assumes "order = 10 ^ k" "unat dust + unat a * 10 ^ k < 2 ^ 64" "a \<noteq> (0 :: u64)"
  shows "unat ((a mod 10) * order) = unat a mod 10 * 10 ^ k"
    and "unat (dust + (a mod 10) * order) = unat dust + unat a mod 10 * 10 ^ k"
    and "unat a * 10 ^ k = unat (a div 10) * 10 ^ Suc k + unat a mod 10 * 10 ^ k"
    and "(a mod 10) * order = of_nat (unat a mod 10 * 10 ^ k)" "unat a mod 10 * 10 ^ k < 2 ^ 64"
proof -
  have "0 < unat a" using assms(3) by (simp add: unat_gt_0)
  then have "(10 :: nat) ^ k \<le> unat a * 10 ^ k" by simp
  with assms(2) have "(10 :: nat) ^ k < 2 ^ 64" by linarith
  have q: "unat (a div 10) = unat a div 10" by (simp add: unat_div)
  show split: "unat a * 10 ^ k = unat (a div 10) * 10 ^ Suc k + unat a mod 10 * 10 ^ k"
    unfolding q power_Suc mult.assoc [symmetric] distrib_right [symmetric] by simp
  with assms(2) have fits: "unat dust + unat a mod 10 * 10 ^ k < 2 ^ 64" by linarith
  then show fits': "unat a mod 10 * 10 ^ k < 2 ^ 64" by linarith
  have "a mod 10 = of_nat (unat a mod 10)" by (rule word_unat_eq_iff [THEN iffD2]) (simp add: unat_mod unat_of_nat)
  show w: "(a mod 10) * order = of_nat (unat a mod 10 * 10 ^ k)"
    unfolding assms(1) using \<open>a mod 10 = of_nat (unat a mod 10)\<close> by simp
  show c: "unat ((a mod 10) * order) = unat a mod 10 * 10 ^ k" unfolding w using fits' by (rule unat_of_nat_u64)
  show "unat (dust + (a mod 10) * order) = unat dust + unat a mod 10 * 10 ^ k"
    using unat_add_fits [of dust "(a mod 10) * order"] fits unfolding c by simp
qed

lemma decompose_loop_correct:
  assumes "order = 10 ^ k" "unat dust + unat a * 10 ^ k < 2 ^ 64" "dust \<le> t" "h \<longrightarrow> unat t < unat dust + 10 ^ k"
  shows "pieces_sum (decompose_loop t h dust order a) = unat a * 10 ^ k + (if h then 0 else unat dust)
    \<and> list_all (piece_ok t) (decompose_loop t h dust order a)"
  using assms
proof (induction t h dust order a arbitrary: k rule: decompose_loop.induct)
  case (1 t h dust order a)
  show ?case
  proof (cases "a = 0")
    case True
    then show ?thesis using "1.prems"(3) by (subst (1 2) decompose_loop.simps) (simp add: word_gt_0)
  next
    case False
    note turn = decompose_turn [OF "1.prems"(1,2) False]
    define chunk where "chunk = (a mod 10) * order"
    define c where "c = unat a mod 10 * 10 ^ k"
    note turn' = turn(1,2,3) [folded chunk_def c_def]
    have order': "order * 10 = 10 ^ Suc k" using "1.prems"(1) by simp
    have c9: "c < 10 ^ Suc k" unfolding c_def by simp
    show ?thesis
    proof (cases "dust + chunk \<le> t")
      case True
      have "h \<longrightarrow> c = 0"
        using True "1.prems"(4) turn'(2) by (cases "unat a mod 10") (auto simp: word_le_nat_alt c_def)
      moreover have "unat (dust + chunk) + unat (a div 10) * 10 ^ Suc k < 2 ^ 64" using "1.prems"(2) turn' by linarith
      moreover have "h \<longrightarrow> unat t < unat (dust + chunk) + 10 ^ Suc k"
      proof
        assume h
        with "1.prems"(4) have "unat t < unat dust + 10 ^ k" by blast
        also have "\<dots> \<le> unat (dust + chunk) + 10 ^ Suc k" unfolding turn'(2) by simp
        finally show "unat t < unat (dust + chunk) + 10 ^ Suc k" .
      qed
      ultimately show ?thesis
        using "1.IH"(1) [OF False chunk_def, OF True order'] True False turn'
        by (simp add: decompose_loop.simps [of t h dust order a] Let_def chunk_def [symmetric] True)
    next
      case F: False
      have lt: "unat t < unat dust + 10 ^ Suc k" using F c9 turn'(2) by (simp add: word_le_nat_alt)
      have "unat dust + unat (a div 10) * 10 ^ Suc k < 2 ^ 64" using "1.prems"(2) turn'(3) by linarith
      note IH = "1.IH"(2) [OF False chunk_def F order' this "1.prems"(3)]
      have ok: "chunk \<noteq> 0 \<longrightarrow> is_valid_decomposed_amount chunk"
        using digit_times_power_valid [of "unat a mod 10" k] turn(4,5) by (cases "unat a mod 10 = 0") (auto simp: chunk_def)
      have "chunk = 0 \<longrightarrow> c = 0" using turn'(1) by auto
      then show ?thesis
        using IH lt ok turn' False F "1.prems"(3)
        by (simp add: decompose_loop.simps [of t h dust order a] Let_def chunk_def [symmetric] word_gt_0)
    qed
  qed
qed

text \<open>
  C28: Splitting an amount into digits loses nothing: the pieces add up to the amount exactly, every
  chunk is an entry of the table of valid denominations, and the dust is positive and within
  the threshold.
\<close>
theorem decompose_exact:
  "pieces_sum (decompose_amount_into_digits a dust_threshold) = unat a
   \<and> list_all (piece_ok dust_threshold) (decompose_amount_into_digits a dust_threshold)"
  using decompose_loop_correct [of 1 0 0 a dust_threshold False] unat_lt_u64 [of a]
  by (auto simp: decompose_amount_into_digits_def)

subsection \<open>Printed amounts parse back\<close>

lemma digit_no_space: "is_digit c \<Longrightarrow> \<not> is_space c" "is_digit c \<Longrightarrow> c \<noteq> 0x2e"
  by (auto simp: is_digit_def is_space_def word_le_nat_alt)

lemma dropWhile_hd: "\<not> P (hd s) \<Longrightarrow> dropWhile P s = s"
  by (cases s) auto

lemma trim_id: "s \<noteq> [] \<Longrightarrow> \<not> is_space (hd s) \<Longrightarrow> \<not> is_space (last s) \<Longrightarrow> trim s = s"
  by (simp add: trim_def hd_rev dropWhile_hd)

lemma digits_value_zeros: "digits_value 0 (replicate n 0x30 @ s) = digits_value 0 s"
  by (induction n) (simp_all add: is_digit_def)

lemma zeros_digits: "list_all is_digit (replicate n 0x30)"
  by (simp add: list_all_iff is_digit_def)

lemma takeWhile_digits: "list_all is_digit s \<Longrightarrow> takeWhile (\<lambda>c. c \<noteq> 0x2e) (s @ 0x2e # t) = s"
  by (induction s) (auto simp: digit_no_space)

text \<open>A string of digits with the point put back where \<open>parse_amount\<close> takes it out.\<close>

lemma parse_amount_point:
  assumes "list_all is_digit (s @ t)" "s \<noteq> []" "length t = dp" "dp > 0"
  shows "parse_amount dp (s @ 0x2e # t) = get_xtype_from_string (s @ t)"
proof -
  have "t \<noteq> []" using assms(3,4) by auto
  have "\<not> is_space (hd (s @ 0x2e # t))" "\<not> is_space (last (s @ 0x2e # t))"
    using assms(1,2) \<open>t \<noteq> []\<close> by (auto simp: list_all_iff digit_no_space)
  then have trim: "trim (s @ 0x2e # t) = s @ 0x2e # t" by (simp add: trim_id)
  have point: "length (takeWhile (\<lambda>c. c \<noteq> 0x2e) (s @ 0x2e # t)) = length s"
    using assms(1) by (simp add: takeWhile_digits)
  have strip: "strip_zeros dp dp x = (dp, x)" for x using assms(4) by (cases dp) auto
  have size: "length (s @ 0x2e # t) - length s - 1 = dp" using assms(3) by simp
  show ?thesis
    unfolding parse_amount_def Let_def trim point size strip prod.case using assms by simp
qed

lemma parse_amount_whole:
  assumes "list_all is_digit s" "s \<noteq> []"
  shows "parse_amount 0 s = get_xtype_from_string s"
proof -
  have "trim s = s" using assms by (intro trim_id) (auto simp: list_all_iff digit_no_space)
  moreover have "takeWhile (\<lambda>c. c \<noteq> 0x2e) s = s" using assms(1) by (auto simp: list_all_iff digit_no_space)
  ultimately show ?thesis using assms(2) by (simp add: parse_amount_def Let_def del: takeWhile_eq_all_conv)
qed

lemma get_xtype_decimal:
  "get_xtype_from_string (replicate n 0x30 @ decimal (unat a)) = Some a"
  using unat_lt_u64 [of a] decimal_digits [of "unat a"]
  by (simp add: get_xtype_from_string_def digits_value_zeros zeros_digits)

text \<open>
  C39: Amounts survive printing and parsing: with any decimal point, what \<^verbatim>\<open>print_money\<close> prints,
  \<^verbatim>\<open>parse_amount\<close> reads back as the same amount.
\<close>
theorem print_parse_money:
  "parse_amount default_decimal_point (print_money default_decimal_point (- 1) a) = Some a"
proof -
  define dp where "dp = default_decimal_point"
  define z where "z = dp + 1 - length (decimal (unat a))"
  define s where "s = replicate z 0x30 @ decimal (unat a)"
  have len: "length s \<ge> dp + 1" by (simp add: s_def z_def)
  have digits: "list_all is_digit s" by (simp add: s_def zeros_digits)
  have get: "get_xtype_from_string s = Some a" unfolding s_def by (rule get_xtype_decimal)
  have one: "0 < dp" if "length (decimal (unat a)) < Suc dp"
    using that decimal_not_Nil [of "unat a"] by (cases dp) (auto simp del: decimal_not_Nil)
  have print: "print_money dp (- 1) a =
      (if dp > 0 then take (length s - dp) s @ 0x2e # drop (length s - dp) s else s)"
    using one by (auto simp: print_money_def Let_def s_def z_def)
  show ?thesis
  proof (cases "dp > 0")
    case True
    have "parse_amount dp (take (length s - dp) s @ 0x2e # drop (length s - dp) s) = get_xtype_from_string s"
      using parse_amount_point [of "take (length s - dp) s" "drop (length s - dp) s" dp] True len digits by (cases s) auto
    with True get show ?thesis by (simp add: print dp_def [symmetric])
  next
    case False
    with parse_amount_whole [OF digits] len get show ?thesis unfolding dp_def [symmetric] print by (cases s) auto
  qed
qed

subsection \<open>Offsets\<close>

lemma subtract_down_nth:
  "i < length res \<Longrightarrow> j < length res \<Longrightarrow> subtract_down i res ! j = (if 0 < j \<and> j \<le> i then res ! j - res ! (j - 1) else res ! j)"
proof (induction i arbitrary: res)
  case (Suc i)
  then show ?case by (cases "j = Suc i") (auto simp: nth_list_update le_Suc_eq)
qed auto

lemma length_subtract_down [simp]: "length (subtract_down i res) = length res"
  by (induction i arbitrary: res) auto

lemma length_add_up [simp]: "length (add_up p xs) = length xs"
  by (induction p xs rule: add_up.induct) auto

lemma add_up_differences:
  "(\<And>j. j < length ys \<Longrightarrow> xs ! j = ys ! j - (if j = 0 then p else ys ! (j - 1))) \<Longrightarrow> length xs = length ys \<Longrightarrow> add_up p xs = ys"
proof (induction ys arbitrary: p xs)
  case (Cons y ys)
  then obtain x xs' where xs: "xs = x # xs'" by (cases xs) auto
  have "x = y - p" using Cons.prems(1) [of 0] xs by simp
  moreover have "add_up y xs' = ys"
  proof (rule Cons.IH)
    show "xs' ! j = ys ! j - (if j = 0 then y else ys ! (j - 1))" if "j < length ys" for j
      using Cons.prems(1) [of "Suc j"] that xs by (cases j) auto
  qed (use Cons.prems(2) xs in simp)
  ultimately show ?case using xs by simp
qed simp

text \<open>
  Output offsets survive the conversion: making absolute offsets relative and back gives the
  sorted offsets.
\<close>
theorem offsets_roundtrip:
  "relative_output_offsets_to_absolute (absolute_output_offsets_to_relative off) = sort off"
proof (cases "sort off")
  case (Cons y ys)
  then have ne: "off \<noteq> []" by auto
  define rel where "rel = subtract_down (length ys) (y # ys)"
  have len: "length rel = Suc (length ys)" by (simp add: rel_def)
  then obtain x xs where x: "rel = x # xs" by (cases rel) auto
  have rel: "rel ! j = (if 0 < j then (y # ys) ! j - (y # ys) ! (j - 1) else (y # ys) ! j)" if "j < Suc (length ys)" for j
    using that by (simp add: rel_def subtract_down_nth)
  have "x = y" using rel [of 0] x by simp
  moreover have "add_up y xs = ys"
    using rel [of "Suc j" for j] x len by (intro add_up_differences) (auto simp: nth_Cons' split: if_splits)
  ultimately show ?thesis
    using ne x Cons by (simp add: absolute_output_offsets_to_relative_def relative_output_offsets_to_absolute_def Let_def rel_def)
qed (auto simp: absolute_output_offsets_to_relative_def relative_output_offsets_to_absolute_def Let_def)

end
