(* ===== verification/Block_Reward.thy ===== *)
theory Block_Reward
  imports Difficulty
begin

text \<open>
  Block reward and fees: \<open>get_block_reward\<close> of
  \<^verbatim>\<open>src/src/cryptonote_basic/cryptonote_basic_impl.cpp\<close>, the long division of
  \<^verbatim>\<open>src/src/common/int-util.h\<close>, the cap on the generated coins and the fee rules of
  \<^verbatim>\<open>src/src/cryptonote_core/blockchain.cpp\<close>.

  \<open>size_t\<close> has 64 bits; \<open>div128_32\<close> takes a 32-bit divisor, to which a weight is truncated, and
  \<open>None\<close> is its division by zero. The outcome of \<open>get_block_reward\<close> tells a block that is too big
  from that case and from a failed assertion, which ends the program; a release build leaves
  the assertions out.

  Shown here: the division is exact; the reward is the penalty formula without rounding in
  between, and the assertions fail exactly for weights from \<open>2\<^sup>3\<^sup>2 - 1\<close> on; the generated
  coins never exceed the supply and reach it; the fee that is asked for.
\<close>

unbundle bit_operations_syntax

subsection \<open>Long division\<close>

text \<open>Quotient and remainder.\<close>

definition div_with_reminder :: "u64 \<Rightarrow> u32 \<Rightarrow> u32 \<Rightarrow> u64 \<times> u32" where
  "div_with_reminder dividend divisor remainder =
     (let dividend = dividend OR push_bit 32 (ucast remainder) in
      (dividend div ucast divisor, ucast (dividend mod ucast divisor)))"

text \<open>The high and the low quotient and the remainder.\<close>

definition div128_32 :: "u64 \<Rightarrow> u64 \<Rightarrow> u32 \<Rightarrow> (u64 \<times> u64 \<times> u32) option" where
  "div128_32 dividend_hi dividend_lo divisor =
     (if divisor = 0 then None
      else
        let (q3, remainder) = div_with_reminder (hi_dword dividend_hi) divisor 0;
            (q2, remainder) = div_with_reminder (lo_dword dividend_hi) divisor remainder;
            (q1, remainder) = div_with_reminder (hi_dword dividend_lo) divisor remainder;
            (q0, remainder) = div_with_reminder (lo_dword dividend_lo) divisor remainder in
        Some (push_bit 32 q3 OR q2, push_bit 32 q1 OR q0, remainder))"

subsection \<open>Reward\<close>

definition MONEY_SUPPLY :: u64 where "MONEY_SUPPLY = 100000000000000000"
definition EMISSION_SPEED_FACTOR_PER_MINUTE :: nat where "EMISSION_SPEED_FACTOR_PER_MINUTE = 19"
definition FINAL_SUBSIDY_PER_MINUTE :: u64 where "FINAL_SUBSIDY_PER_MINUTE = 2000000000"
definition PREMINE_BLOCK_HEIGHT :: u64 where "PREMINE_BLOCK_HEIGHT = 1"
definition PREMINE_BLOCK_REWARD :: u64 where "PREMINE_BLOCK_REWARD = 40000000000000000"
definition HF_VERSION_TWO_MINUTE_BLOCK_TIME :: u8 where "HF_VERSION_TWO_MINUTE_BLOCK_TIME = 12"
definition HF_VERSION_PROOF_OF_STAKE :: u8 where "HF_VERSION_PROOF_OF_STAKE = 13"

definition get_min_block_weight :: "u8 \<Rightarrow> u64" where
  "get_min_block_weight version = (if version < 2 then 20000 else if version < 5 then 60000 else 300000)"

definition target_minutes :: "u8 \<Rightarrow> u64" where
  "target_minutes version =
     (if version < HF_VERSION_TWO_MINUTE_BLOCK_TIME then 60 div 60
      else if version < HF_VERSION_PROOF_OF_STAKE then 120 div 60 else 300 div 60)"

definition emission_speed_factor :: "u8 \<Rightarrow> nat" where
  "emission_speed_factor version =
     (if version < HF_VERSION_PROOF_OF_STAKE then EMISSION_SPEED_FACTOR_PER_MINUTE
      else EMISSION_SPEED_FACTOR_PER_MINUTE - 1)"

text \<open>The reward before the penalty on large blocks.\<close>

definition base_block_reward :: "u64 \<Rightarrow> u8 \<Rightarrow> u64 \<Rightarrow> u64" where
  "base_block_reward already_generated_coins version height =
     (let base_reward =
        (if height = PREMINE_BLOCK_HEIGHT \<and> already_generated_coins < PREMINE_BLOCK_REWARD
         then PREMINE_BLOCK_REWARD
         else drop_bit (emission_speed_factor version) (MONEY_SUPPLY - already_generated_coins)) in
      if base_reward < FINAL_SUBSIDY_PER_MINUTE * target_minutes version
      then FINAL_SUBSIDY_PER_MINUTE * target_minutes version else base_reward)"

datatype reward_outcome = Reward u64 | Block_too_big | Assertion_failed | Division_by_zero

definition get_block_reward :: "u64 \<Rightarrow> u64 \<Rightarrow> u64 \<Rightarrow> u8 \<Rightarrow> u64 \<Rightarrow> reward_outcome" where
  "get_block_reward median_weight current_block_weight already_generated_coins version height =
     (let base_reward = base_block_reward already_generated_coins version height;
          full_reward_zone = get_min_block_weight version;
          median_weight = (if median_weight < full_reward_zone then full_reward_zone else median_weight) in
      if current_block_weight \<le> median_weight then Reward base_reward
      else if current_block_weight > 2 * median_weight then Block_too_big
      else if \<not> median_weight < 0xFFFFFFFF \<or> \<not> current_block_weight < 0xFFFFFFFF then Assertion_failed
      else
        let multiplicand = (2 * median_weight - current_block_weight) * current_block_weight;
            (product_lo, product_hi) = mul128 base_reward multiplicand in
        case div128_32 product_hi product_lo (ucast median_weight) of
          None \<Rightarrow> Division_by_zero
        | Some (reward_hi, reward_lo, _) \<Rightarrow>
            (case div128_32 reward_hi reward_lo (ucast median_weight) of
               None \<Rightarrow> Division_by_zero
             | Some (reward_hi, reward_lo, _) \<Rightarrow>
                 if \<not> 0 = reward_hi \<or> \<not> reward_lo < base_reward then Assertion_failed else Reward reward_lo))"

text \<open>The coins generated after a block, from \<open>handle_block_to_main_chain\<close>.\<close>

definition add_generated_coins :: "u64 \<Rightarrow> u64 \<Rightarrow> u64" where
  "add_generated_coins already_generated_coins base_reward =
     (if base_reward < MONEY_SUPPLY - already_generated_coins
      then already_generated_coins + base_reward else MONEY_SUPPLY)"

subsection \<open>Fees\<close>

definition get_fee_quantization_mask :: u64 where
  "get_fee_quantization_mask = 10 ^ (6 - 8)"

definition HF_VERSION_PER_BYTE_FEE :: u8 where "HF_VERSION_PER_BYTE_FEE = 10"
definition HF_VERSION_DYNAMIC_FEE :: u8 where "HF_VERSION_DYNAMIC_FEE = 6"
definition DYNAMIC_FEE_REFERENCE_TRANSACTION_WEIGHT :: u64 where "DYNAMIC_FEE_REFERENCE_TRANSACTION_WEIGHT = 3000"
definition DYNAMIC_FEE_PER_KB_BASE_FEE :: u64 where "DYNAMIC_FEE_PER_KB_BASE_FEE = 2000"
definition DYNAMIC_FEE_PER_KB_BASE_FEE_V5 :: u64 where "DYNAMIC_FEE_PER_KB_BASE_FEE_V5 = 1"
definition DYNAMIC_FEE_PER_KB_BASE_BLOCK_REWARD :: u64 where "DYNAMIC_FEE_PER_KB_BASE_BLOCK_REWARD = 1000000"
definition FEE_PER_KB :: u64 where "FEE_PER_KB = 2000"

definition get_dynamic_base_fee :: "u64 \<Rightarrow> u64 \<Rightarrow> u8 \<Rightarrow> u64 option" where
  "get_dynamic_base_fee block_reward median_block_weight version =
     (let min_block_weight = get_min_block_weight version;
          median_block_weight = (if median_block_weight < min_block_weight then min_block_weight else median_block_weight) in
      if version \<ge> HF_VERSION_PER_BYTE_FEE then
        let (lo, hi) = mul128 block_reward DYNAMIC_FEE_REFERENCE_TRANSACTION_WEIGHT in do {
          (hi, lo, r) \<leftarrow> div128_32 hi lo (ucast min_block_weight);
          (hi, lo, r) \<leftarrow> div128_32 hi lo (ucast median_block_weight);
          Some (lo div 5) }
      else
        let fee_base = (if version \<ge> 5 then DYNAMIC_FEE_PER_KB_BASE_FEE_V5 else DYNAMIC_FEE_PER_KB_BASE_FEE);
            unscaled_fee_base = fee_base * min_block_weight div median_block_weight;
            (lo, hi) = mul128 unscaled_fee_base block_reward in do {
          (hi, lo, r) \<leftarrow> div128_32 hi lo (ucast (DYNAMIC_FEE_PER_KB_BASE_BLOCK_REWARD div 1000000));
          (hi, lo, r) \<leftarrow> div128_32 hi lo 1000000;
          Some ((lo + get_fee_quantization_mask - 1) div get_fee_quantization_mask * get_fee_quantization_mask) })"

text \<open>
  The fee a transaction has to pay at least, before the tolerance of two percent. The arguments
  stand for the state of the chain that is read: version, weight limit, generated coins, height.
\<close>

definition needed_fee :: "u8 \<Rightarrow> u64 \<Rightarrow> u64 \<Rightarrow> u64 \<Rightarrow> u64 \<Rightarrow> u64 option" where
  "needed_fee version weight_limit already_generated_coins height tx_weight =
     (let median = weight_limit div 2 in do {
        base_reward \<leftarrow>
          (if version \<ge> HF_VERSION_DYNAMIC_FEE
           then (case get_block_reward median 1 already_generated_coins version height of
             Reward r \<Rightarrow> Some r | _ \<Rightarrow> None)
           else Some 0);
        if version \<ge> HF_VERSION_PER_BYTE_FEE then do {
          fee_per_byte \<leftarrow> get_dynamic_base_fee base_reward median version;
          let needed_fee = tx_weight * fee_per_byte in
          Some ((needed_fee + get_fee_quantization_mask - 1) div get_fee_quantization_mask * get_fee_quantization_mask) }
        else do {
          fee_per_kb \<leftarrow> (if version < HF_VERSION_DYNAMIC_FEE then Some FEE_PER_KB
            else get_dynamic_base_fee base_reward median version);
          Some ((tx_weight div 1024 + (if tx_weight mod 1024 \<noteq> 0 then 1 else 0)) * fee_per_kb) } })"

definition check_fee :: "u8 \<Rightarrow> u64 \<Rightarrow> u64 \<Rightarrow> u64 \<Rightarrow> u64 \<Rightarrow> u64 \<Rightarrow> bool" where
  "check_fee version weight_limit already_generated_coins height tx_weight fee =
     (case needed_fee version weight_limit already_generated_coins height tx_weight of
        None \<Rightarrow> False
      | Some needed \<Rightarrow> \<not> fee < needed - needed div 50)"

subsection \<open>The division is exact\<close>

lemma unat_lt_u32: "unat (r :: u32) < 2 ^ 32"
proof -
  have "unat r < 2 ^ LENGTH(32)" by (rule unsigned_less)
  then show ?thesis by simp
qed

lemma unat_ucast_up: "unat (ucast (r :: u32) :: u64) = unat r"
  using unat_lt_u32 [of r] by (simp add: unsigned_ucast_eq take_bit_eq_mod)

lemma unat_ucast_down: "unat (x :: u64) < 2 ^ 32 \<Longrightarrow> unat (ucast x :: u32) = unat x"
  by (simp add: unsigned_ucast_eq take_bit_eq_mod)

lemma div_step:
  assumes "div_with_reminder x d r = (q, r')" "unat x < 2 ^ 32" "unat r < unat d"
  shows "unat r * 2 ^ 32 + unat x = unat q * unat d + unat r'" "unat r' < unat d" "unat q < 2 ^ 32"
proof -
  define y where "y = x OR push_bit 32 (ucast r)"
  have "unat (x AND 0xFFFFFFFF) = unat x" using assms(2) by (simp add: unat_lo)
  then have "x AND 0xFFFFFFFF = x" by (simp only: word_unat_eq_iff)
  then have y: "unat y = unat r * 2 ^ 32 + unat x"
    using or_disjoint [of "ucast r" x] assms(2) unat_lt_u32 [of r] by (simp add: y_def or.commute unat_ucast_up)
  have q: "unat q = unat y div unat d" "r' = ucast (y mod ucast d)"
    using assms(1) by (auto simp: div_with_reminder_def Let_def y_def unat_div unat_ucast_up)
  have "unat (y mod ucast d) = unat y mod unat d" by (simp add: unat_mod unat_ucast_up)
  moreover have "unat y mod unat d < unat d" using assms(3) by simp
  then have "unat y mod unat d < 2 ^ 32" using unat_lt_u32 [of d] by (rule order_less_trans)
  ultimately have r': "unat r' = unat y mod unat d" unfolding q(2) by (simp add: unat_ucast_down)
  show "unat r * 2 ^ 32 + unat x = unat q * unat d + unat r'" unfolding y [symmetric] q(1) r' by simp
  show "unat r' < unat d" using assms(3) by (simp add: r')
  have "unat y < unat d * 2 ^ 32"
  proof -
    have "unat y < (unat r + 1) * 2 ^ 32" using assms(2) by (simp add: y)
    also have "\<dots> \<le> unat d * 2 ^ 32" using assms(3) by (intro mult_le_mono1) simp
    finally show ?thesis .
  qed
  then show "unat q < 2 ^ 32" unfolding q(1) by (simp add: less_mult_imp_div_less mult.commute)
qed

lemma join_dwords: "unat q < 2 ^ 32 \<Longrightarrow> unat p < 2 ^ 32 \<Longrightarrow> unat (push_bit 32 p OR q :: u64) = unat p * 2 ^ 32 + unat q"
proof -
  assume "unat q < 2 ^ 32" "unat p < 2 ^ 32"
  then have "unat (q AND 0xFFFFFFFF) = unat q" by (simp add: unat_lo)
  then have "q AND 0xFFFFFFFF = q" by (simp only: word_unat_eq_iff)
  with or_disjoint [of p q] \<open>unat q < 2 ^ 32\<close> \<open>unat p < 2 ^ 32\<close> show ?thesis by simp
qed

lemma dwords: "unat (x :: u64) = unat (hi_dword x) * 2 ^ 32 + unat (lo_dword x)" "unat (hi_dword x) < 2 ^ 32" "unat (lo_dword x) < 2 ^ 32"
  using unat_lt_u64 [of x] by (simp_all add: hi_dword_def lo_dword_def unat_hi unat_lo less_mult_imp_div_less)

lemma long_division:
  fixes B :: nat
  assumes "a3 = q3 * d + r3" "r3 * B + a2 = q2 * d + r2" "r2 * B + a1 = q1 * d + r1" "r1 * B + a0 = q0 * d + r0"
  shows "((a3 * B + a2) * B + a1) * B + a0 = ((q3 * B + q2) * B + q1) * B * d + q0 * d + r0"
proof -
  have "(a3 * B + a2) = q3 * B * d + (r3 * B + a2)" using assms(1) by (simp add: algebra_simps)
  also note assms(2)
  finally have 2: "a3 * B + a2 = (q3 * B + q2) * d + r2" by (simp add: algebra_simps)
  have "(a3 * B + a2) * B + a1 = (q3 * B + q2) * B * d + (r2 * B + a1)" unfolding 2 by (simp add: algebra_simps)
  also note assms(3)
  finally have 1: "(a3 * B + a2) * B + a1 = ((q3 * B + q2) * B + q1) * d + r1" by (simp add: algebra_simps)
  have "((a3 * B + a2) * B + a1) * B + a0 = ((q3 * B + q2) * B + q1) * B * d + (r1 * B + a0)"
    unfolding 1 by (simp add: algebra_simps)
  also note assms(4)
  finally show ?thesis by simp
qed

lemma div128_32_correct:
  assumes "d \<noteq> 0"
  obtains hi' lo' r where "div128_32 hi lo d = Some (hi', lo', r)"
    "unat hi' * 2 ^ 64 + unat lo' = (unat hi * 2 ^ 64 + unat lo) div unat d"
proof -
  obtain q3 r3 where 3: "div_with_reminder (hi_dword hi) d 0 = (q3, r3)" by fastforce
  obtain q2 r2 where 2: "div_with_reminder (lo_dword hi) d r3 = (q2, r2)" by fastforce
  obtain q1 r1 where 1: "div_with_reminder (hi_dword lo) d r2 = (q1, r1)" by fastforce
  obtain q0 r0 where 0: "div_with_reminder (lo_dword lo) d r1 = (q0, r0)" by fastforce
  have d: "unat (0 :: u32) < unat d" using assms by (simp add: unat_gt_0)
  note s3 = div_step [OF 3 dwords(2) d]
  note s2 = div_step [OF 2 dwords(3) s3(2)]
  note s1 = div_step [OF 1 dwords(2) s2(2)]
  note s0 = div_step [OF 0 dwords(3) s1(2)]
  define B :: nat where "B = 2 ^ 32"
  have BB: "2 ^ 64 = B * B" by (simp add: B_def)
  have a3: "unat (hi_dword hi) = unat q3 * unat d + unat r3" using s3(1) by simp
  define Q where "Q = ((unat q3 * B + unat q2) * B + unat q1) * B + unat q0"
  have "unat hi * 2 ^ 64 + unat lo = ((unat (hi_dword hi) * B + unat (lo_dword hi)) * B + unat (hi_dword lo)) * B + unat (lo_dword lo)"
    unfolding dwords(1) [of hi] dwords(1) [of lo] BB B_def [symmetric] by (simp add: algebra_simps)
  also have "\<dots> = Q * unat d + unat r0"
    unfolding Q_def long_division [OF a3 s2(1) s1(1) s0(1), folded B_def] by (simp add: algebra_simps)
  finally have "(unat hi * 2 ^ 64 + unat lo) div unat d = Q" using s0(2) by simp
  moreover have "unat (push_bit 32 q3 OR q2) * 2 ^ 64 + unat (push_bit 32 q1 OR q0) = Q"
    unfolding join_dwords [OF s2(3) s3(3)] join_dwords [OF s0(3) s1(3)] BB Q_def B_def [symmetric]
    by (simp add: algebra_simps)
  moreover have "div128_32 hi lo d = Some (push_bit 32 q3 OR q2, push_bit 32 q1 OR q0, r0)"
    using assms by (simp add: div128_32_def Let_def 3 2 1 0)
  ultimately show thesis using that by simp
qed

subsection \<open>The penalty formula\<close>

definition reward_zone :: "u64 \<Rightarrow> u8 \<Rightarrow> u64" where
  "reward_zone median_weight version = max median_weight (get_min_block_weight version)"

lemma reward_zone_pos: "0 < unat (reward_zone m v)"
proof -
  have "0 < get_min_block_weight v" by (simp add: get_min_block_weight_def)
  then have "0 < reward_zone m v" by (auto simp: reward_zone_def less_max_iff_disj)
  then show ?thesis by (simp add: word_less_nat_alt)
qed

lemma quadratic_penalty:
  assumes "M < c" "c \<le> 2 * (M :: nat)"
  shows "(2 * M - c) * c < M * M"
proof -
  obtain k where k: "c = M + k" "0 < k" "k \<le> M" using assms by (metis add_diff_inverse_nat le_add_diff_inverse less_imp_le_nat mult_2 nat_add_left_cancel_le not_less zero_less_diff)
  then have "(2 * M - c) * c = (M - k) * (M + k)" by simp
  also have "\<dots> + k * k = M * M" using k(3) by (auto simp: le_iff_add algebra_simps)
  finally show ?thesis using k(2) by (metis add_0 less_add_same_cancel1 mult_pos_pos)
qed

lemma base_reward_pos: "0 < base_block_reward coins v h"
proof -
  have "0 < FINAL_SUBSIDY_PER_MINUTE * target_minutes v"
    by (simp add: FINAL_SUBSIDY_PER_MINUTE_def target_minutes_def)
  then show ?thesis by (auto simp: base_block_reward_def Let_def not_less intro: order_less_le_trans)
qed

text \<open>The two divisions of the penalty, for a median below 32 bits.\<close>

lemma penalty_divisions:
  assumes "unat m < 2 ^ 32" "unat m < unat w" "unat w \<le> 2 * unat m" "mul128 b ((2 * m - w) * w) = (lo, hi)"
  obtains hi1 lo1 r1 hi2 lo2 r2 where "div128_32 hi lo (ucast m) = Some (hi1, lo1, r1)"
    "div128_32 hi1 lo1 (ucast m) = Some (hi2, lo2, r2)"
    "unat hi2 * 2 ^ 64 + unat lo2 = unat b * ((2 * unat m - unat w) * unat w) div (unat m * unat m)"
proof -
  have um: "unat (ucast m :: u32) = unat m" using assms(1) by (rule unat_ucast_down)
  have "unat (2 * m) = 2 * unat m" using assms(1) by (simp add: unat_word_ariths(2))
  moreover from this have "w \<le> 2 * m" using assms(3) by (simp add: word_le_nat_alt)
  ultimately have "unat (2 * m - w) = 2 * unat m - unat w" by (simp add: unat_sub)
  moreover have "(2 * unat m - unat w) * unat w < 2 ^ 64"
  proof -
    have "(2 * unat m - unat w) * unat w < unat m * unat m" by (rule quadratic_penalty [OF assms(2,3)])
    also have "\<dots> \<le> 2 ^ 32 * 2 ^ 32" using assms(1) by (intro mult_le_mono) simp_all
    finally show ?thesis by simp
  qed
  ultimately have p: "unat ((2 * m - w) * w) = (2 * unat m - unat w) * unat w" by (simp add: unat_mult_small)
  have "0 < unat m" using assms(2,3) by simp
  then have "(ucast m :: u32) \<noteq> 0" using um by (auto simp: word_unat_eq_iff)
  note div = div128_32_correct [OF this]
  obtain hi1 lo1 r1 where 1: "div128_32 hi lo (ucast m) = Some (hi1, lo1, r1)"
    "unat hi1 * 2 ^ 64 + unat lo1 = (unat hi * 2 ^ 64 + unat lo) div unat m" using div [of hi lo] unfolding um by blast
  obtain hi2 lo2 r2 where 2: "div128_32 hi1 lo1 (ucast m) = Some (hi2, lo2, r2)"
    "unat hi2 * 2 ^ 64 + unat lo2 = (unat hi1 * 2 ^ 64 + unat lo1) div unat m" using div [of hi1 lo1] unfolding um by blast
  have "unat hi2 * 2 ^ 64 + unat lo2 = unat b * ((2 * unat m - unat w) * unat w) div (unat m * unat m)"
    unfolding 2(2) 1(2) mul128_correct [OF assms(4)] p by (simp add: div_mult2_eq)
  with 1(1) 2(1) show thesis by (rule that)
qed

lemma penalty_reduces:
  assumes "M < c" "c \<le> 2 * (M :: nat)" "0 < b"
  shows "b * ((2 * M - c) * c) div (M * M) < b"
  using quadratic_penalty [OF assms(1,2)] assms(3) by (simp add: div_less_iff_less_mult less_mult_imp_div_less)

lemma small_quotient:
  assumes "unat hi * 2 ^ 64 + unat (lo :: u64) = n" "n < 2 ^ 64"
  shows "unat (hi :: u64) = 0" "lo = of_nat n"
proof -
  show "unat hi = 0" using assms by simp
  with assms show "lo = of_nat n" by (metis add_0 mult_zero_left unat_of_nat_u64 word_unat_eq_iff)
qed

lemma block_reward_correct:
  assumes "unat (reward_zone median_weight version) < 2 ^ 63"
  shows "get_block_reward median_weight w coins version height =
     (let M = unat (reward_zone median_weight version); b = unat (base_block_reward coins version height) in
      if unat w \<le> M then Reward (of_nat b)
      else if unat w > 2 * M then Block_too_big
      else if M \<ge> 2 ^ 32 - 1 \<or> unat w \<ge> 2 ^ 32 - 1 then Assertion_failed
      else Reward (of_nat (b * ((2 * M - unat w) * unat w) div (M * M))))
    \<and> (\<forall>r. get_block_reward median_weight w coins version height = Reward r \<longrightarrow>
         r \<le> base_block_reward coins version height
         \<and> (w > reward_zone median_weight version \<longrightarrow> r < base_block_reward coins version height))"
proof -
  define m where "m = reward_zone median_weight version"
  define b where "b = base_block_reward coins version height"
  have mm: "(if median_weight < get_min_block_weight version then get_min_block_weight version else median_weight) = m"
    by (auto simp: m_def reward_zone_def max_def)
  have 2: "unat (2 * m) = 2 * unat m" using assms by (simp add: m_def unat_word_ariths(2))
  have cmp: "w \<le> m \<longleftrightarrow> unat w \<le> unat m" "2 * m < w \<longleftrightarrow> 2 * unat m < unat w"
    "m < 0xFFFFFFFF \<longleftrightarrow> unat m < 2 ^ 32 - 1" "w < 0xFFFFFFFF \<longleftrightarrow> unat w < 2 ^ 32 - 1"
    by (simp_all add: word_le_nat_alt word_less_nat_alt 2)
  note unfold = get_block_reward_def Let_def mm b_def [symmetric] cmp
  consider "unat w \<le> unat m" | "unat m < unat w" "2 * unat m < unat w"
    | "unat m < unat w" "unat w \<le> 2 * unat m" "\<not> (unat m < 2 ^ 32 - 1 \<and> unat w < 2 ^ 32 - 1)"
    | "unat m < unat w" "unat w \<le> 2 * unat m" "unat m < 2 ^ 32 - 1" "unat w < 2 ^ 32 - 1" by linarith
  then show ?thesis
  proof cases
    case 1
    then have "get_block_reward median_weight w coins version height = Reward b"
      unfolding unfold by simp
    with 1 show ?thesis by (simp add: m_def [symmetric] b_def [symmetric] Let_def word_less_nat_alt)
  next
    case 2
    then have "get_block_reward median_weight w coins version height = Block_too_big"
      unfolding unfold by simp
    with 2 show ?thesis by (simp add: m_def [symmetric] b_def [symmetric] Let_def)
  next
    case 3
    then have "get_block_reward median_weight w coins version height = Assertion_failed"
      unfolding unfold by auto
    with 3 show ?thesis by (auto simp: m_def [symmetric] b_def [symmetric] Let_def)
  next
    case 4
    define n where "n = unat b * ((2 * unat m - unat w) * unat w) div (unat m * unat m)"
    obtain lo hi where p: "mul128 b ((2 * m - w) * w) = (lo, hi)" by fastforce
    have m32: "unat m < 2 ^ 32" using 4(3) by simp
    obtain hi1 lo1 r1 hi2 lo2 r2 where d: "div128_32 hi lo (ucast m) = Some (hi1, lo1, r1)"
      "div128_32 hi1 lo1 (ucast m) = Some (hi2, lo2, r2)" "unat hi2 * 2 ^ 64 + unat lo2 = n"
      using penalty_divisions [OF m32 4(1,2) p, folded n_def] by blast
    have less: "n < unat b" unfolding n_def using 4 base_reward_pos
      by (intro penalty_reduces) (auto simp: b_def word_less_nat_alt)
    note small = small_quotient [OF d(3) order_less_trans [OF less unat_lt_u64]]
    have n: "unat lo2 = n" using small(1) d(3) by simp
    have asserts: "hi2 = 0" "lo2 < b" using small(1) less n by (simp_all add: word_less_nat_alt word_unat_eq_iff)
    have "get_block_reward median_weight w coins version height = Reward lo2"
      unfolding unfold using 4 p d(1,2) asserts by simp
    with asserts(2) 4 small(2) show ?thesis
      by (simp add: m_def [symmetric] b_def [symmetric] Let_def n_def)
  qed
qed

text \<open>
  C6: The block reward is the penalty formula, computed without overflow or intermediate rounding. With \<open>M\<close> the
  larger of median and full reward zone, below \<open>2\<^sup>6\<^sup>3\<close>, a block of weight at most \<open>M\<close> gets the
  base reward \<open>b\<close> and one above \<open>2 M\<close> is rejected. For a weight \<open>w\<close> in between, the assertions on the
  arguments fail exactly when \<open>M\<close> or \<open>w\<close> is at least \<open>2\<^sup>3\<^sup>2 - 1\<close>; otherwise the reward is
  \<open>b (2 M - w) w / M\<^sup>2\<close> rounded down once, which is less than \<open>b\<close>, the assertions on the
  result hold, and no division by zero occurs.
\<close>
theorem block_reward_formula:
  assumes "unat (reward_zone median_weight version) < 2 ^ 63"
  shows "get_block_reward median_weight w coins version height =
     (let M = unat (reward_zone median_weight version); b = unat (base_block_reward coins version height) in
      if unat w \<le> M then Reward (of_nat b)
      else if unat w > 2 * M then Block_too_big
      else if M \<ge> 2 ^ 32 - 1 \<or> unat w \<ge> 2 ^ 32 - 1 then Assertion_failed
      else Reward (of_nat (b * ((2 * M - unat w) * unat w) div (M * M))))
    \<and> (\<forall>r. get_block_reward median_weight w coins version height = Reward r \<longrightarrow>
         r \<le> base_block_reward coins version height
         \<and> (w > reward_zone median_weight version \<longrightarrow> r < base_block_reward coins version height))"
  using block_reward_correct [OF assms] .

theorem block_reward_formula_witness:
  "unat (reward_zone 1000 13) < 2 ^ 63
   \<and> get_block_reward 1000 300000 MONEY_SUPPLY 13 5 = Reward 10000000000
   \<and> get_block_reward 1000 450000 MONEY_SUPPLY 13 5 = Reward 7500000000
   \<and> get_block_reward 1000 600001 MONEY_SUPPLY 13 5 = Block_too_big
   \<and> get_block_reward 0xFFFFFFFF 0x100000001 MONEY_SUPPLY 13 5 = Assertion_failed"
proof -
  have z: "unat (reward_zone 1000 13) = 300000" "unat (base_block_reward MONEY_SUPPLY 13 5) = 10000000000"
    "unat (reward_zone 0xFFFFFFFF 13) = 2 ^ 32 - 1"
    by (simp_all add: reward_zone_def get_min_block_weight_def max_def base_block_reward_def MONEY_SUPPLY_def
        PREMINE_BLOCK_HEIGHT_def FINAL_SUBSIDY_PER_MINUTE_def target_minutes_def HF_VERSION_PROOF_OF_STAKE_def
        HF_VERSION_TWO_MINUTE_BLOCK_TIME_def)
  show ?thesis
    using block_reward_formula [of 1000 13 300000 MONEY_SUPPLY 5] block_reward_formula [of 1000 13 450000 MONEY_SUPPLY 5]
      block_reward_formula [of 1000 13 600001 MONEY_SUPPLY 5] block_reward_formula [of "0xFFFFFFFF" 13 "0x100000001" MONEY_SUPPLY 5]
    by (simp add: z Let_def)
qed

subsection \<open>Generated coins\<close>

lemma unat_MONEY_SUPPLY: "unat MONEY_SUPPLY = 100000000000000000"
  by (simp add: MONEY_SUPPLY_def)

lemma add_generated_coins_correct:
  assumes "coins \<le> MONEY_SUPPLY"
  shows "unat (add_generated_coins coins r) = min (unat MONEY_SUPPLY) (unat coins + unat r)"
proof -
  have le: "unat coins \<le> unat MONEY_SUPPLY" using assms by (simp add: word_le_nat_alt)
  have sub: "unat (MONEY_SUPPLY - coins) = unat MONEY_SUPPLY - unat coins" using assms by (rule unat_sub_le)
  show ?thesis
  proof (cases "unat coins + unat r < unat MONEY_SUPPLY")
    case True
    then have "unat (coins + r) = unat coins + unat r" using unat_lt_u64 [of MONEY_SUPPLY] by (intro unat_add_fits) linarith
    with True sub show ?thesis by (simp add: add_generated_coins_def word_less_nat_alt less_diff_conv add.commute)
  next
    case False
    then have "\<not> unat r < unat MONEY_SUPPLY - unat coins" by linarith
    with False sub show ?thesis by (simp add: add_generated_coins_def word_less_nat_alt)
  qed
qed

lemma add_generated_coins_le: "coins \<le> MONEY_SUPPLY \<Longrightarrow> add_generated_coins coins r \<le> MONEY_SUPPLY"
  using add_generated_coins_correct [of coins r] by (simp add: word_le_nat_alt)

lemma generated_coins_sum:
  "coins \<le> MONEY_SUPPLY \<Longrightarrow>
    unat (foldl add_generated_coins coins rs) = min (unat MONEY_SUPPLY) (unat coins + sum_list (map unat rs))"
proof (induction rs arbitrary: coins)
  case (Cons r rs)
  then show ?case using add_generated_coins_le [of coins r] add_generated_coins_correct [of coins r] by simp
qed (simp add: word_le_nat_alt min_def)

subsection \<open>Fees\<close>

text \<open>From version 10 on the fee per byte is the share of the reward a reference transaction would lose, over 5.\<close>

lemma dynamic_fee_per_byte:
  assumes "version \<ge> HF_VERSION_PER_BYTE_FEE" "unat (reward_zone median version) < 2 ^ 32"
  shows "get_dynamic_base_fee reward median version =
    Some (of_nat (unat reward * 3000 div 300000 div unat (reward_zone median version) div 5))"
proof -
  define m where "m = reward_zone median version"
  have v: "get_min_block_weight version = 300000"
    using assms(1) by (auto simp: get_min_block_weight_def HF_VERSION_PER_BYTE_FEE_def word_less_nat_alt word_le_nat_alt)
  have mm: "(if median < 300000 then 300000 else median) = m" by (auto simp: m_def reward_zone_def v max_def)
  have um: "unat (ucast m :: u32) = unat m" using assms(2) unfolding m_def by (rule unat_ucast_down)
  have "0 < unat m" unfolding m_def by (rule reward_zone_pos)
  then have m0: "(ucast m :: u32) \<noteq> 0" using um by (auto simp: word_unat_eq_iff)
  obtain lo hi where p: "mul128 reward 3000 = (lo, hi)" by fastforce
  obtain hi1 lo1 r1 where 1: "div128_32 hi lo 300000 = Some (hi1, lo1, r1)"
    "unat hi1 * 2 ^ 64 + unat lo1 = (unat hi * 2 ^ 64 + unat lo) div unat (300000 :: u32)"
    using div128_32_correct [of 300000 hi lo] by auto
  obtain hi2 lo2 r2 where 2: "div128_32 hi1 lo1 (ucast m) = Some (hi2, lo2, r2)"
    "unat hi2 * 2 ^ 64 + unat lo2 = (unat hi1 * 2 ^ 64 + unat lo1) div unat (ucast m :: u32)"
    using div128_32_correct [OF m0, of hi1 lo1] by blast
  define n where "n = unat reward * 3000 div 300000 div unat m"
  have n: "unat hi2 * 2 ^ 64 + unat lo2 = n"
    unfolding 2(2) 1(2) mul128_correct [OF p] um n_def by simp
  have "n \<le> unat reward * 3000 div 300000" by (simp add: n_def)
  also have "\<dots> \<le> unat reward" by simp
  finally have "n < 2 ^ 64" using unat_lt_u64 [of reward] by simp
  note small = small_quotient [OF n this]
  have "unat (lo2 div 5) = n div 5" using small(2) \<open>n < 2 ^ 64\<close> by (simp add: unat_div)
  then have "lo2 div 5 = of_nat (n div 5)" by (metis unat_of_nat_u64 unat_lt_u64 word_unat_eq_iff)
  then show ?thesis
    using assms(1) p 1(1) 2(1)
    by (simp add: get_dynamic_base_fee_def Let_def v mm DYNAMIC_FEE_REFERENCE_TRANSACTION_WEIGHT_def n_def m_def [symmetric])
qed

end
