(* ===== verification/Miner_Tx.thy ===== *)
theory Miner_Tx
  imports Money Block_Reward Tx_Extra
begin

text \<open>
  The miner transaction: \<open>construct_miner_tx\<close> of
  \<^verbatim>\<open>src/src/cryptonote_core/cryptonote_tx_utils.cpp\<close> and the checks of
  \<^verbatim>\<open>src/src/cryptonote_core/blockchain.cpp\<close>, \<open>prevalidate_miner_transaction\<close> and
  \<open>validate_miner_transaction\<close>, with \<open>median\<close> of \<^verbatim>\<open>src/contrib/epee/include/misc_language.h\<close>.

  The random transaction key and the two curve operations that derive the keys of the outputs
  are arguments. What the checks read of the chain (weights of the last blocks, current version,
  height) is passed as well. \<open>None\<close> is the result \<open>false\<close>.

  Shown here: what is constructed is accepted, with the full reward from version 4 on; what is
  accepted pays between the fees and fees plus reward.
\<close>

subsection \<open>Median\<close>

definition median :: "u64 list \<Rightarrow> u64" where
  "median v =
     (if v = [] then 0
      else if length v = 1 then v ! 0
      else
        let n = length v div 2; v = sort v in
        if length v mod 2 \<noteq> 0 then v ! n
        else (v ! (n - 1) + v ! n) div 2)"

subsection \<open>Construction\<close>

definition CRYPTONOTE_MINED_MONEY_UNLOCK_WINDOW :: u64 where "CRYPTONOTE_MINED_MONEY_UNLOCK_WINDOW = 60"
definition BASE_REWARD_CLAMP_THRESHOLD :: u64 where "BASE_REWARD_CLAMP_THRESHOLD = 100"
definition DEFAULT_DUST_THRESHOLD :: u64 where "DEFAULT_DUST_THRESHOLD = 2000"

text \<open>The first two amounts are added up while there are too many.\<close>

fun merge_amounts :: "nat \<Rightarrow> u64 list \<Rightarrow> u64 list" where
  "merge_amounts max_outs (a # b # out_amounts) =
     (if max_outs < length (a # b # out_amounts) then merge_amounts max_outs ((b + a) # out_amounts)
      else a # b # out_amounts)"
| "merge_amounts max_outs out_amounts = out_amounts"

definition miner_amounts :: "u64 \<Rightarrow> u64 \<Rightarrow> u64 \<Rightarrow> u8 \<Rightarrow> u64 list option" where
  "miner_amounts height block_reward max_outs hard_fork_version =
     (let out_amounts = map piece_amount (decompose_amount_into_digits block_reward
            (if hard_fork_version \<ge> 2 then 0 else DEFAULT_DUST_THRESHOLD)) in
      if \<not> 1 \<le> max_outs then None
      else if height = 0 \<or> hard_fork_version \<ge> 4 then Some (merge_amounts (unat max_outs) out_amounts)
      else if \<not> unat max_outs \<ge> length out_amounts then None
      else Some out_amounts)"

record keypair =
  kp_pub :: bytes
  kp_sec :: bytes

fun miner_outs ::
    "(bytes \<Rightarrow> bytes \<Rightarrow> bytes option) \<Rightarrow> (bytes \<Rightarrow> u64 \<Rightarrow> bytes \<Rightarrow> bytes option) \<Rightarrow>
     keypair \<Rightarrow> account_public_address \<Rightarrow> u64 \<Rightarrow> u64 list \<Rightarrow> tx_out list option" where
  "miner_outs generate_key_derivation derive_public_key txkey miner_address no [] = Some []"
| "miner_outs generate_key_derivation derive_public_key txkey miner_address no (a # out_amounts) = do {
     derivation \<leftarrow> generate_key_derivation (m_view_public_key miner_address) (kp_sec txkey);
     out_eph_public_key \<leftarrow> derive_public_key derivation no (m_spend_public_key miner_address);
     outs \<leftarrow> miner_outs generate_key_derivation derive_public_key txkey miner_address (no + 1) out_amounts;
     Some (\<lparr>amount = a, target = txout_to_key out_eph_public_key\<rparr> # outs) }"

text \<open>The amount that is paid out, of reward and fees.\<close>

definition clamped_reward :: "u64 \<Rightarrow> u64 \<Rightarrow> u8 \<Rightarrow> u64" where
  "clamped_reward reward fee hard_fork_version =
     (let block_reward = reward + fee in
      if hard_fork_version \<ge> 2 \<and> hard_fork_version < 4
      then block_reward - block_reward mod BASE_REWARD_CLAMP_THRESHOLD else block_reward)"

definition construct_miner_tx ::
    "(bytes \<Rightarrow> bytes \<Rightarrow> bytes option) \<Rightarrow> (bytes \<Rightarrow> u64 \<Rightarrow> bytes \<Rightarrow> bytes option) \<Rightarrow> keypair \<Rightarrow>
     u64 \<Rightarrow> u64 \<Rightarrow> u64 \<Rightarrow> u64 \<Rightarrow> u64 \<Rightarrow> account_public_address \<Rightarrow> transaction \<Rightarrow> bytes \<Rightarrow> u64 \<Rightarrow> u8 \<Rightarrow> transaction option" where
  "construct_miner_tx generate_key_derivation derive_public_key txkey height median_weight
       already_generated_coins current_block_weight fee miner_address tx extra_nonce max_outs hard_fork_version =
     (let tx_extra = add_tx_pub_key_to_extra [] (kp_pub txkey) in do {
        tx_extra \<leftarrow> (if extra_nonce \<noteq> []
          then (case add_extra_nonce_to_tx_extra tx_extra extra_nonce of (r, tx_extra) \<Rightarrow> if r then Some tx_extra else None)
          else Some tx_extra);
        reward \<leftarrow> (case get_block_reward median_weight current_block_weight already_generated_coins hard_fork_version height of
          Reward r \<Rightarrow> Some r | _ \<Rightarrow> None);
        let block_reward = clamped_reward reward fee hard_fork_version;
        out_amounts \<leftarrow> miner_amounts height block_reward max_outs hard_fork_version;
        outs \<leftarrow> miner_outs generate_key_derivation derive_public_key txkey miner_address 0 out_amounts;
        if foldl (+) 0 out_amounts \<noteq> block_reward then None
        else Some (tx_invalidate_hashes (tx\<lparr>version := (if hard_fork_version \<ge> 4 then 2 else 1),
          unlock_time := height + CRYPTONOTE_MINED_MONEY_UNLOCK_WINDOW,
          vin := [txin_gen height], vout := outs, extra := tx_extra\<rparr>)) })"

subsection \<open>Validation\<close>

definition prevalidate_miner_transaction :: "block \<Rightarrow> u64 \<Rightarrow> bool" where
  "prevalidate_miner_transaction b height =
     (case vin (miner_tx b) of
        [txin_gen h] \<Rightarrow>
          if h \<noteq> height then False
          else if unlock_time (miner_tx b) \<noteq> height + CRYPTONOTE_MINED_MONEY_UNLOCK_WINDOW then False
          else check_outs_overflow (miner_tx b)
      | _ \<Rightarrow> False)"

text \<open>The coins that were generated, and whether they are less than allowed.\<close>

definition validate_miner_transaction ::
    "u64 list \<Rightarrow> u8 \<Rightarrow> u64 \<Rightarrow> block \<Rightarrow> u64 \<Rightarrow> u64 \<Rightarrow> u64 \<Rightarrow> u8 \<Rightarrow> (u64 \<times> bool) option" where
  "validate_miner_transaction last_blocks_weights current_version height b cumulative_block_weight fee
       already_generated_coins ver =
     (let money_in_use = get_outs_money_amount (miner_tx b) in
      if ver = 3 \<and> \<not> list_all (\<lambda>o'. is_valid_decomposed_amount (amount o')) (vout (miner_tx b)) then None
      else
        (case get_block_reward (median last_blocks_weights) cumulative_block_weight already_generated_coins ver height of
           Reward base_reward \<Rightarrow>
             if base_reward + fee < money_in_use then None
             else if current_version < 2 then
               (if base_reward + fee \<noteq> money_in_use then None else Some (base_reward, False))
             else if \<not> money_in_use - fee \<le> base_reward then None
             else Some (money_in_use - fee, base_reward + fee \<noteq> money_in_use)
         | _ \<Rightarrow> None))"

subsection \<open>What is constructed\<close>

lemma merge_amounts_sum: "nat_sum as < 2 ^ 64 \<Longrightarrow> nat_sum (merge_amounts n as) = nat_sum as"
proof (induction n as rule: merge_amounts.induct)
  case (1 n a b as)
  then have "unat (b + a) = unat b + unat a" by (intro unat_add_fits) simp
  with 1 show ?case by simp
qed auto

lemma length_merge_amounts: "1 \<le> n \<Longrightarrow> length (merge_amounts n as) \<le> max n 1"
  by (induction n as rule: merge_amounts.induct) auto

lemma decomposed_sum: "nat_sum (map piece_amount (decompose_amount_into_digits a t)) = unat a"
  and decomposed_ok: "list_all (piece_ok t) (decompose_amount_into_digits a t)"
  using decompose_loop_correct [of 1 0 0 a t False] unat_lt_u64 [of a]
  by (auto simp: decompose_amount_into_digits_def pieces_sum_def)

lemma miner_amounts_sum:
  assumes "miner_amounts h r max_outs v = Some as"
  shows "nat_sum as = unat r"
proof -
  define ds where "ds = map piece_amount (decompose_amount_into_digits r (if v \<ge> 2 then 0 else DEFAULT_DUST_THRESHOLD))"
  have ds: "nat_sum ds = unat r" unfolding ds_def by (rule decomposed_sum)
  have "as = ds \<or> as = merge_amounts (unat max_outs) ds"
    using assms by (auto simp: miner_amounts_def Let_def ds_def [symmetric] split: if_splits)
  then show ?thesis using ds merge_amounts_sum [of ds] unat_lt_u64 [of r] by auto
qed

lemma miner_amounts_valid:
  assumes "miner_amounts h r max_outs 3 = Some as" "h \<noteq> 0"
  shows "list_all is_valid_decomposed_amount as"
proof -
  have as: "as = map piece_amount (decompose_amount_into_digits r 0)"
    using assms by (auto simp: miner_amounts_def Let_def split: if_splits)
  have "is_valid_decomposed_amount (piece_amount p)" if "piece_ok 0 p" for p
    using that by (cases p) auto
  then show ?thesis using decomposed_ok [of 0 r] by (auto simp: as list_all_iff)
qed

lemma miner_outs_amounts: "miner_outs gen der k adr no as = Some outs \<Longrightarrow> map amount outs = as"
  by (induction as arbitrary: no outs) (auto split: bind_splits)

lemma construct_miner_txD:
  assumes "construct_miner_tx gen der txkey height median_weight coins w fee adr tx0 xn max_outs v = Some tx"
  obtains reward as where "get_block_reward median_weight w coins v height = Reward reward"
    "miner_amounts height (clamped_reward reward fee v) max_outs v = Some as" "map amount (vout tx) = as"
    "vin tx = [txin_gen height]" "unlock_time tx = height + CRYPTONOTE_MINED_MONEY_UNLOCK_WINDOW"
    "nat_sum as = unat (clamped_reward reward fee v)"
proof -
  from assms obtain reward as where r: "get_block_reward median_weight w coins v height = Reward reward"
    "miner_amounts height (clamped_reward reward fee v) max_outs v = Some as" "map amount (vout tx) = as"
    "vin tx = [txin_gen height]" "unlock_time tx = height + CRYPTONOTE_MINED_MONEY_UNLOCK_WINDOW"
    by (auto simp: construct_miner_tx_def Let_def tx_invalidate_hashes_def split: bind_splits if_splits reward_outcome.splits
        prod.splits dest!: miner_outs_amounts)
  from that [OF r miner_amounts_sum [OF r(2)]] show thesis .
qed

lemma get_block_reward_zone:
  "reward_zone m v = reward_zone m' v \<Longrightarrow> get_block_reward m w coins v h = get_block_reward m' w coins v h"
proof -
  have "(if m < get_min_block_weight v then get_min_block_weight v else m) = reward_zone m v" for m
    by (auto simp: reward_zone_def max_def)
  then show "reward_zone m v = reward_zone m' v \<Longrightarrow> ?thesis" by (simp add: get_block_reward_def)
qed

subsection \<open>What is accepted\<close>

lemma validate_exact:
  assumes "check_outs_overflow (miner_tx b)"
    "get_block_reward (median ws) w coins v height = Reward reward" "unat reward + unat fee < 2 ^ 64"
    "v = 3 \<Longrightarrow> list_all (\<lambda>o'. is_valid_decomposed_amount (amount o')) (vout (miner_tx b))"
    "unat fee \<le> nat_sum (map amount (vout (miner_tx b)))" "nat_sum (map amount (vout (miner_tx b))) \<le> unat reward + unat fee"
    "v < 2 \<Longrightarrow> nat_sum (map amount (vout (miner_tx b))) = unat reward + unat fee"
  shows "validate_miner_transaction ws v height b w fee coins v =
    Some (of_nat (nat_sum (map amount (vout (miner_tx b))) - unat fee),
      nat_sum (map amount (vout (miner_tx b))) \<noteq> unat reward + unat fee)"
proof -
  define m where "m = get_outs_money_amount (miner_tx b)"
  have m: "unat m = nat_sum (map amount (vout (miner_tx b)))" unfolding m_def by (rule outs_money(2) [OF assms(1)])
  have rf: "unat (reward + fee) = unat reward + unat fee" using assms(3) by (rule unat_add_fits)
  have "fee \<le> m" using assms(5) m by (simp add: word_le_nat_alt)
  then have sub: "unat (m - fee) = unat m - unat fee" by (rule unat_sub_le)
  have "\<not> reward + fee < m" using assms(6) m rf by (simp add: word_less_nat_alt)
  moreover have "m - fee \<le> reward" using assms(6) m sub by (simp add: word_le_nat_alt)
  moreover have "m - fee = of_nat (unat m - unat fee)" using sub by (metis unat_lt_u64 unat_of_nat_u64 word_unat_eq_iff)
  moreover have eq: "reward + fee = m \<longleftrightarrow> unat m = unat reward + unat fee" using rf by (auto simp: word_unat_eq_iff)
  moreover have "v < 2 \<Longrightarrow> reward = of_nat (unat m - unat fee)" using assms(7) m by simp
  ultimately show ?thesis
    using assms(2,4,7) rf unfolding validate_miner_transaction_def Let_def m_def [symmetric] m [symmetric] eq by auto
qed

lemma unat_clamp: "unat (x - x mod 100 :: u64) = unat x - unat x mod 100" "unat x - 99 \<le> unat x - unat x mod 100"
proof -
  have "unat (x mod 100) = unat x mod 100" by (simp add: unat_mod)
  moreover from this have "x mod 100 \<le> x" by (simp add: word_le_nat_alt)
  ultimately show "unat (x - x mod 100) = unat x - unat x mod 100" by (simp add: unat_sub)
  have "unat x mod 100 \<le> 99" by (simp add: less_Suc_eq_le [symmetric])
  then show "unat x - 99 \<le> unat x - unat x mod 100" by simp
qed

lemma clamped_reward_bounds:
  assumes "unat reward + unat fee < 2 ^ 64" "v = 2 \<or> v = 3 \<Longrightarrow> 99 \<le> unat reward"
  shows "unat (clamped_reward reward fee v) \<le> unat reward + unat fee" "unat fee \<le> unat (clamped_reward reward fee v)"
    "unat reward + unat fee \<le> unat (clamped_reward reward fee v) + 99"
    "v < 2 \<or> v \<ge> 4 \<Longrightarrow> unat (clamped_reward reward fee v) = unat reward + unat fee"
proof -
  have rf: "unat (reward + fee) = unat reward + unat fee" using assms(1) by (rule unat_add_fits)
  show all: "v < 2 \<or> v \<ge> 4 \<Longrightarrow> unat (clamped_reward reward fee v) = unat reward + unat fee"
    using rf by (auto simp: clamped_reward_def Let_def)
  have mid: "v = 2 \<or> v = 3" if "\<not> (v < 2 \<or> v \<ge> 4)"
    using that by (auto simp: word_less_nat_alt word_le_nat_alt word_unat_eq_iff)
  have clamp: "unat (clamped_reward reward fee v) = unat (reward + fee) - unat (reward + fee) mod 100" if "\<not> (v < 2 \<or> v \<ge> 4)"
    using that by (auto simp: clamped_reward_def Let_def BASE_REWARD_CLAMP_THRESHOLD_def unat_clamp(1) not_less not_le)
  have small: "unat (reward + fee) mod 100 \<le> 99" by (simp add: less_Suc_eq_le [symmetric])
  show "unat (clamped_reward reward fee v) \<le> unat reward + unat fee" using all clamp rf by fastforce
  show "unat fee \<le> unat (clamped_reward reward fee v)"
    using all clamp rf small mid assms(2) by (cases "v < 2 \<or> v \<ge> 4") simp_all
  show "unat reward + unat fee \<le> unat (clamped_reward reward fee v) + 99"
    using all clamp rf small by (cases "v < 2 \<or> v \<ge> 4") simp_all
qed

text \<open>
  C5: What the node constructs, the node accepts. A miner transaction built for a height, a median with the same
  reward zone as that of the last blocks, and given weight, coins and fees, passes both checks;
  it claims the whole reward before version 2 and from version 4 on, and in between at most
  99 units less.
\<close>
theorem constructed_miner_tx_accepted:
  assumes "construct_miner_tx gen der txkey height median_weight coins w fee adr tx0 xn max_outs v = Some tx"
    "reward_zone median_weight v = reward_zone (median ws) v"
    "get_block_reward median_weight w coins v height = Reward reward" "unat reward + unat fee < 2 ^ 64"
    "v = 2 \<or> v = 3 \<Longrightarrow> 99 \<le> unat reward" "v = 3 \<Longrightarrow> height \<noteq> 0"
  shows "prevalidate_miner_transaction (b\<lparr>miner_tx := tx\<rparr>) height
    \<and> (\<exists>paid partial_reward. validate_miner_transaction ws v height (b\<lparr>miner_tx := tx\<rparr>) w fee coins v = Some (paid, partial_reward)
        \<and> unat paid \<le> unat reward \<and> unat reward \<le> unat paid + 99
        \<and> (v < 2 \<or> v \<ge> 4 \<longrightarrow> paid = reward \<and> \<not> partial_reward))"
proof -
  from assms(1) obtain reward' as where c: "get_block_reward median_weight w coins v height = Reward reward'"
    "miner_amounts height (clamped_reward reward' fee v) max_outs v = Some as" "map amount (vout tx) = as"
    "vin tx = [txin_gen height]" "unlock_time tx = height + CRYPTONOTE_MINED_MONEY_UNLOCK_WINDOW"
    "nat_sum as = unat (clamped_reward reward' fee v)"
    by (rule construct_miner_txD)
  then have r: "reward' = reward" using assms(3) by simp
  define s where "s = nat_sum (map amount (vout tx))"
  have s: "s = unat (clamped_reward reward fee v)" unfolding s_def c(3) using c(6) r by simp
  have bounds: "s \<le> unat reward + unat fee" "unat fee \<le> s" "unat reward + unat fee \<le> s + 99"
    "v < 2 \<or> v \<ge> 4 \<Longrightarrow> s = unat reward + unat fee"
    unfolding s using clamped_reward_bounds [of reward fee v] assms(4,5) by blast+
  have over: "check_outs_overflow tx" unfolding outs_money(1) s_def [symmetric] s by (rule unat_lt_u64)
  have valid: "list_all (\<lambda>o'. is_valid_decomposed_amount (amount o')) (vout tx)" if "v = 3"
    using miner_amounts_valid [of height "clamped_reward reward' fee v" max_outs as] c(2,3) that assms(6)
    by (auto simp: list_all_iff)
  have tx: "miner_tx (b\<lparr>miner_tx := tx\<rparr>) = tx" by simp
  have gr: "get_block_reward (median ws) w coins v height = Reward reward"
    using get_block_reward_zone [OF assms(2)] assms(3) by simp
  define paid :: u64 where "paid = of_nat (s - unat fee)"
  have val: "validate_miner_transaction ws v height (b\<lparr>miner_tx := tx\<rparr>) w fee coins v = Some (paid, s \<noteq> unat reward + unat fee)"
    unfolding paid_def
    using validate_exact [of "b\<lparr>miner_tx := tx\<rparr>" ws w coins v height reward fee, unfolded tx, folded s_def, OF over gr assms(4) valid bounds(2,1)]
      bounds(4) by blast
  have paid: "unat paid = s - unat fee"
    unfolding paid_def using s unat_lt_u64 [of "clamped_reward reward fee v"] by (intro unat_of_nat_u64) linarith
  have "unat paid \<le> unat reward" "unat reward \<le> unat paid + 99" using paid bounds(1,2,3) by linarith+
  moreover have "v < 2 \<or> v \<ge> 4 \<longrightarrow> paid = reward \<and> \<not> s \<noteq> unat reward + unat fee"
    using paid bounds(4) by (auto simp: word_unat_eq_iff)
  moreover have "prevalidate_miner_transaction (b\<lparr>miner_tx := tx\<rparr>) height"
    using over c(4,5) by (simp add: prevalidate_miner_transaction_def)
  ultimately show ?thesis using val by blast
qed

definition sample_construct :: "transaction option" where
  "sample_construct = construct_miner_tx (\<lambda>v s. Some zero_key) (\<lambda>d n k. Some zero_key) \<lparr>kp_pub = zero_key, kp_sec = zero_key\<rparr>
     100 0 MONEY_SUPPLY 1000 500 \<lparr>m_spend_public_key = zero_key, m_view_public_key = zero_key\<rparr> new_transaction [] 1 13"

lemma sample_reward: "get_block_reward 0 1000 MONEY_SUPPLY 13 100 = Reward 10000000000"
  by (simp add: get_block_reward_def Let_def get_min_block_weight_def base_block_reward_def MONEY_SUPPLY_def
      PREMINE_BLOCK_HEIGHT_def FINAL_SUBSIDY_PER_MINUTE_def target_minutes_def HF_VERSION_PROOF_OF_STAKE_def
      HF_VERSION_TWO_MINUTE_BLOCK_TIME_def)

lemma sample_constructed: "sample_construct \<noteq> None"
  by (simp add: sample_construct_def construct_miner_tx_def sample_reward miner_amounts_def clamped_reward_def
      decompose_amount_into_digits_def decompose_loop.simps Let_def)

theorem constructed_miner_tx_accepted_witness:
  "\<exists>tx. sample_construct = Some tx \<and> prevalidate_miner_transaction (sample_block\<lparr>miner_tx := tx\<rparr>) 100
     \<and> validate_miner_transaction [] 13 100 (sample_block\<lparr>miner_tx := tx\<rparr>) 1000 500 MONEY_SUPPLY 13 = Some (10000000000, False)"
proof -
  from sample_constructed obtain tx where tx: "sample_construct = Some tx" by auto
  have z: "reward_zone 0 13 = reward_zone (median []) 13" by (simp add: median_def)
  have nv: "\<not> ((13 :: u8) = 2 \<or> (13 :: u8) = 3)" "(13 :: u8) \<noteq> 3" by simp_all
  have sum: "unat (10000000000 :: u64) + unat (500 :: u64) < 2 ^ 64" by simp
  have "prevalidate_miner_transaction (sample_block\<lparr>miner_tx := tx\<rparr>) 100
     \<and> (\<exists>paid partial_reward. validate_miner_transaction [] 13 100 (sample_block\<lparr>miner_tx := tx\<rparr>) 1000 500 MONEY_SUPPLY 13 = Some (paid, partial_reward)
        \<and> unat paid \<le> unat (10000000000 :: u64) \<and> unat (10000000000 :: u64) \<le> unat paid + 99
        \<and> ((13 :: u8) < 2 \<or> (13 :: u8) \<ge> 4 \<longrightarrow> paid = 10000000000 \<and> \<not> partial_reward))"
    using constructed_miner_tx_accepted [OF tx [unfolded sample_construct_def] z sample_reward sum] nv by blast
  with tx show ?thesis by auto
qed

text \<open>Whatever is accepted pays at least the fees and at most fees plus reward.\<close>

lemma validated_pays:
  assumes "validate_miner_transaction ws cv height b w fee coins v = Some (paid, part)" "check_outs_overflow (miner_tx b)"
    "get_block_reward (median ws) w coins v height = Reward reward" "unat reward + unat fee < 2 ^ 64"
  shows "unat paid \<le> unat reward" "nat_sum (map amount (vout (miner_tx b))) = unat paid + unat fee"
proof -
  define m where "m = get_outs_money_amount (miner_tx b)"
  have m: "unat m = nat_sum (map amount (vout (miner_tx b)))" unfolding m_def by (rule outs_money(2) [OF assms(2)])
  have rf: "unat (reward + fee) = unat reward + unat fee" using assms(4) by (rule unat_add_fits)
  have c: "\<not> reward + fee < m" "paid = reward \<and> reward + fee = m \<or> paid = m - fee \<and> m - fee \<le> reward"
    using assms(1,3) by (auto simp: validate_miner_transaction_def Let_def m_def [symmetric] split: if_splits)
  then show "unat paid \<le> unat reward" by (auto simp: word_le_nat_alt)
  with assms(4) have "unat paid + unat fee < 2 ^ 64" by linarith
  then have "unat (paid + fee) = unat paid + unat fee" by (rule unat_add_fits)
  moreover have "paid + fee = m" using c(2) by auto
  ultimately show "nat_sum (map amount (vout (miner_tx b))) = unat paid + unat fee" using m by simp
qed

end
