(* ===== verification/Tx_Pool.thy ===== *)
theory Tx_Pool
  imports Miner_Tx "HOL-Library.Signed_Division"
begin

text \<open>
  The transaction pool, \<^verbatim>\<open>src/src/cryptonote_core/tx_pool.cpp\<close>, with the pool tables of the database
  (\<^verbatim>\<open>src/src/blockchain_db/lmdb/db_lmdb.cpp\<close>): adding, taking, pruning and removing transactions, the
  index of spent key images, the container sorted by fee, and the choice of transactions for a block.

  The tables are a list of entries; a transaction is stored as a blob and parsed when it is
  read, and as that round trip gives it back (\<open>Tx_Hash\<close>) the entry holds the transaction. The
  sorted container orders by the quotient of fee and weight as a \<open>double\<close>: \<open>fee_per_byte\<close> is the
  bit pattern of that quotient, and non-negative numbers compare like their bit patterns. The
  checks of the chain on a transaction (fee, outputs, inputs with their ring signatures) and
  the time are arguments. The sorted container is a list with insertion before the first
  entry it compares before; the flags that readiness checks leave uninitialised are taken
  as false. Locks and database batches are left out.

  Shown here: in every reachable pool the table, the sorted container and the key images agree;
  a transaction that was added can be taken; validating and restarting set the recorded
  weight right; a block template respects the weight limit, spends no key image twice and
  adds up the fees. Pruning does not keep the weight: it subtracts the time of receipt.
\<close>

subsection \<open>State\<close>

record tx_verification_context =
  m_should_be_relayed :: bool
  m_verifivation_failed :: bool
  m_verifivation_impossible :: bool
  m_added_to_pool :: bool
  m_low_mixin :: bool
  m_double_spend :: bool
  m_invalid_input :: bool
  m_invalid_output :: bool
  m_too_big :: bool
  m_overspend :: bool
  m_fee_too_low :: bool
  m_not_rct :: bool

record txpool_tx_meta_t =
  max_used_block_id :: bytes
  last_failed_id :: bytes
  meta_weight :: u64
  meta_fee :: u64
  max_used_block_height :: u64
  last_failed_height :: u64
  receive_time :: u64
  last_relayed_time :: u64
  kept_by_block :: bool
  relayed :: bool
  do_not_relay :: bool
  double_spend_seen :: bool

record pool_entry =
  pe_id :: bytes
  pe_meta :: txpool_tx_meta_t
  pe_tx :: transaction

type_synonym sorted_entry = "(u64 \<times> u64) \<times> bytes"

text \<open>
  The check of the inputs of a transaction by the chain: flags, highest block used and its id come in
  by reference and go out with the result.
\<close>

type_synonym input_check = "bool \<times> tx_verification_context \<times> u64 \<times> bytes"
type_synonym input_checker = "transaction \<Rightarrow> bool \<Rightarrow> tx_verification_context \<times> u64 \<times> bytes \<Rightarrow> input_check"

record tx_memory_pool =
  pool_db :: "pool_entry list"
  m_txs_by_fee_and_receive_time :: "sorted_entry list"
  m_spent_key_images :: "bytes \<Rightarrow> bytes list option"
  m_timed_out_transactions :: "bytes list"
  m_input_cache :: "bytes \<Rightarrow> input_check option"
  m_txpool_max_weight :: u64
  m_txpool_weight :: u64
  m_cookie :: u64

definition DEFAULT_TXPOOL_MAX_WEIGHT :: u64 where "DEFAULT_TXPOOL_MAX_WEIGHT = 648000000"
definition CRYPTONOTE_MEMPOOL_TX_LIVETIME :: u64 where "CRYPTONOTE_MEMPOOL_TX_LIVETIME = 86400 * 3"
definition CRYPTONOTE_MEMPOOL_TX_FROM_ALT_BLOCK_LIVETIME :: u64 where "CRYPTONOTE_MEMPOOL_TX_FROM_ALT_BLOCK_LIVETIME = 604800"
definition CRYPTONOTE_COINBASE_BLOB_RESERVED_SIZE :: u64 where "CRYPTONOTE_COINBASE_BLOB_RESERVED_SIZE = 600"

definition new_pool :: tx_memory_pool where
  "new_pool = \<lparr>pool_db = [], m_txs_by_fee_and_receive_time = [], m_spent_key_images = (\<lambda>_. None),
     m_timed_out_transactions = [], m_input_cache = (\<lambda>_. None), m_txpool_max_weight = DEFAULT_TXPOOL_MAX_WEIGHT,
     m_txpool_weight = 0, m_cookie = 0\<rparr>"

definition bump_cookie :: "tx_memory_pool \<Rightarrow> tx_memory_pool" where
  "bump_cookie p = p\<lparr>m_cookie := m_cookie p + 1\<rparr>"

text \<open>The transaction hash of a transaction with coherent caches; the null hash when there is none.\<close>

definition tx_hash :: "transaction \<Rightarrow> bytes" where
  "tx_hash tx = (case tx_id tx of Some h \<Rightarrow> h | None \<Rightarrow> null_hash)"

subsection \<open>Database tables\<close>

definition find_entry :: "tx_memory_pool \<Rightarrow> bytes \<Rightarrow> pool_entry option" where
  "find_entry p txid = find (\<lambda>e. pe_id e = txid) (pool_db p)"

text \<open>\<open>None\<close>: the entry exists already, which throws.\<close>

definition add_txpool_tx :: "tx_memory_pool \<Rightarrow> transaction \<Rightarrow> txpool_tx_meta_t \<Rightarrow> tx_memory_pool option" where
  "add_txpool_tx p tx meta =
     (if find_entry p (tx_hash tx) \<noteq> None then None
      else Some (p\<lparr>pool_db := \<lparr>pe_id = tx_hash tx, pe_meta = meta, pe_tx = tx\<rparr> # pool_db p\<rparr>))"

definition remove_txpool_tx :: "tx_memory_pool \<Rightarrow> bytes \<Rightarrow> tx_memory_pool" where
  "remove_txpool_tx p txid = p\<lparr>pool_db := filter (\<lambda>e. pe_id e \<noteq> txid) (pool_db p)\<rparr>"

definition update_txpool_tx :: "tx_memory_pool \<Rightarrow> bytes \<Rightarrow> txpool_tx_meta_t \<Rightarrow> tx_memory_pool" where
  "update_txpool_tx p txid meta =
     p\<lparr>pool_db := map (\<lambda>e. if pe_id e = txid then e\<lparr>pe_meta := meta\<rparr> else e) (pool_db p)\<rparr>"

definition have_tx :: "tx_memory_pool \<Rightarrow> bytes \<Rightarrow> bool" where
  "have_tx p txid \<longleftrightarrow> find_entry p txid \<noteq> None"

subsection \<open>Sorted container\<close>

definition txCompare :: "sorted_entry \<Rightarrow> sorted_entry \<Rightarrow> bool" where
  "txCompare a b =
     (if fst (fst a) > fst (fst b) then True
      else if fst (fst a) < fst (fst b) then False
      else if snd (fst a) < snd (fst b) then True
      else if snd (fst a) > snd (fst b) then False
      else snd a \<noteq> snd b)"

fun sorted_emplace :: "sorted_entry \<Rightarrow> sorted_entry list \<Rightarrow> sorted_entry list" where
  "sorted_emplace e [] = [e]"
| "sorted_emplace e (x # xs) =
     (if txCompare e x then e # x # xs else if txCompare x e then x # sorted_emplace e xs else x # xs)"

text \<open>The first entry with an id is erased.\<close>

fun erase_first :: "bytes \<Rightarrow> sorted_entry list \<Rightarrow> sorted_entry list" where
  "erase_first txid [] = []"
| "erase_first txid (x # xs) = (if snd x = txid then xs else x # erase_first txid xs)"

definition sorted_erase :: "tx_memory_pool \<Rightarrow> bytes \<Rightarrow> tx_memory_pool" where
  "sorted_erase p txid = p\<lparr>m_txs_by_fee_and_receive_time := erase_first txid (m_txs_by_fee_and_receive_time p)\<rparr>"

definition in_sorted_container :: "tx_memory_pool \<Rightarrow> bytes \<Rightarrow> bool" where
  "in_sorted_container p txid \<longleftrightarrow> list_ex (\<lambda>e. snd e = txid) (m_txs_by_fee_and_receive_time p)"

subsection \<open>Key images\<close>

fun txin_k_image :: "txin_v \<Rightarrow> bytes option" where
  "txin_k_image (txin_to_key a offsets k) = Some k"
| "txin_k_image _ = None"

text \<open>The index of key images after the loop, with the flag of success.\<close>

fun insert_images :: "bytes \<Rightarrow> bool \<Rightarrow> txin_v list \<Rightarrow> (bytes \<Rightarrow> bytes list option) \<Rightarrow> bool \<times> (bytes \<Rightarrow> bytes list option)" where
  "insert_images txid kept [] ki = (True, ki)"
| "insert_images txid kept (i # is) ki = (case txin_k_image i of
     None \<Rightarrow> (False, ki)
   | Some k \<Rightarrow>
       let key_image_set = (case ki k of None \<Rightarrow> [] | Some s \<Rightarrow> s) in
       if \<not> (kept \<or> key_image_set = []) then (False, ki)
       else if txid \<in> set key_image_set then (False, ki)
       else insert_images txid kept is (ki(k \<mapsto> txid # key_image_set)))"

definition insert_key_images :: "tx_memory_pool \<Rightarrow> transaction \<Rightarrow> bool \<Rightarrow> bool \<times> tx_memory_pool" where
  "insert_key_images p tx kept =
     (case insert_images (tx_hash tx) kept (vin tx) (m_spent_key_images p) of
        (r, ki) \<Rightarrow> (r, (if r then bump_cookie else id) (p\<lparr>m_spent_key_images := ki\<rparr>)))"

fun remove_images :: "bytes \<Rightarrow> txin_v list \<Rightarrow> (bytes \<Rightarrow> bytes list option) \<Rightarrow> bool \<times> (bytes \<Rightarrow> bytes list option)" where
  "remove_images txid [] ki = (True, ki)"
| "remove_images txid (i # is) ki = (case txin_k_image i of
     None \<Rightarrow> (False, ki)
   | Some k \<Rightarrow> (case ki k of
       None \<Rightarrow> (False, ki)
     | Some s \<Rightarrow>
         if s = [] then (False, ki)
         else if txid \<notin> set s then (False, ki)
         else
           let s = filter (\<lambda>h. h \<noteq> txid) s in
           remove_images txid is (ki(k := if s = [] then None else Some s))))"

definition remove_transaction_keyimages :: "tx_memory_pool \<Rightarrow> transaction \<Rightarrow> bool \<times> tx_memory_pool" where
  "remove_transaction_keyimages p tx =
     (case remove_images (tx_hash tx) (vin tx) (m_spent_key_images p) of
        (r, ki) \<Rightarrow> (r, (if r then bump_cookie else id) (p\<lparr>m_spent_key_images := ki\<rparr>)))"

definition have_tx_keyimg_as_spent :: "tx_memory_pool \<Rightarrow> bytes \<Rightarrow> bool" where
  "have_tx_keyimg_as_spent p k \<longleftrightarrow> m_spent_key_images p k \<noteq> None"

definition have_tx_keyimges_as_spent :: "tx_memory_pool \<Rightarrow> transaction \<Rightarrow> bool" where
  "have_tx_keyimges_as_spent p tx =
     list_ex (\<lambda>i. case txin_k_image i of None \<Rightarrow> True | Some k \<Rightarrow> have_tx_keyimg_as_spent p k) (vin tx)"

text \<open>Every pool transaction that spends a key image of the given one is marked.\<close>

definition mark_double_spend :: "tx_memory_pool \<Rightarrow> transaction \<Rightarrow> tx_memory_pool" where
  "mark_double_spend p tx =
     (let spent = takeWhile (\<lambda>i. txin_k_image i \<noteq> None) (vin tx);
          ids = concat (map (\<lambda>i. case txin_k_image i of None \<Rightarrow> [] | Some k \<Rightarrow>
            (case m_spent_key_images p k of None \<Rightarrow> [] | Some s \<Rightarrow> s)) spent);
          fresh = list_ex (\<lambda>e. pe_id e \<in> set ids \<and> \<not> double_spend_seen (pe_meta e)) (pool_db p);
          p' = p\<lparr>pool_db := map (\<lambda>e. if pe_id e \<in> set ids then e\<lparr>pe_meta := (pe_meta e)\<lparr>double_spend_seen := True\<rparr>\<rparr> else e) (pool_db p)\<rparr> in
      if length spent = length (vin tx) \<and> fresh then bump_cookie p' else p')"

subsection \<open>Adding a transaction\<close>

definition get_transaction_weight_limit :: "u8 \<Rightarrow> u64" where
  "get_transaction_weight_limit ver =
     (if ver \<ge> HF_VERSION_PER_BYTE_FEE
      then get_min_block_weight ver div 2 - CRYPTONOTE_COINBASE_BLOB_RESERVED_SIZE
      else get_min_block_weight ver - CRYPTONOTE_COINBASE_BLOB_RESERVED_SIZE)"

text \<open>The check of the inputs by the chain, with the cache in front of it.\<close>

definition check_tx_inputs ::
    "input_checker \<Rightarrow>
     tx_memory_pool \<Rightarrow> transaction \<Rightarrow> bytes \<Rightarrow> tx_verification_context \<times> u64 \<times> bytes \<Rightarrow> bool \<Rightarrow> input_check \<times> tx_memory_pool" where
  "check_tx_inputs chain_check p tx txid io kept =
     (case (if kept then None else m_input_cache p txid) of
        Some r \<Rightarrow> (r, p)
      | None \<Rightarrow>
          let r = chain_check tx kept io in
          (r, if kept then p else p\<lparr>m_input_cache := (m_input_cache p)(txid \<mapsto> r)\<rparr>))"

text \<open>The fee of a transaction, or the flags with which it is rejected.\<close>

definition pool_fee :: "transaction \<Rightarrow> tx_verification_context \<Rightarrow> tx_verification_context + u64" where
  "pool_fee tx tvc =
     (if version tx = 1 then
        (case get_inputs_money_amount tx of
           None \<Rightarrow> Inl (tvc\<lparr>m_verifivation_failed := True\<rparr>)
         | Some inputs_amount \<Rightarrow>
             let outputs_amount = get_outs_money_amount tx in
             if outputs_amount > inputs_amount then Inl (tvc\<lparr>m_verifivation_failed := True, m_overspend := True\<rparr>)
             else if outputs_amount = inputs_amount then Inl (tvc\<lparr>m_verifivation_failed := True, m_fee_too_low := True\<rparr>)
             else Inr (inputs_amount - outputs_amount))
      else Inr (txnFee (rct_signatures tx)))"

fun prune_loop :: "u64 \<Rightarrow> sorted_entry list \<Rightarrow> tx_memory_pool \<Rightarrow> bool \<Rightarrow> tx_memory_pool" where
  "prune_loop bytes' [] p changed = (if changed then bump_cookie p else p)"
| "prune_loop bytes' (e # es) p changed =
     (if m_txpool_weight p \<le> bytes' then (if changed then bump_cookie p else p)
      else case find_entry p (snd e) of
        None \<Rightarrow> p
      | Some entry \<Rightarrow>
          if kept_by_block (pe_meta entry) then prune_loop bytes' es p changed
          else
            let p = remove_txpool_tx p (snd e);
                p = p\<lparr>m_txpool_weight := m_txpool_weight p - snd (fst e)\<rparr>;
                p = snd (remove_transaction_keyimages p (pe_tx entry)) in
            prune_loop bytes' es (p\<lparr>m_txs_by_fee_and_receive_time := remove1 e (m_txs_by_fee_and_receive_time p)\<rparr>) True)"

text \<open>From the end of the sorted container backwards, the first entry excepted.\<close>

definition prune :: "tx_memory_pool \<Rightarrow> u64 \<Rightarrow> tx_memory_pool" where
  "prune p bytes' =
     prune_loop (if bytes' = 0 then m_txpool_max_weight p else bytes') (rev (tl (m_txs_by_fee_and_receive_time p))) p False"

text \<open>Storing an accepted transaction; the exception of the database is the result \<open>false\<close>.\<close>

definition store_tx :: "(u64 \<Rightarrow> u64 \<Rightarrow> u64) \<Rightarrow> tx_memory_pool \<Rightarrow> transaction \<Rightarrow> bytes \<Rightarrow> txpool_tx_meta_t \<Rightarrow> bool \<times> tx_memory_pool" where
  "store_tx fee_per_byte p tx txid meta =
     (case add_txpool_tx p tx meta of
        None \<Rightarrow> (False, p)
      | Some p \<Rightarrow>
          (case insert_key_images p tx (kept_by_block meta) of
             (False, p) \<Rightarrow> (False, p)
           | (True, p) \<Rightarrow>
               (True, p\<lparr>m_txs_by_fee_and_receive_time := sorted_emplace
                  ((fee_per_byte (meta_fee meta) (meta_weight meta), receive_time meta), txid) (m_txs_by_fee_and_receive_time p)\<rparr>)))"

text \<open>The second half: the inputs are checked, and the transaction is stored.\<close>

definition add_tx_checked ::
    "(u64 \<Rightarrow> u64 \<Rightarrow> u64) \<Rightarrow> input_checker \<Rightarrow> u64 \<Rightarrow>
     tx_memory_pool \<Rightarrow> transaction \<Rightarrow> bytes \<Rightarrow> u64 \<Rightarrow> u64 \<Rightarrow> tx_verification_context \<Rightarrow> bool \<Rightarrow> bool \<Rightarrow> bool \<Rightarrow>
     bool \<times> tx_verification_context \<times> tx_memory_pool" where
  "add_tx_checked fee_per_byte chain_check_inputs now p tx txid tx_weight fee tvc kept rel no_relay =
     (let tvc = tvc\<lparr>m_verifivation_failed := True\<rparr>;
          ((ch_inp_res, tvc, max_height, max_id), p) = check_tx_inputs chain_check_inputs p tx txid (tvc, 0, null_hash) kept;
          meta = \<lparr>max_used_block_id = (if ch_inp_res then max_id else null_hash), last_failed_id = null_hash,
            meta_weight = tx_weight, meta_fee = fee,
            max_used_block_height = (if ch_inp_res then max_height else 0), last_failed_height = 0,
            receive_time = now, last_relayed_time = now, kept_by_block = kept, relayed = rel, do_not_relay = no_relay,
            double_spend_seen = \<not> ch_inp_res \<and> have_tx_keyimges_as_spent p tx\<rparr> in
      if \<not> ch_inp_res \<and> \<not> kept
      then (False, tvc\<lparr>m_verifivation_failed := True, m_invalid_input := True\<rparr>, p)
      else case store_tx fee_per_byte (if ch_inp_res then remove_txpool_tx p (tx_hash tx) else p) tx txid meta of
        (False, p) \<Rightarrow> (False, tvc, p)
      | (True, p) \<Rightarrow>
          let tvc = (if ch_inp_res
                then tvc\<lparr>m_added_to_pool := True, m_should_be_relayed := m_should_be_relayed tvc \<or> (fee > 0 \<and> \<not> no_relay)\<rparr>
                else tvc\<lparr>m_verifivation_impossible := True, m_added_to_pool := True\<rparr>);
              p = bump_cookie (p\<lparr>m_txpool_weight := m_txpool_weight p + tx_weight\<rparr>) in
          (True, tvc\<lparr>m_verifivation_failed := False\<rparr>, prune p (m_txpool_max_weight p)))"

definition add_tx ::
    "(u64 \<Rightarrow> u64 \<Rightarrow> u64) \<Rightarrow> (u64 \<Rightarrow> u64 \<Rightarrow> bool) \<Rightarrow> (transaction \<Rightarrow> tx_verification_context \<Rightarrow> bool \<times> tx_verification_context) \<Rightarrow>
     input_checker \<Rightarrow> u64 \<Rightarrow>
     tx_memory_pool \<Rightarrow> transaction \<Rightarrow> bytes \<Rightarrow> u64 \<Rightarrow> tx_verification_context \<Rightarrow> bool \<Rightarrow> bool \<Rightarrow> bool \<Rightarrow> u8 \<Rightarrow>
     bool \<times> tx_verification_context \<times> tx_memory_pool" where
  "add_tx fee_per_byte chain_check_fee chain_check_outputs chain_check_inputs now p tx txid tx_weight tvc kept rel no_relay ver =
     (if version tx = 0 then (False, tvc\<lparr>m_verifivation_failed := True\<rparr>, p)
      else if \<not> kept \<and> txid \<in> set (m_timed_out_transactions p) then (False, tvc\<lparr>m_verifivation_failed := True\<rparr>, p)
      else if \<not> check_inputs_types_supported tx then (False, tvc\<lparr>m_verifivation_failed := True, m_invalid_input := True\<rparr>, p)
      else case pool_fee tx tvc of
        Inl tvc \<Rightarrow> (False, tvc, p)
      | Inr fee \<Rightarrow>
          if \<not> kept \<and> \<not> chain_check_fee tx_weight fee then (False, tvc\<lparr>m_verifivation_failed := True, m_fee_too_low := True\<rparr>, p)
          else if (\<not> kept \<or> ver \<ge> HF_VERSION_PER_BYTE_FEE) \<and> tx_weight > get_transaction_weight_limit ver
          then (False, tvc\<lparr>m_verifivation_failed := True, m_too_big := True\<rparr>, p)
          else if \<not> kept \<and> have_tx_keyimges_as_spent p tx
          then (False, tvc\<lparr>m_verifivation_failed := True, m_double_spend := True\<rparr>, mark_double_spend p tx)
          else case chain_check_outputs tx tvc of
            (False, tvc) \<Rightarrow> (False, tvc\<lparr>m_verifivation_failed := True, m_invalid_output := True\<rparr>, p)
          | (True, tvc) \<Rightarrow> add_tx_checked fee_per_byte chain_check_inputs now p tx txid tx_weight fee tvc kept rel no_relay)"

text \<open>The overload that computes the id and the weight; \<open>None\<close> when computing the weight throws.\<close>

definition add_tx_hashed ::
    "(u64 \<Rightarrow> u64 \<Rightarrow> u64) \<Rightarrow> (u64 \<Rightarrow> u64 \<Rightarrow> bool) \<Rightarrow> (transaction \<Rightarrow> tx_verification_context \<Rightarrow> bool \<times> tx_verification_context) \<Rightarrow>
     input_checker \<Rightarrow> u64 \<Rightarrow> tx_memory_pool \<Rightarrow> transaction \<Rightarrow> tx_verification_context \<Rightarrow> bool \<Rightarrow> bool \<Rightarrow> bool \<Rightarrow> u8 \<Rightarrow>
     (bool \<times> tx_verification_context \<times> tx_memory_pool) option" where
  "add_tx_hashed fee_per_byte chain_check_fee chain_check_outputs chain_check_inputs now p tx tvc kept rel no_relay ver =
     (case calculate_transaction_hash tx of
        None \<Rightarrow> Some (False, tvc, p)
      | Some (h, blob_size) \<Rightarrow>
          if blob_size = 0 then Some (False, tvc, p)
          else map_option (\<lambda>tx_weight. add_tx fee_per_byte chain_check_fee chain_check_outputs chain_check_inputs now p tx h
                 tx_weight tvc kept rel no_relay ver) (get_transaction_weight_blob tx blob_size))"

definition set_txpool_max_weight :: "tx_memory_pool \<Rightarrow> u64 \<Rightarrow> tx_memory_pool" where
  "set_txpool_max_weight p bytes' = p\<lparr>m_txpool_max_weight := bytes'\<rparr>"

subsection \<open>Taking and removing transactions\<close>

definition take_tx :: "tx_memory_pool \<Rightarrow> bytes \<Rightarrow> (transaction \<times> txpool_tx_meta_t) option \<times> tx_memory_pool" where
  "take_tx p txid =
     (if \<not> in_sorted_container p txid then (None, p)
      else case find_entry p txid of
        None \<Rightarrow> (None, p)
      | Some e \<Rightarrow>
          let p = remove_txpool_tx p txid;
              p = p\<lparr>m_txpool_weight := m_txpool_weight p - meta_weight (pe_meta e)\<rparr>;
              p = snd (remove_transaction_keyimages p (pe_tx e)) in
          (Some (pe_tx e, pe_meta e), bump_cookie (sorted_erase p txid)))"

text \<open>The part that removing an outdated or invalid transaction shares; computing the weight may throw.\<close>

definition drop_entry :: "tx_memory_pool \<Rightarrow> pool_entry \<Rightarrow> bool \<times> tx_memory_pool" where
  "drop_entry p e =
     (let p = remove_txpool_tx p (pe_id e) in
      case get_transaction_weight_blob (pe_tx e) (of_nat (length (tx_to_blob (pe_tx e)))) of
        None \<Rightarrow> (False, p)
      | Some w \<Rightarrow> (True, snd (remove_transaction_keyimages (p\<lparr>m_txpool_weight := m_txpool_weight p - w\<rparr>) (pe_tx e))))"

definition outdated :: "u64 \<Rightarrow> txpool_tx_meta_t \<Rightarrow> bool" where
  "outdated now meta =
     (let tx_age = now - receive_time meta in
      (tx_age > CRYPTONOTE_MEMPOOL_TX_LIVETIME \<and> \<not> kept_by_block meta)
      \<or> (tx_age > CRYPTONOTE_MEMPOOL_TX_FROM_ALT_BLOCK_LIVETIME \<and> kept_by_block meta))"

definition remove_stuck_transactions :: "u64 \<Rightarrow> tx_memory_pool \<Rightarrow> tx_memory_pool" where
  "remove_stuck_transactions now p =
     (let remove = filter (\<lambda>e. outdated now (pe_meta e)) (pool_db p);
          p = foldl (\<lambda>p e. sorted_erase p (pe_id e)) p remove;
          p = p\<lparr>m_timed_out_transactions := map pe_id remove @ m_timed_out_transactions p\<rparr> in
      if remove = [] then p else bump_cookie (foldl (\<lambda>p e. snd (drop_entry p e)) p remove))"

text \<open>The removal loop of \<open>validate\<close>, with the number of removed transactions.\<close>

definition validate_drop :: "nat \<times> tx_memory_pool \<Rightarrow> pool_entry \<Rightarrow> nat \<times> tx_memory_pool" where
  "validate_drop = (\<lambda>(n_removed, p) e. case drop_entry p e of
     (False, p) \<Rightarrow> (n_removed, p)
   | (True, p) \<Rightarrow> (n_removed + 1, sorted_erase p (pe_id e)))"

definition validate :: "(bytes \<Rightarrow> bool) \<Rightarrow> tx_memory_pool \<Rightarrow> u8 \<Rightarrow> nat \<times> tx_memory_pool" where
  "validate chain_have_tx p ver =
     (let p = p\<lparr>m_txpool_weight := foldl (\<lambda>w e. w + meta_weight (pe_meta e)) 0 (pool_db p)\<rparr>;
          remove = filter (\<lambda>e. meta_weight (pe_meta e) > get_transaction_weight_limit ver \<or> chain_have_tx (pe_id e)) (pool_db p);
          (n_removed, p) = foldl validate_drop (0, p) remove in
      (n_removed, if n_removed > 0 then bump_cookie p else p))"

text \<open>Reading the table at start-up, in two passes; the loop stops at the first failure.\<close>

fun init_entries :: "(u64 \<Rightarrow> u64 \<Rightarrow> u64) \<Rightarrow> pool_entry list \<Rightarrow> tx_memory_pool \<Rightarrow> bool \<times> tx_memory_pool" where
  "init_entries fee_per_byte [] p = (True, p)"
| "init_entries fee_per_byte (e # es) p =
     (case insert_key_images p (pe_tx e) (kept_by_block (pe_meta e)) of
        (False, p) \<Rightarrow> (False, p)
      | (True, p) \<Rightarrow> init_entries fee_per_byte es
          (p\<lparr>m_txs_by_fee_and_receive_time := sorted_emplace
               ((fee_per_byte (meta_fee (pe_meta e)) (meta_weight (pe_meta e)), receive_time (pe_meta e)), pe_id e)
               (m_txs_by_fee_and_receive_time p),
             m_txpool_weight := m_txpool_weight p + meta_weight (pe_meta e)\<rparr>))"

definition init_pool :: "(u64 \<Rightarrow> u64 \<Rightarrow> u64) \<Rightarrow> tx_memory_pool \<Rightarrow> u64 \<Rightarrow> bool \<times> tx_memory_pool" where
  "init_pool fee_per_byte p max_txpool_weight =
     (let p = p\<lparr>m_txpool_max_weight := (if max_txpool_weight \<noteq> 0 then max_txpool_weight else DEFAULT_TXPOOL_MAX_WEIGHT),
            m_txs_by_fee_and_receive_time := [], m_spent_key_images := (\<lambda>_. None), m_txpool_weight := 0\<rparr> in
      case init_entries fee_per_byte
          (filter (\<lambda>e. \<not> kept_by_block (pe_meta e)) (pool_db p) @ filter (\<lambda>e. kept_by_block (pe_meta e)) (pool_db p)) p of
        (False, p) \<Rightarrow> (False, p)
      | (True, p) \<Rightarrow> (True, p\<lparr>m_cookie := 0\<rparr>))"

text \<open>A new top block, or one less, empties the cache of input checks.\<close>

definition on_blockchain_change :: "tx_memory_pool \<Rightarrow> tx_memory_pool" where
  "on_blockchain_change p = p\<lparr>m_input_cache := (\<lambda>_. None)\<rparr>"

definition set_relayed :: "u64 \<Rightarrow> tx_memory_pool \<Rightarrow> bytes list \<Rightarrow> tx_memory_pool" where
  "set_relayed now p txids = foldl (\<lambda>p txid. case find_entry p txid of
     None \<Rightarrow> p
   | Some e \<Rightarrow> update_txpool_tx p txid ((pe_meta e)\<lparr>relayed := True, last_relayed_time := now\<rparr>)) p txids"

definition MIN_RELAY_TIME :: int where "MIN_RELAY_TIME = 60 * 5"
definition MAX_RELAY_TIME :: int where "MAX_RELAY_TIME = 60 * 60 * 4"

text \<open>Times are signed here; the division truncates.\<close>

definition get_relay_delay :: "u64 \<Rightarrow> u64 \<Rightarrow> u64" where
  "get_relay_delay now received =
     (let d = (sint now - sint received + MIN_RELAY_TIME) sdiv MIN_RELAY_TIME * MIN_RELAY_TIME in
      of_int (if d > MAX_RELAY_TIME then MAX_RELAY_TIME else d))"

definition get_relayable_transactions :: "u64 \<Rightarrow> tx_memory_pool \<Rightarrow> (bytes \<times> bytes) list" where
  "get_relayable_transactions now p =
     map (\<lambda>e. (pe_id e, tx_to_blob (pe_tx e))) (filter (\<lambda>e.
       let meta = pe_meta e;
           max_age = (if kept_by_block meta then CRYPTONOTE_MEMPOOL_TX_FROM_ALT_BLOCK_LIVETIME else CRYPTONOTE_MEMPOOL_TX_LIVETIME) in
       meta_fee meta > 0 \<and> \<not> do_not_relay meta
       \<and> now - last_relayed_time meta > get_relay_delay now (receive_time meta)
       \<and> now - receive_time meta \<le> max_age div 2) (pool_db p))"

definition get_transactions_count :: "tx_memory_pool \<Rightarrow> bool \<Rightarrow> nat" where
  "get_transactions_count p include_unrelayed_txes =
     length (filter (\<lambda>e. include_unrelayed_txes \<or> \<not> do_not_relay (pe_meta e)) (pool_db p))"

definition get_transaction_hashes :: "tx_memory_pool \<Rightarrow> bool \<Rightarrow> bytes list" where
  "get_transaction_hashes p include_unrelayed_txes =
     map pe_id (filter (\<lambda>e. include_unrelayed_txes \<or> \<not> do_not_relay (pe_meta e)) (pool_db p))"

text \<open>The vector of answers is passed by value: the caller's stays as it is.\<close>

definition check_for_key_images :: "tx_memory_pool \<Rightarrow> bytes list \<Rightarrow> bool list \<Rightarrow> bool \<times> bool list" where
  "check_for_key_images p key_images spent = (let answers = map (have_tx_keyimg_as_spent p) key_images in (True, spent))"

subsection \<open>Filling a block template\<close>

text \<open>What is read of the chain: its height, the ids of its blocks, the spent key images.\<close>

record chain_view =
  cv_height :: u64
  cv_block_id :: "u64 \<Rightarrow> bytes"
  cv_spent :: "bytes \<Rightarrow> bool"

definition no_flags :: tx_verification_context where
  "no_flags = \<lparr>m_should_be_relayed = False, m_verifivation_failed = False, m_verifivation_impossible = False,
     m_added_to_pool = False, m_low_mixin = False, m_double_spend = False, m_invalid_input = False,
     m_invalid_output = False, m_too_big = False, m_overspend = False, m_fee_too_low = False, m_not_rct = False\<rparr>"

definition is_transaction_ready_to_go ::
    "input_checker \<Rightarrow> chain_view \<Rightarrow> tx_memory_pool \<Rightarrow> pool_entry \<Rightarrow>
     bool \<times> txpool_tx_meta_t \<times> tx_memory_pool" where
  "is_transaction_ready_to_go chain_check_inputs cv p e =
     (let txd = pe_meta e;
          failed_here = (if max_used_block_id txd = null_hash
            then last_failed_id txd \<noteq> null_hash \<and> cv_height cv > last_failed_height txd
              \<and> last_failed_id txd = cv_block_id cv (last_failed_height txd)
            else max_used_block_height txd \<ge> cv_height cv \<or> last_failed_id txd = cv_block_id cv (last_failed_height txd)) in
      if failed_here then (False, txd, p)
      else
        let ((r, _, max_height, max_id), p) = check_tx_inputs chain_check_inputs p (pe_tx e) (pe_id e)
            (no_flags, max_used_block_height txd, max_used_block_id txd) False;
            txd = txd\<lparr>max_used_block_height := max_height, max_used_block_id := max_id\<rparr> in
        if \<not> r then
          (False, txd\<lparr>last_failed_height := cv_height cv - 1, last_failed_id := cv_block_id cv (cv_height cv - 1)\<rparr>, p)
        else if list_ex (\<lambda>i. case txin_k_image i of None \<Rightarrow> True | Some k \<Rightarrow> cv_spent cv k) (vin (pe_tx e))
        then (False, txd\<lparr>double_spend_seen := True\<rparr>, p)
        else (True, txd, p))"

record template_state =
  ts_hashes :: "bytes list"
  ts_weight :: u64
  ts_fee :: u64
  ts_best :: u64
  ts_images :: "bytes list"
  ts_pool :: tx_memory_pool

definition tx_images :: "transaction \<Rightarrow> bytes list" where
  "tx_images tx = List.map_filter txin_k_image (takeWhile (\<lambda>i. txin_k_image i \<noteq> None) (vin tx))"

definition have_key_images :: "bytes list \<Rightarrow> transaction \<Rightarrow> bool" where
  "have_key_images k_images tx = list_ex (\<lambda>k. k \<in> set k_images) (tx_images tx)"

definition max_total_weight :: "u8 \<Rightarrow> u64 \<Rightarrow> u64" where
  "max_total_weight ver median_weight =
     (if ver \<ge> 5 then 2 * median_weight - CRYPTONOTE_COINBASE_BLOB_RESERVED_SIZE
      else 130 * median_weight div 100 - CRYPTONOTE_COINBASE_BLOB_RESERVED_SIZE)"

text \<open>
  The coinbase with one more transaction, or \<open>None\<close> to skip it: from version 5 on it must not get less. A
  failed assertion in the reward, for weights that do not fit in 32 bits, skips it as well.
\<close>

definition next_coinbase :: "(u64 \<Rightarrow> u64) \<Rightarrow> u64 \<Rightarrow> u64 \<Rightarrow> u8 \<Rightarrow> u64 \<Rightarrow> template_state \<Rightarrow> txpool_tx_meta_t \<Rightarrow> u64 option" where
  "next_coinbase accept_threshold median_weight coins ver height st meta =
     (if ver \<ge> 5 then
        (case get_block_reward median_weight (ts_weight st + meta_weight meta) coins ver height of
           Reward block_reward \<Rightarrow>
             let coinbase = block_reward + ts_fee st + meta_fee meta in
             if coinbase < accept_threshold (ts_best st) then None else Some coinbase
         | _ \<Rightarrow> None)
      else Some 0)"

fun append_key_images :: "bytes list \<Rightarrow> bytes list \<Rightarrow> bytes list" where
  "append_key_images k_images [] = k_images"
| "append_key_images k_images (k # ks) = (if k \<in> set k_images then k_images else append_key_images (k # k_images) ks)"

text \<open>One transaction of the sorted container; \<open>True\<close> ends the loop.\<close>

definition fill_step ::
    "(u64 \<Rightarrow> u64) \<Rightarrow> input_checker \<Rightarrow> chain_view \<Rightarrow> u64 \<Rightarrow> u64 \<Rightarrow> u8 \<Rightarrow> u64 \<Rightarrow> bytes \<Rightarrow> template_state \<Rightarrow> bool \<times> template_state" where
  "fill_step accept_threshold chain_check cv median_weight coins ver height txid st =
     (case find_entry (ts_pool st) txid of
        None \<Rightarrow> (False, st)
      | Some e \<Rightarrow>
          if max_total_weight ver median_weight < ts_weight st + meta_weight (pe_meta e) then (False, st)
          else if \<not> ver \<ge> 5 \<and> ts_weight st > median_weight then (True, st)
          else case next_coinbase accept_threshold median_weight coins ver height st (pe_meta e) of
            None \<Rightarrow> (False, st)
          | Some coinbase \<Rightarrow>
              let (ready, meta, p) = is_transaction_ready_to_go chain_check cv (ts_pool st) e;
                  p = (if meta \<noteq> pe_meta e then update_txpool_tx p txid meta else p);
                  st = st\<lparr>ts_pool := p\<rparr> in
              if \<not> ready \<or> have_key_images (ts_images st) (pe_tx e) then (False, st)
              else (False, st\<lparr>ts_hashes := ts_hashes st @ [txid], ts_weight := ts_weight st + meta_weight meta,
                ts_fee := ts_fee st + meta_fee meta, ts_best := coinbase,
                ts_images := append_key_images (ts_images st) (tx_images (pe_tx e))\<rparr>))"

fun fill_loop :: "(bytes \<Rightarrow> template_state \<Rightarrow> bool \<times> template_state) \<Rightarrow> sorted_entry list \<Rightarrow> template_state \<Rightarrow> template_state" where
  "fill_loop step [] st = st"
| "fill_loop step (x # xs) st = (case step (snd x) st of (stop, st) \<Rightarrow> if stop then st else fill_loop step xs st)"

definition fill_block_template ::
    "(u64 \<Rightarrow> u64) \<Rightarrow> input_checker \<Rightarrow> chain_view \<Rightarrow>
     tx_memory_pool \<Rightarrow> bytes list \<Rightarrow> u64 \<Rightarrow> u64 \<Rightarrow> u8 \<Rightarrow> u64 \<Rightarrow> template_state" where
  "fill_block_template accept_threshold chain_check cv p hashes median_weight coins ver height =
     (let best = (case get_block_reward median_weight 0 coins ver height of Reward r \<Rightarrow> r | _ \<Rightarrow> 0) in
      fill_loop (fill_step accept_threshold chain_check cv median_weight coins ver height) (m_txs_by_fee_and_receive_time p)
        \<lparr>ts_hashes = hashes, ts_weight = 0, ts_fee = 0, ts_best = best, ts_images = [], ts_pool = p\<rparr>)"

subsection \<open>Invariant\<close>

text \<open>A transaction that spends key images only, at least one, and none twice.\<close>

definition spendable :: "transaction \<Rightarrow> bool" where
  "spendable tx \<longleftrightarrow> vin tx \<noteq> [] \<and> list_all (\<lambda>i. txin_k_image i \<noteq> None) (vin tx) \<and> distinct (tx_images tx)"

definition entry_ok :: "pool_entry \<Rightarrow> bool" where
  "entry_ok e \<longleftrightarrow> pe_id e = tx_hash (pe_tx e) \<and> spendable (pe_tx e)
     \<and> get_transaction_weight_blob (pe_tx e) (of_nat (length (tx_to_blob (pe_tx e)))) = Some (meta_weight (pe_meta e))"

definition spenders :: "pool_entry list \<Rightarrow> bytes \<Rightarrow> bytes set" where
  "spenders db k = pe_id ` {e \<in> set db. k \<in> set (tx_images (pe_tx e))}"

text \<open>The index of key images holds, for each image, the transactions that spend it.\<close>

definition index_ok :: "pool_entry list \<Rightarrow> (bytes \<Rightarrow> bytes list option) \<Rightarrow> bool" where
  "index_ok db ki \<longleftrightarrow> (\<forall>k. case ki k of
     None \<Rightarrow> spenders db k = {}
   | Some s \<Rightarrow> s \<noteq> [] \<and> set s = spenders db k)"

text \<open>Transactions that did not come from a popped block share no key image.\<close>

definition exclusive :: "pool_entry list \<Rightarrow> bool" where
  "exclusive db \<longleftrightarrow> (\<forall>e\<in>set db. \<forall>e'\<in>set db. \<not> kept_by_block (pe_meta e) \<and> \<not> kept_by_block (pe_meta e') \<and> pe_id e \<noteq> pe_id e'
     \<longrightarrow> set (tx_images (pe_tx e)) \<inter> set (tx_images (pe_tx e')) = {})"

definition db_ok :: "pool_entry list \<Rightarrow> (bytes \<Rightarrow> bytes list option) \<Rightarrow> bool" where
  "db_ok db ki \<longleftrightarrow> list_all entry_ok db \<and> distinct (map pe_id db) \<and> exclusive db \<and> index_ok db ki"

definition sorted_ok :: "pool_entry list \<Rightarrow> sorted_entry list \<Rightarrow> bool" where
  "sorted_ok db srt \<longleftrightarrow> distinct (map snd srt) \<and> set (map snd srt) = set (map pe_id db)"

definition pool_struct :: "tx_memory_pool \<Rightarrow> bool" where
  "pool_struct p \<longleftrightarrow> db_ok (pool_db p) (m_spent_key_images p) \<and> sorted_ok (pool_db p) (m_txs_by_fee_and_receive_time p)"

text \<open>The recorded weight is the sum of the weights, modulo \<open>2\<^sup>6\<^sup>4\<close>.\<close>

definition weight_ok :: "tx_memory_pool \<Rightarrow> bool" where
  "weight_ok p \<longleftrightarrow> m_txpool_weight p = sum_list (map (\<lambda>e. meta_weight (pe_meta e)) (pool_db p))"

lemma tx_images_Cons:
  "list_all (\<lambda>i. txin_k_image i \<noteq> None) is \<Longrightarrow>
    List.map_filter txin_k_image (takeWhile (\<lambda>i. txin_k_image i \<noteq> None) is) = List.map_filter txin_k_image is"
  by (induction "is") (auto simp: map_filter_simps)

lemma spendable_images: "spendable tx \<Longrightarrow> tx_images tx = List.map_filter txin_k_image (vin tx)"
  using tx_images_Cons [of "vin tx"] by (simp add: spendable_def tx_images_def)

lemma spendable_image: "spendable tx \<Longrightarrow> \<exists>k. k \<in> set (tx_images tx)"
proof -
  assume a: "spendable tx"
  then obtain i "is" k where "vin tx = i # is" "txin_k_image i = Some k" by (cases "vin tx") (auto simp: spendable_def)
  with spendable_images [OF a] show ?thesis by (auto simp: map_filter_simps)
qed

lemma insert_images_ok:
  assumes "list_all (\<lambda>i. txin_k_image i \<noteq> None) is" "distinct (List.map_filter txin_k_image is)"
    "\<And>k. k \<in> set (List.map_filter txin_k_image is) \<Longrightarrow> (kept \<or> ki k = None) \<and> (\<forall>s. ki k = Some s \<longrightarrow> txid \<notin> set s)"
  shows "insert_images txid kept is ki = (True, \<lambda>k. if k \<in> set (List.map_filter txin_k_image is)
    then Some (txid # (case ki k of None \<Rightarrow> [] | Some s \<Rightarrow> s)) else ki k)"
  using assms
proof (induction "is" arbitrary: ki)
  case (Cons i "is")
  from Cons.prems(1) obtain k where k: "txin_k_image i = Some k" by auto
  define s where "s = (case ki k of None \<Rightarrow> [] | Some s \<Rightarrow> s)"
  have first: "kept \<or> s = []" "txid \<notin> set s"
    using Cons.prems(3) [of k] by (auto simp: map_filter_simps k s_def split: option.splits)
  have "insert_images txid kept is (ki(k \<mapsto> txid # s)) = (True, \<lambda>k'. if k' \<in> set (List.map_filter txin_k_image is)
    then Some (txid # (case (ki(k \<mapsto> txid # s)) k' of None \<Rightarrow> [] | Some s \<Rightarrow> s)) else (ki(k \<mapsto> txid # s)) k')"
  proof (rule Cons.IH)
    show "list_all (\<lambda>i. txin_k_image i \<noteq> None) is" "distinct (List.map_filter txin_k_image is)"
      using Cons.prems(1,2) by (simp_all add: map_filter_simps k)
    show "(kept \<or> (ki(k \<mapsto> txid # s)) k' = None) \<and> (\<forall>s'. (ki(k \<mapsto> txid # s)) k' = Some s' \<longrightarrow> txid \<notin> set s')"
      if "k' \<in> set (List.map_filter txin_k_image is)" for k'
      using that Cons.prems(2) Cons.prems(3) [of k'] by (auto simp: map_filter_simps k)
  qed
  then show ?case using first Cons.prems(2) k
    by (auto simp: map_filter_simps Let_def s_def [symmetric] fun_eq_iff)
qed (simp add: map_filter_simps)

lemma remove_images_ok:
  assumes "list_all (\<lambda>i. txin_k_image i \<noteq> None) is" "distinct (List.map_filter txin_k_image is)"
    "\<And>k. k \<in> set (List.map_filter txin_k_image is) \<Longrightarrow> \<exists>s. ki k = Some s \<and> txid \<in> set s"
  shows "remove_images txid is ki = (True, \<lambda>k. if k \<in> set (List.map_filter txin_k_image is)
    then (let s = filter (\<lambda>h. h \<noteq> txid) (the (ki k)) in if s = [] then None else Some s) else ki k)"
  using assms
proof (induction "is" arbitrary: ki)
  case (Cons i "is")
  from Cons.prems(1) obtain k where k: "txin_k_image i = Some k" by auto
  obtain s where s: "ki k = Some s" "txid \<in> set s" using Cons.prems(3) [of k] by (auto simp: map_filter_simps k)
  define ki' where "ki' = ki(k := if filter (\<lambda>h. h \<noteq> txid) s = [] then None else Some (filter (\<lambda>h. h \<noteq> txid) s))"
  have "remove_images txid is ki' = (True, \<lambda>k'. if k' \<in> set (List.map_filter txin_k_image is)
    then (let s = filter (\<lambda>h. h \<noteq> txid) (the (ki' k')) in if s = [] then None else Some s) else ki' k')"
  proof (rule Cons.IH)
    show "list_all (\<lambda>i. txin_k_image i \<noteq> None) is" "distinct (List.map_filter txin_k_image is)"
      using Cons.prems(1,2) by (simp_all add: map_filter_simps k)
    show "\<exists>s. ki' k' = Some s \<and> txid \<in> set s" if "k' \<in> set (List.map_filter txin_k_image is)" for k'
      using that Cons.prems(2) Cons.prems(3) [of k'] by (auto simp: map_filter_simps k ki'_def)
  qed
  moreover have "remove_images txid (i # is) ki = remove_images txid is ki'"
    using s by (auto simp: k ki'_def Let_def)
  ultimately show ?case using Cons.prems(2) k s
    by (auto simp: map_filter_simps Let_def ki'_def fun_eq_iff)
qed (simp add: map_filter_simps)

lemma sorted_emplace_ids:
  "snd e \<notin> set (map snd xs) \<Longrightarrow> set (map snd (sorted_emplace e xs)) = insert (snd e) (set (map snd xs))"
  by (induction e xs rule: sorted_emplace.induct) (auto simp: txCompare_def)

lemma sorted_emplace_distinct:
  "snd e \<notin> set (map snd xs) \<Longrightarrow> distinct (map snd xs) \<Longrightarrow> distinct (map snd (sorted_emplace e xs))"
proof (induction e xs rule: sorted_emplace.induct)
  case (2 e x xs)
  then show ?case using sorted_emplace_ids [of e xs] by auto
qed simp

lemma erase_first_ids: "distinct (map snd xs) \<Longrightarrow> set (map snd (erase_first t xs)) = set (map snd xs) - {t} \<and> distinct (map snd (erase_first t xs))"
  by (induction t xs rule: erase_first.induct) (auto intro: rev_image_eqI)

lemma remove1_ids:
  "distinct (map snd xs) \<Longrightarrow> e \<in> set xs \<Longrightarrow> set (map snd (remove1 e xs)) = set (map snd xs) - {snd e} \<and> distinct (map snd (remove1 e xs))"
proof (induction xs)
  case (Cons x xs)
  have "snd e \<in> snd ` set xs" if "e \<in> set xs" using that by (rule imageI)
  then show ?case using Cons by auto
qed simp

lemma find_entry_Some: "find_entry p t = Some e \<Longrightarrow> e \<in> set (pool_db p) \<and> pe_id e = t"
  by (auto simp: find_entry_def find_Some_iff)

lemma find_entry_None: "find_entry p t = None \<longleftrightarrow> t \<notin> set (map pe_id (pool_db p))"
  by (auto simp: find_entry_def find_None_iff)

lemma spenders_Cons: "spenders (e # db) k = (if k \<in> set (tx_images (pe_tx e)) then insert (pe_id e) (spenders db k) else spenders db k)"
  by (auto simp: spenders_def)

lemma spenders_remove:
  "distinct (map pe_id db) \<Longrightarrow> spenders (filter (\<lambda>e. pe_id e \<noteq> t) db) k = spenders db k - {t}"
  by (auto simp: spenders_def)

lemma exclusive_Cons:
  assumes "exclusive db" "pe_id e \<notin> set (map pe_id db)"
    "kept_by_block (pe_meta e) \<or> (\<forall>k \<in> set (tx_images (pe_tx e)). spenders db k = {})"
  shows "exclusive (e # db)"
proof -
  have "set (tx_images (pe_tx e)) \<inter> set (tx_images (pe_tx e')) = {}" if "e' \<in> set db" "\<not> kept_by_block (pe_meta e)" for e'
    using assms(3) that by (auto simp: spenders_def)
  then show ?thesis using assms(1) unfolding exclusive_def by (auto simp: Int_commute)
qed

lemma exclusive_filter: "exclusive db \<Longrightarrow> exclusive (filter P db)"
  by (simp add: exclusive_def)

lemma index_ok_cong: "spenders db' = spenders db \<Longrightarrow> index_ok db ki \<Longrightarrow> index_ok db' ki"
  unfolding index_ok_def by (elim ssubst)

lemma index_ok_None: "index_ok db ki \<Longrightarrow> ki k = None \<longleftrightarrow> spenders db k = {}"
  unfolding index_ok_def by (drule spec [of _ k]) (auto split: option.splits)

lemma index_ok_Some: "index_ok db ki \<Longrightarrow> ki k = Some s \<Longrightarrow> set s = spenders db k"
  unfolding index_ok_def by (drule spec [of _ k]) (auto split: option.splits)

lemma db_ok_add:
  assumes "db_ok db ki" "entry_ok e" "pe_id e \<notin> set (map pe_id db)" "kept = kept_by_block (pe_meta e)"
    "kept \<or> (\<forall>k \<in> set (tx_images (pe_tx e)). ki k = None)"
  obtains ki' where "insert_images (pe_id e) kept (vin (pe_tx e)) ki = (True, ki')" "db_ok (e # db) ki'"
proof -
  define ks where "ks = tx_images (pe_tx e)"
  have sp: "list_all (\<lambda>i. txin_k_image i \<noteq> None) (vin (pe_tx e))" "distinct ks"
    "List.map_filter txin_k_image (vin (pe_tx e)) = ks"
    using assms(2) spendable_images [of "pe_tx e"] by (auto simp: entry_ok_def spendable_def ks_def)
  have idx: "index_ok db ki" and exc: "exclusive db" using assms(1) by (simp_all add: db_ok_def)
  have new: "pe_id e \<notin> set s" if "ki k = Some s" for k s
    using index_ok_Some [OF idx that] assms(3) by (auto simp: spenders_def)
  define ki' where "ki' = (\<lambda>k. if k \<in> set ks then Some (pe_id e # (case ki k of None \<Rightarrow> [] | Some s \<Rightarrow> s)) else ki k)"
  have "insert_images (pe_id e) kept (vin (pe_tx e)) ki = (True, ki')"
    using insert_images_ok [OF sp(1), unfolded sp(3), OF sp(2), of kept ki "pe_id e"] assms(5) new
    by (auto simp: ki'_def ks_def)
  moreover have "index_ok (e # db) ki'"
    unfolding index_ok_def
  proof
    fix k
    show "case ki' k of None \<Rightarrow> spenders (e # db) k = {} | Some s \<Rightarrow> s \<noteq> [] \<and> set s = spenders (e # db) k"
      using spec [OF idx [unfolded index_ok_def], of k] by (auto simp: ki'_def spenders_Cons ks_def split: option.splits)
  qed
  moreover have "exclusive (e # db)"
    using exclusive_Cons [OF exc assms(3)] assms(4,5) index_ok_None [OF idx] by auto
  ultimately have "db_ok (e # db) ki'" using assms(1-3) by (simp add: db_ok_def)
  with \<open>insert_images _ _ _ _ = _\<close> show thesis by (rule that)
qed

lemma db_ok_remove:
  assumes "db_ok db ki" "e \<in> set db"
  obtains ki' where "remove_images (tx_hash (pe_tx e)) (vin (pe_tx e)) ki = (True, ki')"
    "db_ok (filter (\<lambda>e'. pe_id e' \<noteq> pe_id e) db) ki'"
proof -
  define ks where "ks = tx_images (pe_tx e)"
  have ok: "entry_ok e" using assms(1,2) by (auto simp: db_ok_def list_all_iff)
  then have sp: "list_all (\<lambda>i. txin_k_image i \<noteq> None) (vin (pe_tx e))" "distinct ks"
    "List.map_filter txin_k_image (vin (pe_tx e)) = ks" and id: "tx_hash (pe_tx e) = pe_id e"
    using spendable_images [of "pe_tx e"] by (auto simp: entry_ok_def spendable_def ks_def)
  have idx: "index_ok db ki" and dist: "distinct (map pe_id db)" using assms(1) by (simp_all add: db_ok_def)
  have there: "\<exists>s. ki k = Some s \<and> pe_id e \<in> set s" if "k \<in> set ks" for k
  proof -
    have "pe_id e \<in> spenders db k" using that assms(2) by (auto simp: spenders_def ks_def)
    then show ?thesis using index_ok_None [OF idx, of k] index_ok_Some [OF idx, of k] by (cases "ki k") auto
  qed
  define ki' where "ki' = (\<lambda>k. if k \<in> set ks
    then (let s = filter (\<lambda>h. h \<noteq> pe_id e) (the (ki k)) in if s = [] then None else Some s) else ki k)"
  have "remove_images (tx_hash (pe_tx e)) (vin (pe_tx e)) ki = (True, ki')"
    using remove_images_ok [OF sp(1), unfolded sp(3), OF sp(2), of ki "pe_id e"] there by (simp add: ki'_def id)
  moreover have "index_ok (filter (\<lambda>e'. pe_id e' \<noteq> pe_id e) db) ki'"
    unfolding index_ok_def
  proof
    fix k
    have sub: "pe_id e \<notin> spenders db k" if "k \<notin> set ks"
      using that assms(2) dist by (auto simp: spenders_def ks_def distinct_map dest: inj_onD)
    show "case ki' k of None \<Rightarrow> spenders (filter (\<lambda>e'. pe_id e' \<noteq> pe_id e) db) k = {}
      | Some s \<Rightarrow> s \<noteq> [] \<and> set s = spenders (filter (\<lambda>e'. pe_id e' \<noteq> pe_id e) db) k"
    proof (cases "k \<in> set ks")
      case True
      then obtain s where s: "ki k = Some s" using there by blast
      define s' where "s' = filter (\<lambda>h. h \<noteq> pe_id e) s"
      have "spenders db k - {pe_id e} = set s'" using index_ok_Some [OF idx s] by (auto simp: s'_def)
      moreover have "ki' k = (if s' = [] then None else Some s')" using True s by (simp add: ki'_def s'_def Let_def)
      ultimately show ?thesis unfolding spenders_remove [OF dist] by (cases "s' = []") simp_all
    next
      case False
      then show ?thesis using sub spec [OF idx [unfolded index_ok_def], of k]
        by (auto simp: ki'_def spenders_remove [OF dist] split: option.splits)
    qed
  qed
  then have "db_ok (filter (\<lambda>e'. pe_id e' \<noteq> pe_id e) db) ki'"
    using assms dist exclusive_filter by (auto simp: db_ok_def list_all_iff distinct_map_filter)
  ultimately show thesis by (rule that)
qed

subsection \<open>Removing keeps the invariant\<close>

lemma filter_other: "t \<notin> set (map pe_id db) \<Longrightarrow> filter (\<lambda>e. pe_id e \<noteq> t) db = db"
  by (induction db) auto

lemma sum_remove:
  fixes w :: "pool_entry \<Rightarrow> u64"
  assumes "distinct (map pe_id db)" "e \<in> set db"
  shows "sum_list (map w (filter (\<lambda>e'. pe_id e' \<noteq> pe_id e) db)) = sum_list (map w db) - w e"
  using assms
proof (induction db)
  case (Cons a db)
  show ?case
  proof (cases "pe_id a = pe_id e")
    case True
    with Cons.prems have "a = e" by force
    moreover have "filter (\<lambda>e'. pe_id e' \<noteq> pe_id e) db = db" using Cons.prems(1) True by (intro filter_other) simp
    ultimately show ?thesis by simp
  next
    case False
    then show ?thesis using Cons by auto
  qed
qed simp

definition removed :: "tx_memory_pool \<Rightarrow> pool_entry \<Rightarrow> u64 \<Rightarrow> tx_memory_pool" where
  "removed p e w = snd (remove_transaction_keyimages ((remove_txpool_tx p (pe_id e))\<lparr>m_txpool_weight := w\<rparr>) (pe_tx e))"

lemma removed_fields [simp]:
  "pool_db (removed p e w) = filter (\<lambda>e'. pe_id e' \<noteq> pe_id e) (pool_db p)"
  "m_txs_by_fee_and_receive_time (removed p e w) = m_txs_by_fee_and_receive_time p"
  "m_txpool_weight (removed p e w) = w"
  by (auto simp: removed_def remove_transaction_keyimages_def remove_txpool_tx_def bump_cookie_def split: prod.splits)

lemma removed_ok:
  assumes "db_ok (pool_db p) (m_spent_key_images p)" "e \<in> set (pool_db p)"
  shows "db_ok (pool_db (removed p e w)) (m_spent_key_images (removed p e w))"
proof -
  obtain ki' where ki': "remove_images (tx_hash (pe_tx e)) (vin (pe_tx e)) (m_spent_key_images p) = (True, ki')"
    "db_ok (filter (\<lambda>e'. pe_id e' \<noteq> pe_id e) (pool_db p)) ki'"
    using db_ok_remove [OF assms] by blast
  then have "m_spent_key_images (removed p e w) = ki'"
    by (simp add: removed_def remove_transaction_keyimages_def remove_txpool_tx_def bump_cookie_def)
  with ki'(2) show ?thesis by simp
qed

lemma removed_struct:
  assumes "pool_struct p" "e \<in> set (pool_db p)" "distinct (map snd srt)"
    "set (map snd srt) = set (map snd (m_txs_by_fee_and_receive_time p)) - {pe_id e}"
  shows "pool_struct ((removed p e w)\<lparr>m_txs_by_fee_and_receive_time := srt\<rparr>)"
  using assms removed_ok [of p e w] by (auto simp: pool_struct_def sorted_ok_def)

lemma removed_weight:
  assumes "db_ok (pool_db p) ki" "e \<in> set (pool_db p)" "weight_ok p"
  shows "weight_ok (removed p e (m_txpool_weight p - meta_weight (pe_meta e)))"
  using assms sum_remove [of "pool_db p" e] by (simp add: weight_ok_def db_ok_def)

lemma pool_struct_bump [simp]: "pool_struct (bump_cookie p) = pool_struct p" "weight_ok (bump_cookie p) = weight_ok p"
  by (simp_all add: pool_struct_def weight_ok_def bump_cookie_def)

lemma bump_fields [simp]:
  "pool_db (bump_cookie p) = pool_db p" "m_txpool_weight (bump_cookie p) = m_txpool_weight p"
  "m_txpool_max_weight (bump_cookie p) = m_txpool_max_weight p" "m_spent_key_images (bump_cookie p) = m_spent_key_images p"
  "m_txs_by_fee_and_receive_time (bump_cookie p) = m_txs_by_fee_and_receive_time p"
  by (simp_all add: bump_cookie_def)

lemma weight_ok_sorted [simp]: "weight_ok (p\<lparr>m_txs_by_fee_and_receive_time := srt\<rparr>) = weight_ok p"
  by (simp add: weight_ok_def)

lemma struct_find:
  assumes "pool_struct p" "find_entry p t = Some e"
  shows "e \<in> set (pool_db p)" "pe_id e = t" "tx_hash (pe_tx e) = t" "spendable (pe_tx e)"
    "get_transaction_weight_blob (pe_tx e) (of_nat (length (tx_to_blob (pe_tx e)))) = Some (meta_weight (pe_meta e))"
  using assms find_entry_Some [OF assms(2)] by (auto simp: pool_struct_def db_ok_def list_all_iff entry_ok_def)

lemma take_tx_found:
  assumes "pool_struct p" "find_entry p txid = Some e"
  shows "take_tx p txid = (Some (pe_tx e, pe_meta e),
    bump_cookie (sorted_erase (removed p e (m_txpool_weight p - meta_weight (pe_meta e))) txid))"
proof -
  note e = struct_find [OF assms]
  from e(1,2) have "txid \<in> set (map pe_id (pool_db p))" by auto
  then have "txid \<in> set (map snd (m_txs_by_fee_and_receive_time p))"
    using assms(1) by (simp add: pool_struct_def sorted_ok_def)
  then have "in_sorted_container p txid" by (auto simp: in_sorted_container_def list_ex_iff)
  then show ?thesis using e(2) assms(2) by (simp add: take_tx_def removed_def remove_txpool_tx_def Let_def)
qed

lemma take_tx_not_found:
  assumes "find_entry p txid = None"
  shows "take_tx p txid = (None, p)"
  using assms by (simp add: take_tx_def)

lemma take_tx_struct:
  assumes "pool_struct p"
  shows "pool_struct (snd (take_tx p txid))" and "weight_ok p \<Longrightarrow> weight_ok (snd (take_tx p txid))"
proof -
  show "pool_struct (snd (take_tx p txid))"
  proof (cases "find_entry p txid")
    case (Some e)
    note e = struct_find [OF assms Some]
    have "pool_struct (sorted_erase (removed p e w) txid)" for w
      unfolding sorted_erase_def
      unfolding removed_fields
      using erase_first_ids [of "m_txs_by_fee_and_receive_time p" txid] assms e(2)
      by (intro removed_struct [OF assms e(1)]) (auto simp: pool_struct_def sorted_ok_def)
    then show ?thesis by (simp add: take_tx_found [OF assms Some])
  qed (simp add: take_tx_not_found assms)
  show "weight_ok (snd (take_tx p txid))" if "weight_ok p"
  proof (cases "find_entry p txid")
    case (Some e)
    have "db_ok (pool_db p) (m_spent_key_images p)" using assms by (simp add: pool_struct_def)
    from removed_weight [OF this _ that, of e] struct_find [OF assms Some]
    show ?thesis by (simp add: take_tx_found [OF assms Some] sorted_erase_def)
  qed (simp add: take_tx_not_found that)
qed

lemma prune_loop_removed:
  assumes "find_entry p (snd e) = Some entry" "\<not> kept_by_block (pe_meta entry)" "\<not> m_txpool_weight p \<le> b"
  shows "prune_loop b (e # es) p changed = prune_loop b es
    ((removed p entry (m_txpool_weight p - snd (fst e)))\<lparr>m_txs_by_fee_and_receive_time := remove1 e (m_txs_by_fee_and_receive_time p)\<rparr>) True"
proof -
  have "snd (remove_transaction_keyimages ((remove_txpool_tx p (snd e))\<lparr>m_txpool_weight := m_txpool_weight (remove_txpool_tx p (snd e)) - snd (fst e)\<rparr>)
    (pe_tx entry)) = removed p entry (m_txpool_weight p - snd (fst e))"
    using find_entry_Some [OF assms(1)] by (simp add: removed_def remove_txpool_tx_def)
  then show ?thesis using assms by (simp add: Let_def)
qed

lemma prune_loop_struct:
  assumes "pool_struct p" "set es \<subseteq> set (m_txs_by_fee_and_receive_time p)" "distinct es"
  shows "pool_struct (prune_loop b es p changed)"
  using assms
proof (induction es arbitrary: p changed)
  case (Cons e es)
  show ?case
  proof (cases "m_txpool_weight p \<le> b \<or> find_entry p (snd e) = None")
    case True
    with Cons.prems(1) show ?thesis by auto
  next
    case False
    then obtain entry where entry: "find_entry p (snd e) = Some entry" by auto
    note f = struct_find [OF Cons.prems(1) entry]
    show ?thesis
    proof (cases "kept_by_block (pe_meta entry)")
      case True
      with Cons False entry show ?thesis by simp
    next
      case kept: False
      define p' where "p' = (removed p entry (m_txpool_weight p - snd (fst e)))\<lparr>m_txs_by_fee_and_receive_time :=
        remove1 e (m_txs_by_fee_and_receive_time p)\<rparr>"
      have dist: "distinct (map snd (m_txs_by_fee_and_receive_time p))"
        using Cons.prems(1) by (simp add: pool_struct_def sorted_ok_def)
      have "pool_struct p'" unfolding p'_def
        using removed_struct [OF Cons.prems(1) f(1)] remove1_ids [OF dist, of e] Cons.prems(2) f(2) by simp
      moreover have "set es \<subseteq> set (m_txs_by_fee_and_receive_time p')"
      proof
        fix x assume "x \<in> set es"
        then have "x \<noteq> e" "x \<in> set (m_txs_by_fee_and_receive_time p)" using Cons.prems(2,3) by auto
        then show "x \<in> set (m_txs_by_fee_and_receive_time p')" by (simp add: p'_def in_set_remove1)
      qed
      ultimately have "pool_struct (prune_loop b es p' True)" using Cons.prems(3) by (intro Cons.IH) simp_all
      then show ?thesis using prune_loop_removed [OF entry kept, of b] False by (simp add: p'_def)
    qed
  qed
qed simp

lemma prune_struct:
  assumes "pool_struct p"
  shows "pool_struct (prune p b)"
proof -
  have "distinct (m_txs_by_fee_and_receive_time p)" using assms by (auto simp: pool_struct_def sorted_ok_def distinct_map)
  moreover have "set (tl xs) \<subseteq> set xs" for xs :: "sorted_entry list" by (cases xs) auto
  ultimately show ?thesis unfolding prune_def
    using assms by (intro prune_loop_struct) (simp_all add: distinct_tl)
qed

lemma prune_fits:
  assumes "m_txpool_weight p \<le> m_txpool_max_weight p"
  shows "prune p (m_txpool_max_weight p) = p"
  using assms by (cases "rev (tl (m_txs_by_fee_and_receive_time p))") (auto simp: prune_def)

subsection \<open>Updating metadata keeps the invariant\<close>

definition meta_update :: "(pool_entry \<Rightarrow> pool_entry) \<Rightarrow> bool" where
  "meta_update f \<longleftrightarrow> (\<forall>e. pe_id (f e) = pe_id e \<and> pe_tx (f e) = pe_tx e
     \<and> kept_by_block (pe_meta (f e)) = kept_by_block (pe_meta e) \<and> meta_weight (pe_meta (f e)) = meta_weight (pe_meta e))"

lemma meta_update_db:
  assumes "meta_update f"
  shows "db_ok db ki \<Longrightarrow> db_ok (map f db) ki" "map pe_id (map f db) = map pe_id db"
    "map (\<lambda>e. meta_weight (pe_meta e)) (map f db) = map (\<lambda>e. meta_weight (pe_meta e)) db"
proof -
  note u = assms [unfolded meta_update_def, rule_format]
  have sp: "spenders (map f db) k = spenders db k" for k
  proof
    show "spenders (map f db) k \<subseteq> spenders db k" by (auto simp: spenders_def u)
    show "spenders db k \<subseteq> spenders (map f db) k"
    proof
      fix h assume "h \<in> spenders db k"
      then obtain e where e: "e \<in> set db" "k \<in> set (tx_images (pe_tx e))" "h = pe_id e" by (auto simp: spenders_def)
      then have "f e \<in> {e \<in> set (map f db). k \<in> set (tx_images (pe_tx e))}" "h = pe_id (f e)" by (simp_all add: u)
      then show "h \<in> spenders (map f db) k" unfolding spenders_def by blast
    qed
  qed
  show ids: "map pe_id (map f db) = map pe_id db" by (simp add: u)
  show "map (\<lambda>e. meta_weight (pe_meta e)) (map f db) = map (\<lambda>e. meta_weight (pe_meta e)) db" by (simp add: u)
  assume ok: "db_ok db ki"
  have "list_all entry_ok (map f db)" using ok by (simp add: db_ok_def list_all_iff entry_ok_def u)
  moreover have "exclusive (map f db)" using ok by (simp add: db_ok_def exclusive_def u)
  moreover have "index_ok (map f db) ki" using ok unfolding db_ok_def index_ok_def sp by simp
  moreover have "distinct (map pe_id (map f db))" unfolding ids using ok by (simp add: db_ok_def)
  ultimately show "db_ok (map f db) ki" by (simp add: db_ok_def)
qed

lemma meta_update_struct:
  assumes "meta_update f" "pool_db p' = map f (pool_db p)" "m_spent_key_images p' = m_spent_key_images p"
    "m_txs_by_fee_and_receive_time p' = m_txs_by_fee_and_receive_time p" "m_txpool_weight p' = m_txpool_weight p"
  shows "pool_struct p \<Longrightarrow> pool_struct p'" "weight_ok p \<Longrightarrow> weight_ok p'"
proof -
  show "pool_struct p'" if "pool_struct p"
    using that meta_update_db(1) [OF assms(1)] arg_cong [OF meta_update_db(2) [OF assms(1), of "pool_db p"], of set]
    by (simp add: pool_struct_def sorted_ok_def assms(2-))
  show "weight_ok p'" if "weight_ok p"
    using that unfolding weight_ok_def assms(2,5) meta_update_db(3) [OF assms(1)] .
qed

lemma meta_update_if:
  "(\<And>e. P e \<Longrightarrow> kept_by_block (m e) = kept_by_block (pe_meta e) \<and> meta_weight (m e) = meta_weight (pe_meta e)) \<Longrightarrow>
    meta_update (\<lambda>e. if P e then e\<lparr>pe_meta := m e\<rparr> else e)"
  by (simp add: meta_update_def)

lemma same_fields_struct:
  assumes "pool_db p' = pool_db p" "m_spent_key_images p' = m_spent_key_images p"
    "m_txs_by_fee_and_receive_time p' = m_txs_by_fee_and_receive_time p" "m_txpool_weight p' = m_txpool_weight p"
  shows "pool_struct p' = pool_struct p" "weight_ok p' = weight_ok p"
  by (simp_all add: pool_struct_def weight_ok_def assms)

lemma mark_double_spend_struct:
  "pool_struct p \<Longrightarrow> pool_struct (mark_double_spend p tx)" "weight_ok p \<Longrightarrow> weight_ok (mark_double_spend p tx)"
proof -
  define ids where "ids = set (concat (map (\<lambda>i. case txin_k_image i of None \<Rightarrow> [] | Some k \<Rightarrow>
    (case m_spent_key_images p k of None \<Rightarrow> [] | Some s \<Rightarrow> s)) (takeWhile (\<lambda>i. txin_k_image i \<noteq> None) (vin tx))))"
  have "pool_db (mark_double_spend p tx) = map (\<lambda>e. if pe_id e \<in> ids
    then e\<lparr>pe_meta := (pe_meta e)\<lparr>double_spend_seen := True\<rparr>\<rparr> else e) (pool_db p)"
    unfolding mark_double_spend_def Let_def ids_def [symmetric] by (simp add: bump_cookie_def)
  note u = meta_update_struct [OF meta_update_if this]
  show "pool_struct p \<Longrightarrow> pool_struct (mark_double_spend p tx)" "weight_ok p \<Longrightarrow> weight_ok (mark_double_spend p tx)"
    by (rule u; simp add: mark_double_spend_def Let_def bump_cookie_def)+
qed

lemma update_txpool_tx_struct:
  assumes "\<And>e. find_entry p t = Some e \<Longrightarrow> kept_by_block m = kept_by_block (pe_meta e) \<and> meta_weight m = meta_weight (pe_meta e)"
    "distinct (map pe_id (pool_db p))"
  shows "pool_struct p \<Longrightarrow> pool_struct (update_txpool_tx p t m)" "weight_ok p \<Longrightarrow> weight_ok (update_txpool_tx p t m)"
proof -
  define f where "f = (\<lambda>e. if pe_id e = t \<and> e \<in> set (pool_db p) then e\<lparr>pe_meta := m\<rparr> else e)"
  have found: "find_entry p t = Some e" if "pe_id e = t" "e \<in> set (pool_db p)" for e
  proof (cases "find_entry p t")
    case None
    with that show ?thesis by (auto simp: find_entry_None)
  next
    case (Some e')
    with find_entry_Some [OF Some] that assms(2) show ?thesis by (auto simp: distinct_map dest: inj_onD)
  qed
  have u: "meta_update f" unfolding f_def by (rule meta_update_if) (use assms(1) found in blast)
  have db: "pool_db (update_txpool_tx p t m) = map f (pool_db p)" by (simp add: update_txpool_tx_def f_def)
  show "pool_struct p \<Longrightarrow> pool_struct (update_txpool_tx p t m)" "weight_ok p \<Longrightarrow> weight_ok (update_txpool_tx p t m)"
    by (rule meta_update_struct [OF u db]; simp add: update_txpool_tx_def)+
qed

lemma struct_distinct: "pool_struct p \<Longrightarrow> distinct (map pe_id (pool_db p))"
  by (simp add: pool_struct_def db_ok_def)

lemma set_relayed_struct: "pool_struct p \<Longrightarrow> pool_struct (set_relayed now p txids)"
proof (induction txids arbitrary: p)
  case (Cons t txids)
  have "pool_struct (set_relayed now p [t])"
  proof (cases "find_entry p t")
    case (Some e)
    have "pool_struct (update_txpool_tx p t ((pe_meta e)\<lparr>relayed := True, last_relayed_time := now\<rparr>))"
      using Some by (intro update_txpool_tx_struct(1) [OF _ struct_distinct [OF Cons.prems] Cons.prems]) simp
    then show ?thesis by (simp add: set_relayed_def Some)
  qed (simp add: set_relayed_def Cons.prems)
  from Cons.IH [OF this] show ?case by (simp add: set_relayed_def)
qed (simp add: set_relayed_def)

lemma on_blockchain_change_struct: "pool_struct (on_blockchain_change p) = pool_struct p"
  by (rule same_fields_struct) (simp_all add: on_blockchain_change_def)

lemma set_txpool_max_weight_struct: "pool_struct (set_txpool_max_weight p b) = pool_struct p"
  by (rule same_fields_struct) (simp_all add: set_txpool_max_weight_def)

subsection \<open>Adding keeps the invariant\<close>

lemma db_ok_replace:
  assumes "db_ok db ki" "old \<in> set db" "pe_id old = pe_id e" "pe_tx old = pe_tx e" "entry_ok e" "kept_by_block (pe_meta e)"
  shows "db_ok (e # filter (\<lambda>e'. pe_id e' \<noteq> pe_id e) db) ki"
proof -
  have dist: "distinct (map pe_id db)" and idx: "index_ok db ki" using assms(1) by (simp_all add: db_ok_def)
  have "spenders (e # filter (\<lambda>e'. pe_id e' \<noteq> pe_id e) db) k = spenders db k" for k
  proof (cases "k \<in> set (tx_images (pe_tx e))")
    case True
    then have "old \<in> {e \<in> set db. k \<in> set (tx_images (pe_tx e))}" using assms(2,4) by simp
    from imageI [OF this, of pe_id] have "pe_id e \<in> spenders db k" by (simp add: spenders_def assms(3))
    then show ?thesis using True by (auto simp: spenders_Cons spenders_remove [OF dist])
  next
    case False
    have "x = old" if "x \<in> set db" "pe_id x = pe_id e" for x
      using that assms(2,3) dist inj_onD [of pe_id "set db" x old] by (simp add: distinct_map)
    then have "pe_id e \<notin> spenders db k" using False assms(4) by (auto simp: spenders_def)
    then show ?thesis using False by (simp add: spenders_Cons spenders_remove [OF dist])
  qed
  then have "spenders (e # filter (\<lambda>e'. pe_id e' \<noteq> pe_id e) db) = spenders db" by (rule ext)
  then have "index_ok (e # filter (\<lambda>e'. pe_id e' \<noteq> pe_id e) db) ki" using idx by (rule index_ok_cong)
  moreover have "exclusive (e # filter (\<lambda>e'. pe_id e' \<noteq> pe_id e) db)"
    using assms(1,6) by (intro exclusive_Cons exclusive_filter) (auto simp: db_ok_def)
  ultimately show ?thesis
    using assms(1,5) dist by (auto simp: db_ok_def list_all_iff distinct_map_filter)
qed

lemma spent_index:
  assumes "spendable tx" "\<not> have_tx_keyimges_as_spent p tx" "k \<in> set (tx_images tx)"
  shows "m_spent_key_images p k = None"
  using assms spendable_images [OF assms(1)]
  by (auto simp: have_tx_keyimges_as_spent_def have_tx_keyimg_as_spent_def list_ex_iff spendable_def map_filter_def)

lemma insert_images_again:
  assumes "db_ok db ki" "e \<in> set db"
  shows "insert_images (pe_id e) kept (vin (pe_tx e)) ki = (False, ki)"
proof -
  have sp: "spendable (pe_tx e)" using assms by (auto simp: db_ok_def list_all_iff entry_ok_def)
  then obtain i "is" k where v: "vin (pe_tx e) = i # is" "txin_k_image i = Some k" by (cases "vin (pe_tx e)") (auto simp: spendable_def)
  with spendable_images [OF sp] have "k \<in> set (tx_images (pe_tx e))" by (simp add: map_filter_simps)
  then have mem: "pe_id e \<in> spenders db k" using assms(2) by (auto simp: spenders_def)
  have idx: "index_ok db ki" using assms(1) by (simp add: db_ok_def)
  obtain s where "ki k = Some s" using index_ok_None [OF idx, of k] mem by (cases "ki k") auto
  with index_ok_Some [OF idx this] mem v show ?thesis by (auto simp: Let_def)
qed

definition new_entry :: "transaction \<Rightarrow> txpool_tx_meta_t \<Rightarrow> pool_entry" where
  "new_entry tx meta = \<lparr>pe_id = tx_hash tx, pe_meta = meta, pe_tx = tx\<rparr>"

lemma store_new:
  assumes "pool_struct p" "entry_ok (new_entry tx meta)" "find_entry p (tx_hash tx) = None"
    "kept_by_block meta \<or> \<not> have_tx_keyimges_as_spent p tx"
  obtains p' where "store_tx fpb p tx (tx_hash tx) meta = (True, p')" "pool_struct p'" "pool_db p' = new_entry tx meta # pool_db p"
    "m_txpool_weight p' = m_txpool_weight p" "m_txpool_max_weight p' = m_txpool_max_weight p"
proof -
  let ?e = "new_entry tx meta"
  have e [simp]: "pe_id ?e = tx_hash tx" "pe_tx ?e = tx" "pe_meta ?e = meta" by (simp_all add: new_entry_def)
  have new: "pe_id ?e \<notin> set (map pe_id (pool_db p))" using assms(3) by (simp add: find_entry_None)
  have "kept_by_block meta \<or> (\<forall>k \<in> set (tx_images (pe_tx ?e)). m_spent_key_images p k = None)"
    using assms(2,4) spent_index [of tx p] by (auto simp: entry_ok_def)
  then obtain ki' where ki': "insert_images (tx_hash tx) (kept_by_block meta) (vin tx) (m_spent_key_images p) = (True, ki')"
    "db_ok (?e # pool_db p) ki'"
    using db_ok_add [OF _ assms(2) new, of "m_spent_key_images p"] assms(1) e unfolding pool_struct_def by metis
  define srt where "srt = sorted_emplace ((fpb (meta_fee meta) (meta_weight meta), receive_time meta), tx_hash tx)
    (m_txs_by_fee_and_receive_time p)"
  have ids: "set (map snd (m_txs_by_fee_and_receive_time p)) = set (map pe_id (pool_db p))"
    "distinct (map snd (m_txs_by_fee_and_receive_time p))" using assms(1) by (simp_all add: pool_struct_def sorted_ok_def)
  let ?x = "((fpb (meta_fee meta) (meta_weight meta), receive_time meta), tx_hash tx)"
  have fresh: "snd ?x \<notin> set (map snd (m_txs_by_fee_and_receive_time p))" unfolding ids(1) using new by simp
  have "sorted_ok (?e # pool_db p) srt"
    unfolding sorted_ok_def srt_def sorted_emplace_ids [OF fresh] ids(1) using sorted_emplace_distinct [OF fresh ids(2)] by simp
  moreover define p' where "p' = (bump_cookie (p\<lparr>pool_db := ?e # pool_db p, m_spent_key_images := ki'\<rparr>))\<lparr>m_txs_by_fee_and_receive_time := srt\<rparr>"
  moreover have "store_tx fpb p tx (tx_hash tx) meta = (True, p')"
    using ki'(1) assms(3)
    by (simp add: store_tx_def add_txpool_tx_def insert_key_images_def new_entry_def srt_def p'_def bump_cookie_def)
  ultimately show thesis using ki'(2) by (intro that [of p']) (simp_all add: pool_struct_def bump_cookie_def)
qed

lemma store_replace:
  assumes "pool_struct p" "entry_ok (new_entry tx meta)" "find_entry p (tx_hash tx) = Some old" "pe_tx old = tx" "kept_by_block meta"
  obtains p' where "store_tx fpb (remove_txpool_tx p (tx_hash tx)) tx (tx_hash tx) meta = (False, p')" "pool_struct p'"
    "weight_ok p \<Longrightarrow> weight_ok p'"
proof -
  let ?e = "new_entry tx meta"
  have e [simp]: "pe_id ?e = tx_hash tx" "pe_tx ?e = tx" "pe_meta ?e = meta" by (simp_all add: new_entry_def)
  note f = struct_find [OF assms(1,3)]
  have db: "db_ok (pool_db p) (m_spent_key_images p)" using assms(1) by (simp add: pool_struct_def)
  define p' where "p' = p\<lparr>pool_db := ?e # filter (\<lambda>e'. pe_id e' \<noteq> pe_id ?e) (pool_db p)\<rparr>"
  have "insert_images (tx_hash tx) (kept_by_block meta) (vin tx) (m_spent_key_images p) = (False, m_spent_key_images p)"
    using insert_images_again [OF db f(1)] f(2) assms(4) by simp
  then have "store_tx fpb (remove_txpool_tx p (tx_hash tx)) tx (tx_hash tx) meta = (False, p')"
    by (auto simp: store_tx_def add_txpool_tx_def insert_key_images_def remove_txpool_tx_def find_entry_None p'_def new_entry_def)
  moreover have "pool_struct p'"
  proof -
    have "db_ok (pool_db p') (m_spent_key_images p')"
      using db_ok_replace [OF db f(1) _ _ assms(2)] f(2) assms(4,5) by (simp add: p'_def)
    moreover have "insert (tx_hash tx) (set (map pe_id (pool_db p)) - {tx_hash tx}) = set (map pe_id (pool_db p))"
      using imageI [OF f(1), of pe_id] f(2) by auto
    ultimately show ?thesis using assms(1) by (auto simp: pool_struct_def sorted_ok_def p'_def)
  qed
  moreover have "weight_ok p'" if "weight_ok p"
  proof -
    have "meta_weight meta = meta_weight (pe_meta old)" using f(5) assms(2,4) by (simp add: entry_ok_def)
    with sum_remove [OF struct_distinct [OF assms(1)] f(1), of "\<lambda>e. meta_weight (pe_meta e)"] that f(2)
    show ?thesis by (simp add: weight_ok_def p'_def)
  qed
  ultimately show thesis by (rule that)
qed

lemma check_tx_inputs_fields:
  assumes "check_tx_inputs chk_inputs p tx txid io kept = (r, p')"
  shows "pool_db p' = pool_db p" "m_spent_key_images p' = m_spent_key_images p" "m_txpool_weight p' = m_txpool_weight p"
    "m_txs_by_fee_and_receive_time p' = m_txs_by_fee_and_receive_time p" "m_txpool_max_weight p' = m_txpool_max_weight p"
  using assms by (auto simp: check_tx_inputs_def Let_def split: option.splits if_splits)

text \<open>What storing does, with the removal that comes before it when the inputs are valid.\<close>

lemma store_step:
  assumes "pool_struct p" "entry_ok (new_entry tx meta)" "\<forall>e\<in>set (pool_db p). pe_id e = tx_hash tx \<longrightarrow> pe_tx e = tx"
    "kept_by_block meta \<or> \<not> have_tx_keyimges_as_spent p tx"
    "store_tx fpb (if valid then remove_txpool_tx p (tx_hash tx) else p) tx (tx_hash tx) meta = (r, p')"
  shows "pool_struct p'" "weight_ok p \<Longrightarrow> weight_ok (if r then p'\<lparr>m_txpool_weight := m_txpool_weight p' + meta_weight meta\<rparr> else p')"
    "r \<Longrightarrow> pool_db p' = new_entry tx meta # pool_db p" "r \<Longrightarrow> m_txpool_weight p' = m_txpool_weight p"
    "r \<Longrightarrow> m_txpool_max_weight p' = m_txpool_max_weight p" "find_entry p (tx_hash tx) = None \<Longrightarrow> r"
proof -
  have "pool_struct p' \<and> (weight_ok p \<longrightarrow> weight_ok (if r then p'\<lparr>m_txpool_weight := m_txpool_weight p' + meta_weight meta\<rparr> else p'))
    \<and> (r \<longrightarrow> pool_db p' = new_entry tx meta # pool_db p \<and> m_txpool_weight p' = m_txpool_weight p \<and> m_txpool_max_weight p' = m_txpool_max_weight p)
    \<and> (find_entry p (tx_hash tx) = None \<longrightarrow> r)"
  proof (cases "find_entry p (tx_hash tx)")
    case None
    then have "filter (\<lambda>e. pe_id e \<noteq> tx_hash tx) (pool_db p) = pool_db p"
      by (intro filter_other) (simp only: find_entry_None not_False_eq_True)
    then have "remove_txpool_tx p (tx_hash tx) = p" by (simp add: remove_txpool_tx_def)
    then have st: "store_tx fpb p tx (tx_hash tx) meta = (r, p')" using assms(5) by (cases valid) simp_all
    obtain p'' where "store_tx fpb p tx (tx_hash tx) meta = (True, p'')" "pool_struct p''" "pool_db p'' = new_entry tx meta # pool_db p"
      "m_txpool_weight p'' = m_txpool_weight p" "m_txpool_max_weight p'' = m_txpool_max_weight p"
      using store_new [OF assms(1,2) None assms(4)] by blast
    then show ?thesis using st by (auto simp: weight_ok_def new_entry_def)
  next
    case (Some old)
    note f = struct_find [OF assms(1) Some]
    have same: "pe_tx old = tx" using assms(3) f(1,2) by blast
    have kept: "kept_by_block meta"
    proof (rule ccontr)
      assume "\<not> kept_by_block meta"
      with assms(4) have fresh: "\<not> have_tx_keyimges_as_spent p tx" by simp
      have sp: "spendable tx" using f(4) same by simp
      obtain k where k: "k \<in> set (tx_images tx)" using spendable_image [OF sp] ..
      have "pe_id old \<in> spenders (pool_db p) k" using k f(1) same by (auto simp: spenders_def)
      with index_ok_None [of "pool_db p" "m_spent_key_images p" k] spent_index [OF sp fresh k] assms(1)
      show False by (simp add: pool_struct_def db_ok_def)
    qed
    show ?thesis
    proof (cases valid)
      case True
      obtain p'' where "store_tx fpb (remove_txpool_tx p (tx_hash tx)) tx (tx_hash tx) meta = (False, p'')" "pool_struct p''"
        "weight_ok p \<Longrightarrow> weight_ok p''" using store_replace [OF assms(1,2) Some same kept] by blast
      with assms(5) True Some show ?thesis by auto
    next
      case False
      with assms(1,5) Some show ?thesis by (auto simp: store_tx_def add_txpool_tx_def)
    qed
  qed
  then show "pool_struct p'" "weight_ok p \<Longrightarrow> weight_ok (if r then p'\<lparr>m_txpool_weight := m_txpool_weight p' + meta_weight meta\<rparr> else p')"
    "r \<Longrightarrow> pool_db p' = new_entry tx meta # pool_db p" "r \<Longrightarrow> m_txpool_weight p' = m_txpool_weight p"
    "r \<Longrightarrow> m_txpool_max_weight p' = m_txpool_max_weight p" "find_entry p (tx_hash tx) = None \<Longrightarrow> r"
    by blast+
qed

lemma add_tx_checked_stored:
  assumes "pool_struct p" "spendable tx" "tx_hash tx = txid" "get_transaction_weight_blob tx (of_nat (length (tx_to_blob tx))) = Some w"
    "\<forall>e\<in>set (pool_db p). pe_id e = txid \<longrightarrow> pe_tx e = tx" "kept \<or> \<not> have_tx_keyimges_as_spent p tx"
    "add_tx_checked fpb chk_ins now p tx txid w fee tvc kept rel no_relay = (r, tvc', p')"
  obtains (rejected) "\<not> r" "pool_struct p'" "weight_ok p \<Longrightarrow> weight_ok p'"
  | (stored) p2 meta where r "pool_struct p2" "weight_ok p \<Longrightarrow> weight_ok p2" "pool_db p2 = new_entry tx meta # pool_db p"
    "m_txpool_weight p2 = m_txpool_weight p + w" "m_txpool_max_weight p2 = m_txpool_max_weight p"
    "p' = prune p2 (m_txpool_max_weight p2)" "meta_weight meta = w" "meta_fee meta = fee" "kept_by_block meta = kept"
proof -
  obtain valid tvc1 mh mid p1 where chk: "check_tx_inputs chk_ins p tx txid (tvc\<lparr>m_verifivation_failed := True\<rparr>, 0, null_hash) kept
    = ((valid, tvc1, mh, mid), p1)" by (metis prod.exhaust_sel)
  define meta where "meta = \<lparr>max_used_block_id = (if valid then mid else null_hash), last_failed_id = null_hash,
    meta_weight = w, meta_fee = fee, max_used_block_height = (if valid then mh else 0), last_failed_height = 0,
    receive_time = now, last_relayed_time = now, kept_by_block = kept, relayed = rel, do_not_relay = no_relay,
    double_spend_seen = \<not> valid \<and> have_tx_keyimges_as_spent p1 tx\<rparr>"
  have m: "meta_weight meta = w" "meta_fee meta = fee" "kept_by_block meta = kept" by (simp_all add: meta_def)
  note f = check_tx_inputs_fields [OF chk]
  have s1: "pool_struct p1" "weight_ok p1 = weight_ok p" using same_fields_struct [of p1 p] assms(1) f by simp_all
  note d = assms(7) [unfolded add_tx_checked_def, simplified Let_def chk prod.case, folded meta_def]
  show thesis
  proof (cases "\<not> valid \<and> \<not> kept")
    case True
    then have "\<not> r" "p' = p1" using d by auto
    with s1 show ?thesis by (intro rejected) simp_all
  next
    case False
    obtain r' p2 where st: "store_tx fpb (if valid then remove_txpool_tx p1 (tx_hash tx) else p1) tx txid meta = (r', p2)" by fastforce
    have e: "entry_ok (new_entry tx meta)" using assms(2,4) by (simp add: entry_ok_def new_entry_def m)
    have un: "kept_by_block meta \<or> \<not> have_tx_keyimges_as_spent p1 tx"
      using assms(6) unfolding have_tx_keyimges_as_spent_def have_tx_keyimg_as_spent_def f(2) m .
    note st' = store_step [OF s1(1) e _ un st [folded assms(3)], unfolded f(1) s1(2) m assms(3), OF assms(5)]
    show ?thesis
    proof (cases r')
      case True
      define q where "q = bump_cookie (p2\<lparr>m_txpool_weight := m_txpool_weight p2 + w\<rparr>)"
      have "r" "p' = prune q (m_txpool_max_weight q)" using d False True st by (auto simp: q_def)
      moreover have "pool_struct q" using st'(1) by (simp add: q_def pool_struct_def bump_cookie_def)
      moreover have "weight_ok q" if "weight_ok p" using st'(2) [OF that] True by (simp add: q_def)
      ultimately show ?thesis using st'(3-5) True f(3,5) m by (intro stored [of q meta]) (simp_all add: q_def bump_cookie_def)
    next
      case r': False
      then have "\<not> r" "p' = p2" using d False st by auto
      with st'(1,2) r' show ?thesis by (intro rejected) simp_all
    qed
  qed
qed

lemma add_tx_outcome:
  assumes "pool_struct p" "spendable tx" "tx_hash tx = txid" "get_transaction_weight_blob tx (of_nat (length (tx_to_blob tx))) = Some w"
    "\<forall>e\<in>set (pool_db p). pe_id e = txid \<longrightarrow> pe_tx e = tx"
    "add_tx fpb chk_fee chk_outs chk_ins now p tx txid w tvc kept rel no_relay ver = (r, tvc', p')"
  obtains (rejected) "\<not> r" "pool_struct p'" "weight_ok p \<Longrightarrow> weight_ok p'"
  | (stored) p2 meta where r "pool_struct p2" "weight_ok p \<Longrightarrow> weight_ok p2" "pool_db p2 = new_entry tx meta # pool_db p"
    "m_txpool_weight p2 = m_txpool_weight p + w" "m_txpool_max_weight p2 = m_txpool_max_weight p"
    "p' = prune p2 (m_txpool_max_weight p2)" "meta_weight meta = w" "pool_fee tx tvc = Inr (meta_fee meta)" "kept_by_block meta = kept"
proof -
  note st = stored and rej = rejected
  consider "\<not> r \<and> p' = p" | "\<not> r \<and> p' = mark_double_spend p tx"
    | fee tvc1 where "pool_fee tx tvc = Inr fee" "kept \<or> \<not> have_tx_keyimges_as_spent p tx"
      "add_tx_checked fpb chk_ins now p tx txid w fee tvc1 kept rel no_relay = (r, tvc', p')"
    using assms(6) unfolding add_tx_def by (fastforce split: if_splits sum.splits prod.splits bool.splits)
  then show thesis
  proof cases
    case 1
    with assms(1) show ?thesis by (intro rejected) simp_all
  next
    case 2
    with assms(1) mark_double_spend_struct show ?thesis by (intro rejected) simp_all
  next
    case (3 fee tvc1)
    from assms(1-5) 3(2,3) show ?thesis
    proof (cases rule: add_tx_checked_stored)
      case (stored p2 meta)
      then show ?thesis using 3(1) by (intro st [of p2 meta]) simp_all
    qed (rule rej)
  qed
qed

lemma add_tx_struct:
  assumes "pool_struct p" "spendable tx" "tx_hash tx = txid" "get_transaction_weight_blob tx (of_nat (length (tx_to_blob tx))) = Some w"
    "\<forall>e\<in>set (pool_db p). pe_id e = txid \<longrightarrow> pe_tx e = tx"
    "add_tx fpb chk_fee chk_outs chk_ins now p tx txid w tvc kept rel no_relay ver = (r, tvc', p')"
  shows "pool_struct p'" "weight_ok p \<Longrightarrow> m_txpool_weight p + w \<le> m_txpool_max_weight p \<Longrightarrow> weight_ok p'"
proof -
  show "pool_struct p'"
    by (rule add_tx_outcome [OF assms]) (simp_all add: prune_struct)
  assume w: "weight_ok p" "m_txpool_weight p + w \<le> m_txpool_max_weight p"
  from assms show "weight_ok p'"
  proof (cases rule: add_tx_outcome)
    case (stored p2 meta)
    then show ?thesis using w prune_fits [of p2] by simp
  qed (simp add: w)
qed

subsection \<open>Outdated and invalid transactions\<close>

lemma drop_entry_ok:
  assumes "db_ok (pool_db p) ki" "e \<in> set (pool_db p)"
  shows "drop_entry p e = (True, removed p e (m_txpool_weight p - meta_weight (pe_meta e)))"
  using assms by (auto simp: drop_entry_def removed_def remove_txpool_tx_def db_ok_def list_all_iff entry_ok_def)

lemma other_entries:
  assumes "distinct (map pe_id (e # es))" "set (e # es) \<subseteq> set db"
  shows "set es \<subseteq> set (filter (\<lambda>e'. pe_id e' \<noteq> pe_id e) db)"
proof
  fix x assume "x \<in> set es"
  moreover from this have "pe_id x \<in> pe_id ` set es" by (rule imageI)
  then have "pe_id x \<noteq> pe_id e" using assms(1) by auto
  ultimately show "x \<in> set (filter (\<lambda>e'. pe_id e' \<noteq> pe_id e) db)" using assms(2) by auto
qed

lemma drop_fold:
  assumes "db_ok (pool_db p) (m_spent_key_images p)" "distinct (map pe_id es)" "set es \<subseteq> set (pool_db p)"
  defines "p' \<equiv> foldl (\<lambda>p e. snd (drop_entry p e)) p es"
  shows "db_ok (pool_db p') (m_spent_key_images p') \<and> pool_db p' = filter (\<lambda>e. pe_id e \<notin> pe_id ` set es) (pool_db p)
    \<and> m_txs_by_fee_and_receive_time p' = m_txs_by_fee_and_receive_time p \<and> (weight_ok p \<longrightarrow> weight_ok p')"
  using assms(1-3) unfolding p'_def
proof (induction es arbitrary: p)
  case (Cons e es)
  define q where "q = removed p e (m_txpool_weight p - meta_weight (pe_meta e))"
  have e: "e \<in> set (pool_db p)" using Cons.prems(3) by simp
  have q: "snd (drop_entry p e) = q" using drop_entry_ok [OF Cons.prems(1) e] by (simp add: q_def)
  have qdb: "pool_db q = filter (\<lambda>e'. pe_id e' \<noteq> pe_id e) (pool_db p)"
    and qs: "m_txs_by_fee_and_receive_time q = m_txs_by_fee_and_receive_time p" by (simp_all add: q_def)
  have ok: "db_ok (pool_db q) (m_spent_key_images q)" unfolding q_def by (rule removed_ok [OF Cons.prems(1) e])
  have sub: "set es \<subseteq> set (pool_db q)" unfolding qdb by (rule other_entries [OF Cons.prems(2,3)])
  have dist: "distinct (map pe_id es)" using Cons.prems(2) by simp
  define r where "r = foldl (\<lambda>p e. snd (drop_entry p e)) q es"
  have ih: "db_ok (pool_db r) (m_spent_key_images r)" "pool_db r = filter (\<lambda>e. pe_id e \<notin> pe_id ` set es) (pool_db q)"
    "m_txs_by_fee_and_receive_time r = m_txs_by_fee_and_receive_time p" "weight_ok q \<Longrightarrow> weight_ok r"
    using Cons.IH [OF ok dist sub, folded r_def, unfolded qs] by blast+
  have wq: "weight_ok q" if "weight_ok p" unfolding q_def by (rule removed_weight [OF Cons.prems(1) e that])
  have filt: "filter (\<lambda>e. pe_id e \<notin> pe_id ` set es) (pool_db q) = filter (\<lambda>x. pe_id x \<notin> pe_id ` set (e # es)) (pool_db p)"
    unfolding qdb filter_filter by (rule filter_cong) auto
  have "foldl (\<lambda>p e. snd (drop_entry p e)) p (e # es) = r" by (simp add: q r_def)
  then show ?case using ih(1) ih(2) [unfolded filt] ih(3,4) wq by blast
qed (simp add: filter_id_conv)

lemma erase_fold:
  assumes "distinct (map snd (m_txs_by_fee_and_receive_time p))"
  shows "\<exists>srt. foldl (\<lambda>p e. sorted_erase p (pe_id e)) p es = p\<lparr>m_txs_by_fee_and_receive_time := srt\<rparr> \<and> distinct (map snd srt)
    \<and> set (map snd srt) = set (map snd (m_txs_by_fee_and_receive_time p)) - pe_id ` set es"
  using assms
proof (induction es arbitrary: p)
  case Nil
  then show ?case by (intro exI [of _ "m_txs_by_fee_and_receive_time p"]) simp
next
  case (Cons e es)
  note er = erase_first_ids [OF Cons.prems, of "pe_id e"]
  obtain srt where srt: "foldl (\<lambda>p e. sorted_erase p (pe_id e)) (sorted_erase p (pe_id e)) es
      = (sorted_erase p (pe_id e))\<lparr>m_txs_by_fee_and_receive_time := srt\<rparr>" "distinct (map snd srt)"
    "set (map snd srt) = set (map snd (m_txs_by_fee_and_receive_time (sorted_erase p (pe_id e)))) - pe_id ` set es"
    using Cons.IH [of "sorted_erase p (pe_id e)"] er by (auto simp: sorted_erase_def)
  have "set (map snd srt) = set (map snd (m_txs_by_fee_and_receive_time p)) - pe_id ` set (e # es)"
    unfolding srt(3) using er by (auto simp: sorted_erase_def)
  with srt(1,2) show ?case by (intro exI [of _ srt]) (simp add: sorted_erase_def)
qed

lemma filter_ids:
  assumes "distinct (map pe_id db)"
  shows "filter (\<lambda>e. pe_id e \<notin> pe_id ` set (filter P db)) db = filter (\<lambda>e. \<not> P e) db"
proof (rule filter_cong [OF refl])
  fix e assume "e \<in> set db"
  then show "(pe_id e \<notin> pe_id ` set (filter P db)) = (\<not> P e)"
    using assms inj_onD [of pe_id "set db" e] by (auto simp: distinct_map)
qed

lemma remove_stuck_struct:
  assumes "pool_struct p"
  shows "pool_struct (remove_stuck_transactions now p)" "weight_ok p \<Longrightarrow> weight_ok (remove_stuck_transactions now p)"
    "pool_db (remove_stuck_transactions now p) = filter (\<lambda>e. \<not> outdated now (pe_meta e)) (pool_db p)"
proof -
  define es where "es = filter (\<lambda>e. outdated now (pe_meta e)) (pool_db p)"
  have dist: "distinct (map pe_id es)" and sub: "set es \<subseteq> set (pool_db p)"
    using struct_distinct [OF assms] by (auto simp: es_def distinct_map_filter)
  obtain srt where srt: "foldl (\<lambda>p e. sorted_erase p (pe_id e)) p es = p\<lparr>m_txs_by_fee_and_receive_time := srt\<rparr>" "distinct (map snd srt)"
    "set (map snd srt) = set (map snd (m_txs_by_fee_and_receive_time p)) - pe_id ` set es"
    using erase_fold [of p es] assms by (auto simp: pool_struct_def sorted_ok_def)
  define q where "q = p\<lparr>m_txs_by_fee_and_receive_time := srt, m_timed_out_transactions := map pe_id es @ m_timed_out_transactions p\<rparr>"
  define q' where "q' = foldl (\<lambda>p e. snd (drop_entry p e)) q es"
  have res: "remove_stuck_transactions now p = (if es = [] then q else bump_cookie q')"
    unfolding remove_stuck_transactions_def es_def [symmetric] Let_def srt(1) q'_def q_def by simp
  then have res: "remove_stuck_transactions now p = (if es = [] then q' else bump_cookie q')" by (simp add: q'_def)
  have ok: "db_ok (pool_db q) (m_spent_key_images q)" using assms by (simp add: q_def pool_struct_def)
  have q: "pool_db q = pool_db p" "m_txs_by_fee_and_receive_time q = srt" "weight_ok q = weight_ok p"
    by (simp_all add: q_def weight_ok_def)
  have q': "db_ok (pool_db q') (m_spent_key_images q')"
    "pool_db q' = filter (\<lambda>e. pe_id e \<notin> pe_id ` set es) (pool_db p)" "m_txs_by_fee_and_receive_time q' = srt" "weight_ok p \<longrightarrow> weight_ok q'"
    using drop_fold [OF ok dist, folded q'_def, unfolded q, OF sub] by blast+
  have "set (map pe_id (pool_db q')) = set (map pe_id (pool_db p)) - pe_id ` set es" unfolding q'(2) by auto
  then have "sorted_ok (pool_db q') srt" using srt(2,3) assms by (simp add: sorted_ok_def pool_struct_def)
  then show "pool_struct (remove_stuck_transactions now p)" using q'(1,3) by (simp add: res pool_struct_def bump_cookie_def)
  show "weight_ok (remove_stuck_transactions now p)" if "weight_ok p" using q'(4) that by (simp add: res)
  have "pool_db q' = filter (\<lambda>e. \<not> outdated now (pe_meta e)) (pool_db p)"
    unfolding q'(2) es_def by (rule filter_ids [OF struct_distinct [OF assms]])
  then show "pool_db (remove_stuck_transactions now p) = filter (\<lambda>e. \<not> outdated now (pe_meta e)) (pool_db p)"
    by (simp add: res bump_cookie_def)
qed

lemma validate_drop_ok:
  assumes "pool_struct p" "weight_ok p" "distinct (map pe_id es)" "set es \<subseteq> set (pool_db p)"
  shows "\<exists>p'. foldl validate_drop (n, p) es = (n + length es, p') \<and> pool_struct p' \<and> weight_ok p'
    \<and> pool_db p' = filter (\<lambda>e. pe_id e \<notin> pe_id ` set es) (pool_db p)"
  using assms
proof (induction es arbitrary: n p)
  case (Cons e es)
  define q where "q = sorted_erase (removed p e (m_txpool_weight p - meta_weight (pe_meta e))) (pe_id e)"
  have e: "e \<in> set (pool_db p)" and db: "db_ok (pool_db p) (m_spent_key_images p)"
    using Cons.prems(1,4) by (simp_all add: pool_struct_def)
  have step: "validate_drop (n, p) e = (n + 1, q)" by (simp add: validate_drop_def drop_entry_ok [OF db e] q_def)
  have qdb: "pool_db q = filter (\<lambda>e'. pe_id e' \<noteq> pe_id e) (pool_db p)" by (simp add: q_def sorted_erase_def)
  have "distinct (map snd (m_txs_by_fee_and_receive_time p))" using Cons.prems(1) by (simp add: pool_struct_def sorted_ok_def)
  from erase_first_ids [OF this, of "pe_id e"] have "pool_struct q"
    unfolding q_def sorted_erase_def removed_fields by (intro removed_struct [OF Cons.prems(1) e]) auto
  moreover have "weight_ok q" using removed_weight [OF db e Cons.prems(2)] by (simp add: q_def sorted_erase_def)
  moreover have "set es \<subseteq> set (pool_db q)" unfolding qdb by (rule other_entries [OF Cons.prems(3,4)])
  moreover have "distinct (map pe_id es)" using Cons.prems(3) by simp
  ultimately obtain p' where p': "foldl validate_drop (n + 1, q) es = (n + 1 + length es, p')" "pool_struct p'" "weight_ok p'"
    "pool_db p' = filter (\<lambda>e. pe_id e \<notin> pe_id ` set es) (pool_db q)" using Cons.IH [of q "n + 1"] by blast
  have "filter (\<lambda>e. pe_id e \<notin> pe_id ` set es) (pool_db q) = filter (\<lambda>x. pe_id x \<notin> pe_id ` set (e # es)) (pool_db p)"
    unfolding qdb filter_filter by (rule filter_cong) auto
  with p' show ?case by (intro exI [of _ p']) (simp add: step)
qed (simp add: filter_id_conv)

lemma foldl_weights: "foldl (\<lambda>w e. w + f e) a xs = a + sum_list (map f xs)" for f :: "'a \<Rightarrow> u64"
  by (induction xs arbitrary: a) (simp_all add: add.assoc)

lemma validate_result:
  assumes "pool_struct p"
  obtains p' where "validate chain_have_tx p ver =
      (length (filter (\<lambda>e. meta_weight (pe_meta e) > get_transaction_weight_limit ver \<or> chain_have_tx (pe_id e)) (pool_db p)), p')"
    "pool_struct p'" "weight_ok p'"
    "pool_db p' = filter (\<lambda>e. meta_weight (pe_meta e) \<le> get_transaction_weight_limit ver \<and> \<not> chain_have_tx (pe_id e)) (pool_db p)"
proof -
  define bad where "bad = (\<lambda>e :: pool_entry. meta_weight (pe_meta e) > get_transaction_weight_limit ver \<or> chain_have_tx (pe_id e))"
  define q where "q = p\<lparr>m_txpool_weight := foldl (\<lambda>w e. w + meta_weight (pe_meta e)) 0 (pool_db p)\<rparr>"
  have q: "pool_struct q" "weight_ok q" "pool_db q = pool_db p" using assms by (simp_all add: q_def pool_struct_def weight_ok_def foldl_weights)
  have "distinct (map pe_id (filter bad (pool_db p)))" "set (filter bad (pool_db p)) \<subseteq> set (pool_db q)"
    using struct_distinct [OF assms] by (auto simp: distinct_map_filter q(3))
  then obtain p' where p': "foldl validate_drop (0, q) (filter bad (pool_db p)) = (0 + length (filter bad (pool_db p)), p')" "pool_struct p'"
    "weight_ok p'" "pool_db p' = filter (\<lambda>e. pe_id e \<notin> pe_id ` set (filter bad (pool_db p))) (pool_db p)"
    using validate_drop_ok [OF q(1,2), of "filter bad (pool_db p)" 0] unfolding q(3) by blast
  define n where "n = length (filter bad (pool_db p))"
  have "validate chain_have_tx p ver = (n, if n > 0 then bump_cookie p' else p')"
    using p'(1) unfolding validate_def Let_def q_def [symmetric] bad_def [symmetric] q(3) n_def by simp
  moreover have "pool_db p' = filter (\<lambda>e. meta_weight (pe_meta e) \<le> get_transaction_weight_limit ver \<and> \<not> chain_have_tx (pe_id e)) (pool_db p)"
    unfolding p'(4) filter_ids [OF struct_distinct [OF assms]] by (simp add: bad_def not_less)
  ultimately show thesis using p'(2,3)
    by (intro that [of "if n > 0 then bump_cookie p' else p'"]) (simp_all add: n_def bad_def)
qed

subsection \<open>Restart\<close>

text \<open>Entries in an order in which none that needs its key images unspent comes after one that spends them.\<close>

definition loadable :: "pool_entry list \<Rightarrow> bool" where
  "loadable = sorted_wrt (\<lambda>a b. kept_by_block (pe_meta b) \<or> set (tx_images (pe_tx a)) \<inter> set (tx_images (pe_tx b)) = {})"

lemma init_entries_ok:
  assumes "db_ok db (m_spent_key_images p)" "sorted_ok db (m_txs_by_fee_and_receive_time p)"
    "m_txpool_weight p = sum_list (map (\<lambda>e. meta_weight (pe_meta e)) db)"
    "list_all entry_ok es" "distinct (map pe_id (rev db @ es))" "loadable (rev db @ es)"
  shows "\<exists>p'. init_entries fpb es p = (True, p') \<and> pool_db p' = pool_db p \<and> db_ok (rev es @ db) (m_spent_key_images p')
    \<and> sorted_ok (rev es @ db) (m_txs_by_fee_and_receive_time p') \<and> m_txpool_weight p' = sum_list (map (\<lambda>e. meta_weight (pe_meta e)) (rev es @ db))"
  using assms
proof (induction es arbitrary: p db)
  case (Cons e es)
  have e: "entry_ok e" "pe_id e = tx_hash (pe_tx e)" using Cons.prems(4) by (auto simp: entry_ok_def)
  have new: "pe_id e \<notin> set (map pe_id db)" using Cons.prems(5) by auto
  have idx: "index_ok db (m_spent_key_images p)" using Cons.prems(1) by (simp add: db_ok_def)
  have "kept_by_block (pe_meta e) \<or> set (tx_images (pe_tx a)) \<inter> set (tx_images (pe_tx e)) = {}" if "a \<in> set db" for a
    using Cons.prems(6) that by (auto simp: loadable_def sorted_wrt_append)
  then have "kept_by_block (pe_meta e) \<or> (\<forall>k \<in> set (tx_images (pe_tx e)). spenders db k = {})"
    unfolding spenders_def by fast
  then have "kept_by_block (pe_meta e) \<or> (\<forall>k \<in> set (tx_images (pe_tx e)). m_spent_key_images p k = None)"
    using index_ok_None [OF idx] by blast
  from db_ok_add [OF Cons.prems(1) e(1) new refl this] obtain ki' where
    ki': "insert_images (tx_hash (pe_tx e)) (kept_by_block (pe_meta e)) (vin (pe_tx e)) (m_spent_key_images p) = (True, ki')" "db_ok (e # db) ki'"
    unfolding e(2) by blast
  let ?x = "((fpb (meta_fee (pe_meta e)) (meta_weight (pe_meta e)), receive_time (pe_meta e)), pe_id e)"
  define q where "q = (bump_cookie (p\<lparr>m_spent_key_images := ki'\<rparr>))\<lparr>
    m_txs_by_fee_and_receive_time := sorted_emplace ?x (m_txs_by_fee_and_receive_time p), m_txpool_weight := m_txpool_weight p + meta_weight (pe_meta e)\<rparr>"
  have step: "init_entries fpb (e # es) p = init_entries fpb es q"
    by (simp add: insert_key_images_def ki'(1) q_def bump_cookie_def)
  have ids: "set (map snd (m_txs_by_fee_and_receive_time p)) = set (map pe_id db)" "distinct (map snd (m_txs_by_fee_and_receive_time p))"
    using Cons.prems(2) by (simp_all add: sorted_ok_def)
  have fresh: "snd ?x \<notin> set (map snd (m_txs_by_fee_and_receive_time p))" unfolding ids(1) using new by simp
  have "sorted_ok (e # db) (sorted_emplace ?x (m_txs_by_fee_and_receive_time p))"
    unfolding sorted_ok_def sorted_emplace_ids [OF fresh] ids(1) using sorted_emplace_distinct [OF fresh ids(2)] by simp
  then have "sorted_ok (e # db) (m_txs_by_fee_and_receive_time q)" by (simp add: q_def)
  moreover have "db_ok (e # db) (m_spent_key_images q)" "pool_db q = pool_db p"
    "m_txpool_weight q = sum_list (map (\<lambda>e. meta_weight (pe_meta e)) (e # db))"
    using ki'(2) Cons.prems(3) by (simp_all add: q_def bump_cookie_def)
  ultimately show ?case unfolding step using Cons.IH [of "e # db" q] Cons.prems(4-6) by simp
qed auto

lemma db_ok_perm:
  assumes "db_ok db ki" "set db' = set db" "distinct (map pe_id db')"
  shows "db_ok db' ki"
proof -
  have "spenders db' = spenders db" unfolding spenders_def assms(2) ..
  moreover have "index_ok db ki" using assms(1) by (simp add: db_ok_def)
  ultimately have "index_ok db' ki" by (rule index_ok_cong)
  then show ?thesis using assms by (simp add: db_ok_def list_all_iff exclusive_def)
qed

lemma sum_partition:
  "sum_list (map f (filter (\<lambda>x. \<not> P x) xs)) + sum_list (map f (filter P xs)) = sum_list (map f xs)" for f :: "'a \<Rightarrow> u64"
  by (induction xs) (auto simp: algebra_simps)

lemma exclusive_loadable:
  assumes "exclusive db" "distinct (map pe_id db)"
  shows "loadable (filter (\<lambda>e. \<not> kept_by_block (pe_meta e)) db @ filter (\<lambda>e. kept_by_block (pe_meta e)) db)"
proof -
  have "loadable (filter (\<lambda>e. \<not> kept_by_block (pe_meta e)) db)"
    using assms
  proof (induction db)
    case (Cons e db)
    have "exclusive db" using Cons.prems(1) by (simp add: exclusive_def)
    moreover have "pe_id e \<noteq> pe_id x" if "x \<in> set db" for x
      using imageI [OF that, of pe_id] Cons.prems(2) by auto
    ultimately show ?case using Cons by (simp add: loadable_def exclusive_def)
  qed (simp add: loadable_def)
  moreover have "loadable (filter (\<lambda>e. kept_by_block (pe_meta e)) db)"
    unfolding loadable_def by (induction db) auto
  ultimately show ?thesis by (auto simp: loadable_def sorted_wrt_append)
qed

lemma init_pool_ok:
  assumes "pool_struct p"
  obtains p' where "init_pool fpb p m = (True, p')" "pool_struct p'" "weight_ok p'" "pool_db p' = pool_db p"
proof -
  define es where "es = filter (\<lambda>e. \<not> kept_by_block (pe_meta e)) (pool_db p) @ filter (\<lambda>e. kept_by_block (pe_meta e)) (pool_db p)"
  define q where "q = p\<lparr>m_txpool_max_weight := (if m \<noteq> 0 then m else DEFAULT_TXPOOL_MAX_WEIGHT),
    m_txs_by_fee_and_receive_time := [], m_spent_key_images := (\<lambda>_. None), m_txpool_weight := 0\<rparr>"
  have db: "list_all entry_ok (pool_db p)" "exclusive (pool_db p)" using assms by (simp_all add: pool_struct_def db_ok_def)
  have set_es: "set es = set (pool_db p)" by (auto simp: es_def)
  have "distinct (map pe_id es)"
    using struct_distinct [OF assms] by (auto simp: es_def distinct_map_filter distinct_map inj_on_def)
  moreover have "loadable es" unfolding es_def by (rule exclusive_loadable [OF db(2) struct_distinct [OF assms]])
  moreover have "list_all entry_ok es" using db(1) by (simp add: list_all_iff set_es)
  moreover have "db_ok [] (m_spent_key_images q)" "sorted_ok [] (m_txs_by_fee_and_receive_time q)"
    by (simp_all add: q_def db_ok_def exclusive_def index_ok_def spenders_def sorted_ok_def)
  ultimately obtain p' where p': "init_entries fpb es q = (True, p')" "pool_db p' = pool_db p" "db_ok (rev es) (m_spent_key_images p')"
    "sorted_ok (rev es) (m_txs_by_fee_and_receive_time p')" "m_txpool_weight p' = sum_list (map (\<lambda>e. meta_weight (pe_meta e)) (rev es))"
    using init_entries_ok [of "[]" q es fpb] by (auto simp: q_def)
  have "init_pool fpb p m = (True, p'\<lparr>m_cookie := 0\<rparr>)"
    using p'(1) unfolding init_pool_def Let_def q_def [symmetric] by (simp add: es_def q_def)
  moreover have "pool_struct (p'\<lparr>m_cookie := 0\<rparr>)"
    using db_ok_perm [OF p'(3), of "pool_db p"] struct_distinct [OF assms] p'(2,4) set_es by (simp add: pool_struct_def sorted_ok_def)
  moreover have "weight_ok (p'\<lparr>m_cookie := 0\<rparr>)"
    using p'(2,5) sum_partition [of "\<lambda>e. meta_weight (pe_meta e)" "\<lambda>e. kept_by_block (pe_meta e)" "pool_db p"]
    by (simp add: weight_ok_def es_def rev_map [symmetric] add.commute)
  ultimately show thesis using p'(2) by (intro that [of "p'\<lparr>m_cookie := 0\<rparr>"]) simp_all
qed

subsection \<open>Filling a template\<close>

text \<open>What a transaction contributes to a block; no update of the metadata changes it.\<close>

definition core :: "pool_entry \<Rightarrow> bytes \<times> transaction \<times> bool \<times> u64 \<times> u64" where
  "core e = (pe_id e, pe_tx e, kept_by_block (pe_meta e), meta_weight (pe_meta e), meta_fee (pe_meta e))"

lemma core_eq:
  "core e = core e' \<longleftrightarrow> pe_id e = pe_id e' \<and> pe_tx e = pe_tx e' \<and> kept_by_block (pe_meta e) = kept_by_block (pe_meta e')
    \<and> meta_weight (pe_meta e) = meta_weight (pe_meta e') \<and> meta_fee (pe_meta e) = meta_fee (pe_meta e')"
  by (auto simp: core_def)

lemma ready_fields:
  assumes "is_transaction_ready_to_go chk_ins cv p e = (r, m, p')"
  shows "kept_by_block m = kept_by_block (pe_meta e)" "meta_weight m = meta_weight (pe_meta e)" "meta_fee m = meta_fee (pe_meta e)"
    "pool_db p' = pool_db p" "m_spent_key_images p' = m_spent_key_images p" "m_txpool_weight p' = m_txpool_weight p"
    "m_txs_by_fee_and_receive_time p' = m_txs_by_fee_and_receive_time p"
    "r \<Longrightarrow> \<forall>k\<in>set (tx_images (pe_tx e)). \<not> cv_spent cv k"
proof -
  obtain c q where chk: "check_tx_inputs chk_ins p (pe_tx e) (pe_id e)
      (no_flags, max_used_block_height (pe_meta e), max_used_block_id (pe_meta e)) False = (c, q)" by fastforce
  obtain c1 c2 c3 c4 where c: "c = (c1, c2, c3, c4)" by (cases c)
  note f = check_tx_inputs_fields [OF chk]
  note d = assms [unfolded is_transaction_ready_to_go_def, simplified Let_def chk c prod.case]
  show "kept_by_block m = kept_by_block (pe_meta e)" "meta_weight m = meta_weight (pe_meta e)" "meta_fee m = meta_fee (pe_meta e)"
    "pool_db p' = pool_db p" "m_spent_key_images p' = m_spent_key_images p" "m_txpool_weight p' = m_txpool_weight p"
    "m_txs_by_fee_and_receive_time p' = m_txs_by_fee_and_receive_time p"
    using d f by (auto split: if_splits)
  assume r
  then have "\<not> list_ex (\<lambda>i. case txin_k_image i of None \<Rightarrow> True | Some k \<Rightarrow> cv_spent cv k) (vin (pe_tx e))"
    using d by (auto split: if_splits)
  then show "\<forall>k\<in>set (tx_images (pe_tx e)). \<not> cv_spent cv k"
    by (auto simp: tx_images_def map_filter_def list_ex_iff dest!: set_takeWhileD)
qed

lemma update_core:
  assumes "pool_struct p" "find_entry p t = Some e" "kept_by_block m = kept_by_block (pe_meta e)"
    "meta_weight m = meta_weight (pe_meta e)" "meta_fee m = meta_fee (pe_meta e)"
  shows "map core (pool_db (update_txpool_tx p t m)) = map core (pool_db p)"
proof -
  note f = struct_find [OF assms(1,2)]
  have "x = e" if "x \<in> set (pool_db p)" "pe_id x = t" for x
    using that f(1,2) struct_distinct [OF assms(1)] inj_onD [of pe_id "set (pool_db p)" x e] by (simp add: distinct_map)
  then show ?thesis using assms(3-5) by (auto simp: update_txpool_tx_def core_eq)
qed

lemma append_key_images_set:
  "distinct ks \<Longrightarrow> set ks \<inter> set k_images = {} \<Longrightarrow> set (append_key_images k_images ks) = set ks \<union> set k_images"
  by (induction ks arbitrary: k_images) auto

text \<open>The template built so far, with the entries of the original table that it contains.\<close>

definition filled :: "chain_view \<Rightarrow> pool_entry list \<Rightarrow> bytes list \<Rightarrow> u64 \<Rightarrow> template_state \<Rightarrow> pool_entry list \<Rightarrow> bool" where
  "filled cv db hashes limit st es \<longleftrightarrow> pool_struct (ts_pool st) \<and> map core (pool_db (ts_pool st)) = map core db
     \<and> set es \<subseteq> set db \<and> ts_hashes st = hashes @ map pe_id es
     \<and> ts_weight st = sum_list (map (\<lambda>e. meta_weight (pe_meta e)) es) \<and> ts_fee st = sum_list (map (\<lambda>e. meta_fee (pe_meta e)) es)
     \<and> set (ts_images st) = \<Union> (set (map (\<lambda>e. set (tx_images (pe_tx e))) es)) \<and> distinct (concat (map (\<lambda>e. tx_images (pe_tx e)) es))
     \<and> (\<forall>e\<in>set es. \<forall>k\<in>set (tx_images (pe_tx e)). \<not> cv_spent cv k) \<and> ts_weight st \<le> limit"

lemma have_key_images_iff: "have_key_images ks tx \<longleftrightarrow> set (tx_images tx) \<inter> set ks \<noteq> {}"
  by (auto simp: have_key_images_def list_ex_iff)

lemma fill_step_filled:
  assumes "filled cv db hashes (max_total_weight ver median_w) st es"
    "fill_step thr chk_ins cv median_w coins ver height t st = (stop, st')"
  shows "\<exists>es'. filled cv db hashes (max_total_weight ver median_w) st' es'"
proof (cases "find_entry (ts_pool st) t")
  case None
  then have "st' = st" using assms(2) by (simp add: fill_step_def)
  with assms(1) show ?thesis by blast
next
  case (Some e)
  obtain r m q where ready: "is_transaction_ready_to_go chk_ins cv (ts_pool st) e = (r, m, q)" by (metis prod.exhaust_sel)
  note f = assms(1) [unfolded filled_def]
  have str: "pool_struct (ts_pool st)" using f by blast
  note rf = ready_fields [OF ready] and found = struct_find [OF str Some]
  define q' where "q' = (if m \<noteq> pe_meta e then update_txpool_tx q t m else q)"
  have qs: "pool_struct q" using same_fields_struct(1) [OF rf(4,5,7,6)] str by simp
  have qfind: "find_entry q t = Some e" using Some rf(4) by (simp add: find_entry_def)
  have q's: "pool_struct q'" "map core (pool_db q') = map core db"
  proof -
    show "pool_struct q'" unfolding q'_def
      using update_txpool_tx_struct(1) [OF _ struct_distinct [OF qs] qs, of t m] qfind rf(1,2) qs by simp
    have "map core (pool_db q') = map core (pool_db q)" unfolding q'_def
      using update_core [OF qs qfind rf(1-3)] by simp
    with f rf(4) show "map core (pool_db q') = map core db" by simp
  qed
  then have same: "filled cv db hashes (max_total_weight ver median_w) (st\<lparr>ts_pool := q'\<rparr>) es" using f by (auto simp: filled_def)
  note d = assms(2) [unfolded fill_step_def Some option.case ready Let_def prod.case q'_def [symmetric]]
  consider "st' = st" | "st' = st\<lparr>ts_pool := q'\<rparr>"
    | best where "r" "\<not> have_key_images (ts_images st) (pe_tx e)" "\<not> max_total_weight ver median_w < ts_weight st + meta_weight (pe_meta e)"
      "st' = st\<lparr>ts_pool := q', ts_hashes := ts_hashes st @ [t], ts_weight := ts_weight st + meta_weight m,
        ts_fee := ts_fee st + meta_fee m, ts_best := best, ts_images := append_key_images (ts_images st) (tx_images (pe_tx e))\<rparr>"
  proof (cases "max_total_weight ver median_w < ts_weight st + meta_weight (pe_meta e) \<or> \<not> ver \<ge> 5 \<and> ts_weight st > median_w
      \<or> next_coinbase thr median_w coins ver height st (pe_meta e) = None")
    case True
    then have "st' = st" using d
      by (elim disjE) (simp_all split: if_splits)
    then show ?thesis by (rule that(1))
  next
    case False
    then obtain best where best: "next_coinbase thr median_w coins ver height st (pe_meta e) = Some best" by auto
    have n: "\<not> max_total_weight ver median_w < ts_weight st + meta_weight (pe_meta e)" "\<not> (\<not> ver \<ge> 5 \<and> ts_weight st > median_w)"
      using False by blast+
    note d' = d [unfolded if_not_P [OF n(1)] if_not_P [OF n(2)] best option.case]
    show ?thesis
    proof (cases "\<not> r \<or> have_key_images (ts_images st) (pe_tx e)")
      case True
      then have "st' = st\<lparr>ts_pool := q'\<rparr>" using d' by simp
      then show ?thesis by (rule that(2))
    next
      case new: False
      with d' n(1) show ?thesis by (intro that(3) [of best]) simp_all
    qed
  qed
  then show ?thesis
  proof cases
    case 3
    have "set (map core (pool_db (ts_pool st))) = set (map core db)" using f by (simp only:)
    with imageI [OF found(1), of core] have "core e \<in> core ` set db" by simp
    then obtain e' where e': "e' \<in> set db" "core e' = core e" by auto
    have sp: "distinct (tx_images (pe_tx e))" using found(4) by (simp add: spendable_def)
    have disj: "set (tx_images (pe_tx e)) \<inter> set (ts_images st) = {}" using 3(2) by (simp add: have_key_images_iff)
    have "filled cv db hashes (max_total_weight ver median_w) st' (es @ [e'])"
      using f q's e' rf(2,3) rf(8) [OF 3(1)] 3(3) sp disj found(2) append_key_images_set [OF sp disj]
      unfolding filled_def 3(4) core_eq by (auto simp: not_less)
    then show ?thesis by blast
  qed (use assms(1) same in blast)+
qed

lemma fill_loop_filled:
  assumes "filled cv db hashes (max_total_weight ver median_w) st es"
  shows "\<exists>es'. filled cv db hashes (max_total_weight ver median_w)
    (fill_loop (fill_step thr chk_ins cv median_w coins ver height) xs st) es'"
  using assms
proof (induction xs arbitrary: st es)
  case (Cons x xs)
  obtain stop st' where step: "fill_step thr chk_ins cv median_w coins ver height (snd x) st = (stop, st')" by fastforce
  obtain es' where "filled cv db hashes (max_total_weight ver median_w) st' es'"
    using fill_step_filled [OF Cons.prems step] by blast
  then show ?case using Cons.IH step by auto
qed auto

lemma fill_block_template_filled:
  assumes "pool_struct p"
  obtains es where "filled cv (pool_db p) hashes (max_total_weight ver median_w)
    (fill_block_template thr chk_ins cv p hashes median_w coins ver height) es"
proof -
  have "filled cv (pool_db p) hashes (max_total_weight ver median_w)
    \<lparr>ts_hashes = hashes, ts_weight = 0, ts_fee = 0, ts_best = best, ts_images = [], ts_pool = p\<rparr> []" for best
    using assms by (simp add: filled_def)
  from fill_loop_filled [OF this] show thesis using that unfolding fill_block_template_def Let_def by blast
qed

subsection \<open>Reachable pools\<close>

text \<open>
  The operations on a pool, each with arbitrary answers of the chain and an arbitrary time. A transaction
  that is added passed the syntax checks (some inputs, no key image twice), and no other
  transaction of the pool has its hash.
\<close>

inductive pool_step :: "tx_memory_pool \<Rightarrow> tx_memory_pool \<Rightarrow> bool" where
  add: "spendable tx \<Longrightarrow> \<forall>e\<in>set (pool_db p). pe_id e = tx_hash tx \<longrightarrow> pe_tx e = tx \<Longrightarrow>
    add_tx_hashed fpb chk_fee chk_outs chk_ins now p tx tvc kept rel no_relay ver = Some (r, tvc', p') \<Longrightarrow> pool_step p p'"
| take: "pool_step p (snd (take_tx p txid))"
| stuck: "pool_step p (remove_stuck_transactions now p)"
| validate: "pool_step p (snd (validate chain_have_tx p ver))"
| relay: "pool_step p (set_relayed now p txids)"
| chain: "pool_step p (on_blockchain_change p)"
| limit: "pool_step p (set_txpool_max_weight p bytes')"
| fill: "pool_step p (ts_pool (fill_block_template thr chk_ins cv p hashes median_w coins ver height))"
| restart: "pool_step p (snd (init_pool fpb p max_w))"

inductive pool_reachable :: "tx_memory_pool \<Rightarrow> bool" where
  start: "pool_reachable new_pool"
| step: "pool_reachable p \<Longrightarrow> pool_step p p' \<Longrightarrow> pool_reachable p'"

lemma add_tx_hashed_cases:
  assumes "add_tx_hashed fpb chk_fee chk_outs chk_ins now p tx tvc kept rel no_relay ver = Some (r, tvc', p')"
  obtains (none) "\<not> r" "p' = p"
  | (some) w where "get_transaction_weight_blob tx (of_nat (length (tx_to_blob tx))) = Some w"
    "add_tx fpb chk_fee chk_outs chk_ins now p tx (tx_hash tx) w tvc kept rel no_relay ver = (r, tvc', p')"
proof (cases "calculate_transaction_hash tx")
  case None
  then show ?thesis using assms by (intro none) (auto simp: add_tx_hashed_def)
next
  case (Some hn)
  obtain h n where hn: "hn = (h, n)" by (cases hn)
  have "tx_hash tx = h" by (simp add: tx_hash_def tx_id_def Some hn)
  moreover have "n = of_nat (length (tx_to_blob tx))"
    using Some by (auto simp: hn calculate_transaction_hash_def get_object_blobsize_def tx_to_blob_def Let_def
        split: if_splits bind_splits)
  ultimately show ?thesis
    using assms none some by (auto simp: add_tx_hashed_def Some hn split: if_splits)
qed

lemma new_pool_struct: "pool_struct new_pool"
  by (simp add: new_pool_def pool_struct_def db_ok_def sorted_ok_def exclusive_def index_ok_def spenders_def)

lemma pool_step_struct: "pool_step p p' \<Longrightarrow> pool_struct p \<Longrightarrow> pool_struct p'"
proof (induction rule: pool_step.induct)
  case (add tx p fpb chk_fee chk_outs chk_ins now tvc kept rel no_relay ver r tvc' p')
  from add.hyps(3) show ?case
  proof (cases rule: add_tx_hashed_cases)
    case (some w)
    from add_tx_struct(1) [OF add.prems add.hyps(1) refl some(1) add.hyps(2) some(2)] show ?thesis .
  qed (simp add: add.prems)
next
  case (take p txid)
  then show ?case by (rule take_tx_struct)
next
  case (stuck p now)
  then show ?case by (rule remove_stuck_struct)
next
  case (validate p chain_have_tx ver)
  show ?case by (rule validate_result [OF validate.prems, of chain_have_tx ver]) simp
next
  case (relay p now txids)
  then show ?case by (rule set_relayed_struct)
next
  case (fill p thr chk_ins cv hashes median_w coins ver height)
  obtain es where "filled cv (pool_db p) hashes (max_total_weight ver median_w)
    (fill_block_template thr chk_ins cv p hashes median_w coins ver height) es"
    by (rule fill_block_template_filled [OF fill.prems])
  then show ?case by (simp only: filled_def)
next
  case (restart p fpb max_w)
  show ?case by (rule init_pool_ok [OF restart.prems, of fpb max_w]) simp
qed (simp_all add: on_blockchain_change_struct set_txpool_max_weight_struct)

lemma reachable_struct: "pool_reachable p \<Longrightarrow> pool_struct p"
  by (induction rule: pool_reachable.induct) (auto intro: new_pool_struct pool_step_struct)

lemma struct_spent: "pool_struct p \<Longrightarrow> have_tx_keyimg_as_spent p k \<longleftrightarrow> (\<exists>e\<in>set (pool_db p). k \<in> set (tx_images (pe_tx e)))"
  using index_ok_None [of "pool_db p" "m_spent_key_images p" k]
  by (auto simp: have_tx_keyimg_as_spent_def pool_struct_def db_ok_def spenders_def)

text \<open>
  C7: In every pool that the operations can reach from the empty one, the parts agree: a key image counts as
  spent exactly when a transaction of the table spends it, the container sorted by fee
  holds every transaction of the table once, each stored under its own hash, and two
  transactions that did not come from a popped block never spend the same key image.
\<close>

theorem reachable_pool_consistent:
  assumes "pool_reachable p"
  shows "(\<forall>k. have_tx_keyimg_as_spent p k \<longleftrightarrow> (\<exists>e\<in>set (pool_db p). k \<in> set (tx_images (pe_tx e))))
    \<and> distinct (map snd (m_txs_by_fee_and_receive_time p))
    \<and> set (map snd (m_txs_by_fee_and_receive_time p)) = set (map pe_id (pool_db p))
    \<and> (\<forall>e\<in>set (pool_db p). pe_id e = tx_hash (pe_tx e))
    \<and> (\<forall>e\<in>set (pool_db p). \<forall>e'\<in>set (pool_db p). \<not> kept_by_block (pe_meta e) \<and> \<not> kept_by_block (pe_meta e') \<and> pe_id e \<noteq> pe_id e'
        \<longrightarrow> set (tx_images (pe_tx e)) \<inter> set (tx_images (pe_tx e')) = {})"
proof -
  from assms have s: "pool_struct p" by (rule reachable_struct)
  then have "exclusive (pool_db p)" "list_all entry_ok (pool_db p)" "sorted_ok (pool_db p) (m_txs_by_fee_and_receive_time p)"
    by (simp_all add: pool_struct_def db_ok_def)
  then show ?thesis using struct_spent [OF s] unfolding exclusive_def sorted_ok_def list_all_iff entry_ok_def by blast
qed

definition sample_checks :: input_checker where
  "sample_checks = (\<lambda>tx kept (tvc, h, i). (True, tvc, 7, replicate 32 9))"

definition sample_tx :: transaction where
  "sample_tx = sample_ring_tx\<lparr>version := 1, vin := [txin_to_key 100 [17] (replicate 32 1)], signatures := [[replicate 64 5]]\<rparr>"

lemma sample_spendable: "spendable sample_tx" "tx_images sample_tx = [replicate 32 1]"
  by (simp_all add: spendable_def sample_tx_def sample_ring_tx_def tx_images_def map_filter_simps)

lemma sample_weight: "length (tx_to_blob sample_tx) = 105"
  by code_simp

text \<open>The pool after that transaction is added to the empty pool, with every check of the chain passed.\<close>

definition sample_meta :: txpool_tx_meta_t where
  "sample_meta = \<lparr>max_used_block_id = replicate 32 9, last_failed_id = null_hash, meta_weight = 105, meta_fee = 100,
     max_used_block_height = 7, last_failed_height = 0, receive_time = 1700000000, last_relayed_time = 1700000000,
     kept_by_block = False, relayed = False, do_not_relay = False, double_spend_seen = False\<rparr>"

definition sample_pool :: tx_memory_pool where
  "sample_pool = \<lparr>pool_db = [new_entry sample_tx sample_meta],
     m_txs_by_fee_and_receive_time = [((100, 1700000000), tx_hash sample_tx)],
     m_spent_key_images = (\<lambda>_. None)(replicate 32 1 \<mapsto> [tx_hash sample_tx]), m_timed_out_transactions = [],
     m_input_cache = (\<lambda>_. None)(tx_hash sample_tx \<mapsto> (True, no_flags\<lparr>m_verifivation_failed := True\<rparr>, 7, replicate 32 9)),
     m_txpool_max_weight = DEFAULT_TXPOOL_MAX_WEIGHT, m_txpool_weight = 105, m_cookie = 2\<rparr>"

lemma sample_hash: "calculate_transaction_hash sample_tx = Some (tx_hash sample_tx, 105)"
proof -
  have "version sample_tx = 1" by (simp add: sample_tx_def)
  then show ?thesis using arg_cong [OF sample_weight, of "of_nat :: nat \<Rightarrow> u64"]
    by (simp add: calculate_transaction_hash_def tx_hash_def tx_id_def get_object_blobsize_def tx_to_blob_def)
qed

lemma sample_weight_blob: "get_transaction_weight_blob sample_tx n = Some n"
  by (simp add: get_transaction_weight_blob_def sample_tx_def)

lemma sample_accepted:
  "pool_fee sample_tx no_flags = Inr 100" "check_inputs_types_supported sample_tx" "version sample_tx = 1"
  "vin sample_tx = [txin_to_key 100 [17] (replicate 32 1)]"
  by (simp_all add: pool_fee_def sample_tx_def sample_ring_tx_def get_inputs_money_amount_def get_outs_money_amount_def
      check_inputs_types_supported_def)

lemma sample_limit: "105 \<le> get_transaction_weight_limit 13"
  by code_simp

lemma sample_added:
  "add_tx_hashed (\<lambda>f w. f) (\<lambda>w f. True) (\<lambda>tx tvc. (True, tvc)) sample_checks 1700000000 new_pool sample_tx no_flags False False False 13
   = Some (True, no_flags\<lparr>m_added_to_pool := True, m_should_be_relayed := True\<rparr>, sample_pool)"
proof -
  have limit: "\<not> get_transaction_weight_limit 13 < 105" using sample_limit by simp
  have "add_tx_checked (\<lambda>f w. f) sample_checks 1700000000 new_pool sample_tx (tx_hash sample_tx) 105 100 no_flags False False False
    = (True, no_flags\<lparr>m_added_to_pool := True, m_should_be_relayed := True\<rparr>, sample_pool)"
    by (simp add: add_tx_checked_def check_tx_inputs_def sample_checks_def new_pool_def store_tx_def add_txpool_tx_def
        remove_txpool_tx_def find_entry_def insert_key_images_def sample_accepted bump_cookie_def no_flags_def
        sample_pool_def sample_meta_def new_entry_def prune_def DEFAULT_TXPOOL_MAX_WEIGHT_def Let_def)
  then show ?thesis using limit
    by (simp add: add_tx_hashed_def sample_hash sample_weight_blob add_tx_def sample_accepted
        have_tx_keyimges_as_spent_def have_tx_keyimg_as_spent_def new_pool_def)
qed

lemma sample_pool_reachable: "pool_reachable sample_pool"
proof -
  have "pool_step new_pool sample_pool"
    by (rule pool_step.add [OF sample_spendable(1) _ sample_added]) (simp add: new_pool_def)
  then show ?thesis by (rule pool_reachable.step [OF pool_reachable.start])
qed

theorem reachable_pool_consistent_witness:
  "have_tx_keyimg_as_spent sample_pool (replicate 32 1) \<and> \<not> have_tx_keyimg_as_spent sample_pool (replicate 32 2)"
proof -
  have db: "pool_db sample_pool = [new_entry sample_tx sample_meta]" by (simp add: sample_pool_def)
  have "\<forall>k. have_tx_keyimg_as_spent sample_pool k \<longleftrightarrow> (\<exists>e\<in>set (pool_db sample_pool). k \<in> set (tx_images (pe_tx e)))"
    using reachable_pool_consistent [OF sample_pool_reachable] by blast
  then show ?thesis by (simp add: db new_entry_def sample_spendable)
qed

lemma sample_pool_struct: "pool_struct sample_pool"
  by (rule reachable_struct [OF sample_pool_reachable])

subsection \<open>Adding and taking\<close>

text \<open>
  C17: A transaction that was added to a pool that has room for it can be taken out again: the same transaction
  comes back, with the weight it was added with, and the table and the recorded weight are
  as before.
\<close>

theorem added_transaction_taken:
  assumes "pool_reachable p" "spendable tx" "get_transaction_weight_blob tx (of_nat (length (tx_to_blob tx))) = Some w"
    "\<not> have_tx p (tx_hash tx)" "m_txpool_weight p + w \<le> m_txpool_max_weight p"
    "add_tx fpb chk_fee chk_outs chk_ins now p tx (tx_hash tx) w tvc kept rel no_relay ver = (True, tvc', p')"
  shows "\<exists>meta p''. take_tx p' (tx_hash tx) = (Some (tx, meta), p'') \<and> meta_weight meta = w \<and> kept_by_block meta = kept
    \<and> pool_db p'' = pool_db p \<and> m_txpool_weight p'' = m_txpool_weight p"
proof -
  have s: "pool_struct p" by (rule reachable_struct [OF assms(1)])
  have new: "tx_hash tx \<notin> set (map pe_id (pool_db p))" using assms(4) by (simp add: have_tx_def find_entry_None)
  then have "\<forall>e\<in>set (pool_db p). pe_id e = tx_hash tx \<longrightarrow> pe_tx e = tx" by (metis image_eqI set_map)
  from s assms(2) refl assms(3) this assms(6) show ?thesis
  proof (cases rule: add_tx_outcome)
    case (stored p2 meta)
    have p': "p' = p2" using stored(5-7) prune_fits [of p2] assms(5) by simp
    have found: "find_entry p2 (tx_hash tx) = Some (new_entry tx meta)" by (simp add: find_entry_def stored(4) new_entry_def)
    have "filter (\<lambda>e. pe_id e \<noteq> tx_hash tx) (pool_db p2) = pool_db p"
      using filter_other [OF new] by (simp add: stored(4) new_entry_def)
    then show ?thesis unfolding p' take_tx_found [OF stored(2) found]
      using stored(5,8,10) by (auto simp: new_entry_def sorted_erase_def)
  qed simp
qed

theorem added_transaction_taken_witness:
  "\<exists>meta p''. take_tx sample_pool (tx_hash sample_tx) = (Some (sample_tx, meta), p'') \<and> meta_weight meta = 105 \<and> pool_db p'' = []"
proof -
  have added: "add_tx (\<lambda>f w. f) (\<lambda>w f. True) (\<lambda>tx tvc. (True, tvc)) sample_checks 1700000000 new_pool sample_tx (tx_hash sample_tx) 105
    no_flags False False False 13 = (True, no_flags\<lparr>m_added_to_pool := True, m_should_be_relayed := True\<rparr>, sample_pool)"
    using sample_added by (simp add: add_tx_hashed_def sample_hash sample_weight_blob)
  have "get_transaction_weight_blob sample_tx (of_nat (length (tx_to_blob sample_tx))) = Some 105"
    by (simp add: sample_weight sample_weight_blob)
  moreover have "\<not> have_tx new_pool (tx_hash sample_tx)" by (simp add: have_tx_def find_entry_def new_pool_def)
  moreover have "m_txpool_weight new_pool + 105 \<le> m_txpool_max_weight new_pool" by (simp add: new_pool_def DEFAULT_TXPOOL_MAX_WEIGHT_def)
  ultimately show ?thesis
    using added_transaction_taken [OF pool_reachable.start sample_spendable(1) _ _ _ added] by (auto simp: new_pool_def)
qed

text \<open>
  C29: Validating a pool for a block version removes exactly the transactions that are too heavy or already in the
  chain, returns their number, keeps the pool consistent and sets the recorded weight to the
  sum of the weights that remain, whatever it was before.
\<close>

theorem validate_restores_weight:
  assumes "pool_reachable p"
  shows "\<exists>p'. validate chain_have_tx p ver = (length (pool_db p) - length (pool_db p'), p') \<and> pool_struct p'
    \<and> pool_db p' = filter (\<lambda>e. meta_weight (pe_meta e) \<le> get_transaction_weight_limit ver \<and> \<not> chain_have_tx (pe_id e)) (pool_db p)
    \<and> m_txpool_weight p' = sum_list (map (\<lambda>e. meta_weight (pe_meta e)) (pool_db p'))"
proof -
  obtain p' where p': "validate chain_have_tx p ver =
      (length (filter (\<lambda>e. meta_weight (pe_meta e) > get_transaction_weight_limit ver \<or> chain_have_tx (pe_id e)) (pool_db p)), p')"
    "pool_struct p'" "weight_ok p'"
    "pool_db p' = filter (\<lambda>e. meta_weight (pe_meta e) \<le> get_transaction_weight_limit ver \<and> \<not> chain_have_tx (pe_id e)) (pool_db p)"
    by (rule validate_result [OF reachable_struct [OF assms], of chain_have_tx ver])
  define good where "good = (\<lambda>e :: pool_entry. meta_weight (pe_meta e) \<le> get_transaction_weight_limit ver \<and> \<not> chain_have_tx (pe_id e))"
  have "length (filter (\<lambda>e. \<not> good e) (pool_db p)) = length (pool_db p) - length (pool_db p')"
    using sum_length_filter_compl [of good "pool_db p"] unfolding p'(4) good_def by linarith
  with p' show ?thesis by (intro exI [of _ p']) (simp add: good_def not_le weight_ok_def)
qed

theorem validate_restores_weight_witness:
  "\<exists>p'. validate (\<lambda>h. True) sample_pool 13 = (1, p') \<and> pool_db p' = [] \<and> m_txpool_weight p' = 0"
  using validate_restores_weight [OF sample_pool_reachable, of "\<lambda>h. True" 13] by (auto simp: sample_pool_def)

text \<open>
  C18: Starting up from a consistent table succeeds: the key images and the sorted container are rebuilt to agree
  with it, the recorded weight is the sum of the weights, and no transaction is lost.
\<close>

theorem restart_restores:
  assumes "pool_reachable p"
  shows "\<exists>p'. init_pool fpb p max_w = (True, p') \<and> pool_struct p' \<and> pool_db p' = pool_db p
    \<and> m_txpool_weight p' = sum_list (map (\<lambda>e. meta_weight (pe_meta e)) (pool_db p))
    \<and> (\<forall>k. have_tx_keyimg_as_spent p' k = have_tx_keyimg_as_spent p k)"
proof -
  have s: "pool_struct p" by (rule reachable_struct [OF assms])
  obtain p' where p': "init_pool fpb p max_w = (True, p')" "pool_struct p'" "weight_ok p'" "pool_db p' = pool_db p"
    by (rule init_pool_ok [OF s, of fpb max_w])
  then show ?thesis using struct_spent [OF s] struct_spent [OF p'(2)] by (intro exI [of _ p']) (simp add: weight_ok_def)
qed

theorem restart_restores_witness:
  "\<exists>p'. init_pool (\<lambda>f w. f) sample_pool 0 = (True, p') \<and> have_tx_keyimg_as_spent p' (replicate 32 1)"
proof -
  have "have_tx_keyimg_as_spent sample_pool (replicate 32 1)" by (simp add: have_tx_keyimg_as_spent_def sample_pool_def)
  then show ?thesis using restart_restores [OF sample_pool_reachable, of "\<lambda>f w. f" 0] by auto
qed

subsection \<open>Block templates\<close>

lemma unat_sum_fits:
  assumes "nat_sum (map f xs) < 2 ^ 64"
  shows "unat (sum_list (map f xs)) = nat_sum (map f xs)"
  using foldl_sum [of 0 f xs] assms by (simp add: foldl_weights)

lemma nat_sum_subset:
  fixes f :: "'a \<Rightarrow> u64"
  assumes "distinct es" "set es \<subseteq> set xs"
  shows "nat_sum (map f es) \<le> nat_sum (map f xs)"
proof -
  have "nat_sum (map f es) = (\<Sum>x\<in>set es. unat (f x))" using assms(1) by (simp add: sum_list_distinct_conv_sum_set o_def)
  also have "\<dots> \<le> (\<Sum>x\<in>set xs. unat (f x))" by (rule sum_mono2) (use assms(2) in auto)
  also have "\<dots> = nat_sum (map f (remdups xs))" by (simp add: sum_list_distinct_conv_sum_set o_def)
  also have "\<dots> \<le> nat_sum (map f xs)" by (induction xs) auto
  finally show ?thesis .
qed

lemma distinct_images:
  assumes "distinct (concat (map (\<lambda>e. tx_images (pe_tx e)) es))" "\<forall>e\<in>set es. tx_images (pe_tx e) \<noteq> []"
  shows "distinct es"
  using assms
proof (induction es)
  case (Cons e es)
  obtain k where k: "k \<in> set (tx_images (pe_tx e))" using Cons.prems(2) by (cases "tx_images (pe_tx e)") auto
  have "e \<notin> set es"
  proof
    assume "e \<in> set es"
    with k have "k \<in> set (concat (map (\<lambda>e. tx_images (pe_tx e)) es))" by auto
    with k Cons.prems(1) show False by auto
  qed
  with Cons show ?case by simp
qed simp

text \<open>
  C8: A block template takes its transactions from the pool. Together they spend no key image twice and none that
  the chain knows as spent; their fees add up to the fee that is returned, and while the
  weights of the pool do not overflow 64 bits, their weights add up to the weight that is
  returned, which is within the limit for the version.
\<close>

theorem block_template_valid:
  assumes "pool_reachable p" "nat_sum (map (\<lambda>e. meta_weight (pe_meta e)) (pool_db p)) < 2 ^ 64"
    "st = fill_block_template thr chk_ins cv p [] median_w coins ver height"
  shows "\<exists>es. ts_hashes st = map pe_id es \<and> set es \<subseteq> set (pool_db p)
    \<and> distinct (concat (map (\<lambda>e. tx_images (pe_tx e)) es)) \<and> (\<forall>e\<in>set es. \<forall>k\<in>set (tx_images (pe_tx e)). \<not> cv_spent cv k)
    \<and> ts_fee st = sum_list (map (\<lambda>e. meta_fee (pe_meta e)) es)
    \<and> unat (ts_weight st) = nat_sum (map (\<lambda>e. meta_weight (pe_meta e)) es) \<and> ts_weight st \<le> max_total_weight ver median_w"
proof -
  have s: "pool_struct p" by (rule reachable_struct [OF assms(1)])
  obtain es where f: "filled cv (pool_db p) [] (max_total_weight ver median_w) st es"
    unfolding assms(3) by (rule fill_block_template_filled [OF s])
  have "\<forall>e\<in>set (pool_db p). tx_images (pe_tx e) \<noteq> []"
    using s spendable_image by (fastforce simp: pool_struct_def db_ok_def list_all_iff entry_ok_def)
  with f have "distinct es" unfolding filled_def by (intro distinct_images) blast+
  moreover have "set es \<subseteq> set (pool_db p)" using f by (simp add: filled_def)
  ultimately have "nat_sum (map (\<lambda>e. meta_weight (pe_meta e)) es) < 2 ^ 64"
    using nat_sum_subset [of es "pool_db p" "\<lambda>e. meta_weight (pe_meta e)"] assms(2) by linarith
  note fits = unat_sum_fits [OF this]
  have w: "ts_weight st = sum_list (map (\<lambda>e. meta_weight (pe_meta e)) es)" using f unfolding filled_def by blast
  show ?thesis using f fits [folded w] unfolding filled_def append_Nil by (intro exI [of _ es]) blast
qed

definition sample_chain :: chain_view where
  "sample_chain = \<lparr>cv_height = 9, cv_block_id = (\<lambda>h. replicate 32 4), cv_spent = (\<lambda>k. False)\<rparr>"

lemma sample_template:
  "ts_hashes (fill_block_template id sample_checks sample_chain sample_pool [] 300000 0 13 9) = [tx_hash sample_tx]"
proof -
  have e: "find_entry sample_pool (tx_hash sample_tx) = Some (new_entry sample_tx sample_meta)"
    by (simp add: find_entry_def sample_pool_def new_entry_def)
  have reward: "get_block_reward 300000 w 0 13 9 = Reward 381469726562" if "w \<le> 300000" for w
    using that by (simp add: get_block_reward_def Let_def get_min_block_weight_def base_block_reward_def MONEY_SUPPLY_def
        PREMINE_BLOCK_HEIGHT_def FINAL_SUBSIDY_PER_MINUTE_def target_minutes_def HF_VERSION_PROOF_OF_STAKE_def
        HF_VERSION_TWO_MINUTE_BLOCK_TIME_def emission_speed_factor_def EMISSION_SPEED_FACTOR_PER_MINUTE_def drop_bit_eq_div)
  have ready: "is_transaction_ready_to_go sample_checks sample_chain sample_pool (new_entry sample_tx sample_meta)
      = (True, sample_meta, sample_pool)"
    by (simp add: is_transaction_ready_to_go_def sample_chain_def new_entry_def sample_meta_def check_tx_inputs_def
        sample_pool_def null_hash_def sample_accepted Let_def replicate_eq_replicate)
  have srt: "m_txs_by_fee_and_receive_time sample_pool = [((100, 1700000000), tx_hash sample_tx)]" by (simp add: sample_pool_def)
  have m: "pe_meta (new_entry sample_tx sample_meta) = sample_meta" "meta_weight sample_meta = 105" "meta_fee sample_meta = 100"
    by (simp_all add: new_entry_def sample_meta_def)
  show ?thesis
    by (simp add: fill_block_template_def srt Let_def reward fill_step_def e ready next_coinbase_def max_total_weight_def
        CRYPTONOTE_COINBASE_BLOB_RESERVED_SIZE_def m have_key_images_def list_ex_iff)
qed

theorem block_template_valid_witness:
  "\<exists>es. ts_hashes (fill_block_template id sample_checks sample_chain sample_pool [] 300000 0 13 9) = map pe_id es
     \<and> es \<noteq> [] \<and> set es \<subseteq> {new_entry sample_tx sample_meta}"
proof -
  have db: "pool_db sample_pool = [new_entry sample_tx sample_meta]" by (simp add: sample_pool_def)
  have fits: "nat_sum (map (\<lambda>e. meta_weight (pe_meta e)) (pool_db sample_pool)) < 2 ^ 64"
    by (simp add: db new_entry_def sample_meta_def)
  obtain es where es: "ts_hashes (fill_block_template id sample_checks sample_chain sample_pool [] 300000 0 13 9) = map pe_id es"
    "set es \<subseteq> set (pool_db sample_pool)"
    using block_template_valid [OF sample_pool_reachable fits refl, of id sample_checks sample_chain 300000 0 13 9] by blast
  moreover have "es \<noteq> []" using es(1) sample_template by auto
  ultimately show ?thesis by (intro exI [of _ es]) (simp add: db)
qed

subsection \<open>Pruning, comparison and relaying\<close>

text \<open>
  C35: Pruning subtracts the time at which the transaction was received, not its weight, from the recorded weight of
  the pool. With two transactions over the limit, the recorded weight is then not the
  weight of what is left, and since times exceed weights it wraps around and grows.
\<close>

theorem prune_subtracts_time:
  assumes "distinct (map pe_id (pool_db p))" "weight_ok p" "m_txs_by_fee_and_receive_time p = [a, b]"
    "find_entry p (snd b) = Some e" "\<not> kept_by_block (pe_meta e)" "snd (fst b) = receive_time (pe_meta e)"
    "receive_time (pe_meta e) > m_txpool_weight p" "meta_weight (pe_meta e) \<le> m_txpool_weight p"
    "m_txpool_weight p > m_txpool_max_weight p"
  shows "pool_db (prune p (m_txpool_max_weight p)) = filter (\<lambda>x. pe_id x \<noteq> snd b) (pool_db p)
    \<and> m_txpool_weight (prune p (m_txpool_max_weight p)) = m_txpool_weight p - receive_time (pe_meta e)
    \<and> m_txpool_weight (prune p (m_txpool_max_weight p)) > m_txpool_weight p
    \<and> \<not> weight_ok (prune p (m_txpool_max_weight p))"
proof -
  have id: "pe_id e = snd b" "e \<in> set (pool_db p)" using find_entry_Some [OF assms(4)] by auto
  define w where "w = m_txpool_weight p - receive_time (pe_meta e)"
  have over: "\<not> m_txpool_weight p \<le> m_txpool_max_weight p" using assms(9) by simp
  have res: "prune p (m_txpool_max_weight p) = bump_cookie ((removed p e w)\<lparr>m_txs_by_fee_and_receive_time :=
      remove1 b (m_txs_by_fee_and_receive_time p)\<rparr>)"
    using prune_loop_removed [OF assms(4,5) over, of "[]" False] by (simp add: prune_def assms(3,6) w_def)
  have grows: "w > m_txpool_weight p"
  proof -
    have "unat w = 2 ^ 64 + unat (m_txpool_weight p) - unat (receive_time (pe_meta e))"
      using assms(7) by (simp add: w_def unat_sub_if' word_less_nat_alt)
    moreover have "unat (receive_time (pe_meta e)) < 2 ^ 64" by (rule unat_lt_u64)
    ultimately show ?thesis by (simp add: word_less_nat_alt)
  qed
  moreover have "\<not> weight_ok (prune p (m_txpool_max_weight p))"
  proof
    assume "weight_ok (prune p (m_txpool_max_weight p))"
    then have "w = m_txpool_weight p - meta_weight (pe_meta e)"
      using sum_remove [OF assms(1) id(2), of "\<lambda>e. meta_weight (pe_meta e)"] assms(2) by (simp add: res weight_ok_def)
    moreover have "m_txpool_weight p - meta_weight (pe_meta e) \<le> m_txpool_weight p" using assms(8) by (simp add: word_sub_le)
    ultimately show False using grows by simp
  qed
  ultimately show ?thesis by (simp add: res w_def id(1))
qed

definition sample_full_pool :: tx_memory_pool where
  "sample_full_pool = new_pool\<lparr>pool_db := [\<lparr>pe_id = [1], pe_meta = sample_meta, pe_tx = sample_tx\<rparr>,
       \<lparr>pe_id = [2], pe_meta = sample_meta\<lparr>receive_time := 1700000001\<rparr>, pe_tx = sample_tx\<rparr>],
     m_txs_by_fee_and_receive_time := [((100, 1700000000), [1]), ((100, 1700000001), [2])],
     m_txpool_weight := 210, m_txpool_max_weight := 200\<rparr>"

theorem prune_subtracts_time_witness:
  "m_txpool_weight (prune sample_full_pool 200) = 210 - 1700000001 \<and> \<not> weight_ok (prune sample_full_pool 200)"
proof -
  let ?e = "\<lparr>pe_id = [2], pe_meta = sample_meta\<lparr>receive_time := 1700000001\<rparr>, pe_tx = sample_tx\<rparr>"
  have "distinct (map pe_id (pool_db sample_full_pool))" "weight_ok sample_full_pool"
    "m_txs_by_fee_and_receive_time sample_full_pool = [((100, 1700000000), [1]), ((100, 1700000001), [2])]"
    "find_entry sample_full_pool (snd ((100, 1700000001) :: u64 \<times> u64, [2])) = Some ?e" "\<not> kept_by_block (pe_meta ?e)"
    "snd (fst ((100, 1700000001) :: u64 \<times> u64, [2] :: bytes)) = receive_time (pe_meta ?e)"
    "receive_time (pe_meta ?e) > m_txpool_weight sample_full_pool" "meta_weight (pe_meta ?e) \<le> m_txpool_weight sample_full_pool"
    "m_txpool_weight sample_full_pool > m_txpool_max_weight sample_full_pool"
    by (simp_all add: sample_full_pool_def sample_meta_def weight_ok_def find_entry_def)
  from prune_subtracts_time [OF this] show ?thesis by (simp add: sample_full_pool_def)
qed

text \<open>
  The order of the sorted container is not asymmetric: with equal fees per byte and equal times,
  two different transactions each come before the other.
\<close>

lemma txCompare_not_asymmetric: "fst a = fst b \<Longrightarrow> snd a \<noteq> snd b \<Longrightarrow> txCompare a b \<and> txCompare b a"
  by (simp add: txCompare_def)

lemma txCompare_greatest_fee: "fst (fst a) > fst (fst b) \<Longrightarrow> txCompare a b \<and> \<not> txCompare b a"
  by (auto simp: txCompare_def)

lemma relay_delay_bounds:
  assumes "0 \<le> sint received" "sint received \<le> sint now"
  shows "300 \<le> get_relay_delay now received \<and> get_relay_delay now received \<le> 14400"
proof -
  define d where "d = (sint now - sint received + 300) div 300 * 300"
  have "d \<ge> 300" using assms by (simp add: d_def)
  define d' where "d' = (if d > 14400 then 14400 else d)"
  have "300 \<le> d'" "d' \<le> 14400" using \<open>d \<ge> 300\<close> by (simp_all add: d'_def)
  moreover have "get_relay_delay now received = of_int d'"
    using assms by (simp add: get_relay_delay_def MIN_RELAY_TIME_def MAX_RELAY_TIME_def d'_def d_def Let_def signed_divide_int_def)
  ultimately show ?thesis by (auto simp: word_le_def uint_word_of_int take_bit_int_eq_self)
qed

end
