(* ===== verification/Spec2Isabelle.thy ===== *)
theory Spec2Isabelle
  imports Leader_Service Hard_Fork Difficulty Checkpoints Tx_Pool
begin

text \<open>
  Verification of the X-CASH core daemon (sources under \<^verbatim>\<open>src/\<close>).

  The program is a node of a proof-of-work coin in the CryptoNote family that runs, for a
  migration period, under a temporary consensus: blocks are produced in fixed time slots by
  one of four seed nodes, which signs the block and puts its address and signature into the
  \<^verbatim>\<open>extra\<close> field of the miner transaction. The development follows a block through the program:
  how it is encoded and hashed, how the leader makes and signs it, how the other nodes check
  it, the rules on versions, difficulty, checkpoints and money it is checked against, and the
  pool its transactions come from.

  \<^bold>\<open>Encoding.\<close>
  \<^item> \<open>Xcash_Prelude\<close>: machine integers, byte strings, shared lemmas and fact collections.
  \<^item> \<open>Varint\<close> (\<^verbatim>\<open>common/varint.h\<close>): writer and reader; round trip, canonical encodings.
  \<^item> \<open>Binary_Archive\<close> (\<^verbatim>\<open>serialization/\<close>): integers, blobs, strings, containers, variants. The
    interface of a type that can be stored is the locale \<open>codec\<close> (what was saved is what is
    loaded, whatever follows); every stored type of the model interprets it.
  \<^item> \<open>Hex\<close> (\<^verbatim>\<open>contrib/epee\<close>): hexadecimal strings.
  \<^item> \<open>Tx_Extra\<close> (\<^verbatim>\<open>cryptonote_basic/tx_extra.h\<close> and the functions on it in
    \<^verbatim>\<open>cryptonote_format_utils.cpp\<close>): the fields of the extra, parser, and the functions that add,
    find and remove fields; round trips, the leader metadata, the nonce length bug.
  \<^item> \<open>Rct_Types\<close>, \<open>Cryptonote_Basic\<close>: ring signature containers, transactions, blocks; their
    archive formats and well-formedness.

  \<^bold>\<open>Hashing.\<close>
  \<^item> \<open>Keccak\<close> (\<^verbatim>\<open>crypto/keccak.c\<close>, \<^verbatim>\<open>hash.c\<close>): permutation, one-shot and incremental hash; equality with
    the specification of the permutation, with generated constants.
  \<^item> \<open>Tree_Hash\<close> (\<^verbatim>\<open>crypto/tree-hash.c\<close>): in-place Merkle root; equality with the recursive tree, and
    that the root determines the leaves unless a collision is exhibited.
  \<^item> \<open>Tx_Hash\<close> (\<^verbatim>\<open>cryptonote_format_utils.cpp\<close>): transaction and block ids with their caches, and
    the id of a transaction whose prunable part is gone.

  \<^bold>\<open>Temporary consensus.\<close>
  \<^item> \<open>Temp_Consensus\<close>: validator and block generation; \<open>Leader_Service\<close>: slots, service loop as a
    step relation, and the daemon's set-up. libsodium and the core are parameters; the
    contract of libsodium that is used is a hypothesis of the theorem that uses it.
    Shown: what a configured leader produces, every node accepts; what a node accepts was
    signed with the key of a seed; no slot gets two blocks; the loop makes progress.

  \<^bold>\<open>Block rules.\<close>
  \<^item> \<open>Hard_Fork\<close> (\<^verbatim>\<open>cryptonote_basic/hardfork.cpp\<close>): table, votes, restart from the database.
  \<^item> \<open>Difficulty\<close> (\<^verbatim>\<open>cryptonote_basic/difficulty.cpp\<close>): products, hash check, integer rules.
  \<^item> \<open>Checkpoints\<close> (\<^verbatim>\<open>checkpoints/\<close>, \<^verbatim>\<open>common/dns_utils.cpp\<close>): the ordered map of checkpoints behind the
    locale \<open>ordered_map\<close>, loading from file and DNS; checkpoints are permanent, a reorganisation
    stays above them, and DNS records need two servers.

  \<^bold>\<open>Money.\<close>
  \<^item> \<open>Money\<close> (\<^verbatim>\<open>cryptonote_format_utils.cpp\<close>): sums of inputs and outputs with their overflow checks,
    fees, weights, decomposition into digits, printing and parsing, output offsets.
  \<^item> \<open>Block_Reward\<close> (\<^verbatim>\<open>cryptonote_basic_impl.cpp\<close>, \<^verbatim>\<open>common/int-util.h\<close>, fee rules of
    \<^verbatim>\<open>blockchain.cpp\<close>): long division, reward with penalty, cap on the generated coins, fees.
  \<^item> \<open>Miner_Tx\<close> (\<^verbatim>\<open>cryptonote_tx_utils.cpp\<close>, \<^verbatim>\<open>blockchain.cpp\<close>): construction and validation of the miner
    transaction; what is constructed is accepted.

  \<^bold>\<open>Transaction pool.\<close>
  \<^item> \<open>Tx_Pool\<close> (\<^verbatim>\<open>cryptonote_core/tx_pool.cpp\<close>, the pool tables of \<^verbatim>\<open>blockchain_db/lmdb/db_lmdb.cpp\<close>): adding,
    taking, pruning, expiring, validating, restarting and block templates, as a step relation
    on pools. Shown: table, key images and sorted container agree in every reachable pool;
    what is added can be taken; templates are free of double spends and within the limit; a
    restart rebuilds the state. Pruning is shown to lose track of the weight.

  \<^bold>\<open>Conventions.\<close> Records stand for structs, words for unsigned integers, \<open>option\<close> for
  failure, exceptions and undefined behaviour (each theory says which). Loops are recursive
  functions with a termination proof; the absorbing loop of Keccak, which does not end for one
  parameter, is a \<open>partial_function\<close>. No fuel is used. The assertions of the block reward end the
  program, as in a debug build.

  \<^bold>\<open>Not modelled.\<close> The wallets and RPC servers, peer-to-peer networking, the database engines and
  third-party code under \<^verbatim>\<open>external/\<close> are input/output around the parts above or code the program
  only calls. Elliptic-curve arithmetic, ring signatures and the memory-hard hashes are
  cryptographic primitives whose correctness is not a matter of this code alone; difficulty
  versions 9, 10 and 12, and the part of version 13 whose result the code overwrites, use
  floating-point numbers.
\<close>

end
